(* ===== verification/Cloud_Prelude.thy ===== *)
theory Cloud_Prelude
  imports Main "HOL-Library.Word" "HOL-Library.AList" "HOL-Library.Multiset"
begin

text \<open>
  The shared layer of the development: the machine types of the C++ sources, their memory
  buffers, the little- and big-endian byte encodings, the result type of code that can stop the
  process, and the generic lemmas on lists, words and association lists that the component
  theories use. The collections \<open>mem_simps\<close>, \<open>codec_simps\<close> and \<open>result_simps\<close> carry the
  component proofs.
\<close>

unbundle bit_operations_syntax

named_theorems mem_simps "reads and writes of memory buffers"
named_theorems codec_simps "byte encodings and their inverses"
named_theorems result_simps "the result type of fallible code"

section \<open>Machine types\<close>

type_synonym u8 = "8 word"
type_synonym u32 = "32 word"
type_synonym u64 = "64 word"
type_synonym bytes = "u8 list"

text \<open>
  A \<open>std::string\<close> of the sources is a byte string; \<open>str\<close> gives the bytes of a literal.
  A file path reaches the operating system through \<open>c_str()\<close>, so it ends at the first NUL.
\<close>

definition str :: "string \<Rightarrow> bytes" where
  "str s = map of_char s"

definition c_path :: "bytes \<Rightarrow> bytes" where
  "c_path p = takeWhile (\<lambda>b. b \<noteq> 0) p"

section \<open>Results of fallible code\<close>

text \<open>
  How a call of the sources can fail to return: \<open>exit(EXIT_FAILURE)\<close>, a failed \<open>assert\<close>, an
  uncaught C++ exception, an access outside a buffer or another undefined behaviour.
\<close>

datatype fault =
    ExitFailure
  | AssertFailed
  | Uncaught
  | OutOfBounds
  | Undefined

type_synonym 'a result = "fault + 'a"

definition bindR :: "'a result \<Rightarrow> ('a \<Rightarrow> 'b result) \<Rightarrow> 'b result" where
  "bindR r f = (case r of Inl e \<Rightarrow> Inl e | Inr x \<Rightarrow> f x)"

definition guardR :: "bool \<Rightarrow> fault \<Rightarrow> unit result" where
  "guardR b e = (if b then Inr () else Inl e)"

lemma bindR_Inr [simp, result_simps]: "bindR (Inr x) f = f x"
  by (simp add: bindR_def)

lemma bindR_Inl [simp, result_simps]: "bindR (Inl e) f = Inl e"
  by (simp add: bindR_def)

lemma bindR_eq_Inr [result_simps]: "bindR r f = Inr y \<longleftrightarrow> (\<exists>x. r = Inr x \<and> f x = Inr y)"
  by (cases r) auto

lemma bindR_eq_Inl: "bindR r f = Inl e \<longleftrightarrow> r = Inl e \<or> (\<exists>x. r = Inr x \<and> f x = Inl e)"
  by (cases r) auto

lemma bindR_assoc: "bindR (bindR r f) g = bindR r (\<lambda>x. bindR (f x) g)"
  by (cases r) auto

lemma guardR_eq_Inr [simp, result_simps]: "guardR b e = Inr u \<longleftrightarrow> b"
  by (simp add: guardR_def)

lemma guardR_True [simp, result_simps]: "guardR True e = Inr ()"
  by (simp add: guardR_def)

lemma guardR_False [simp, result_simps]: "guardR False e = Inl e"
  by (simp add: guardR_def)

section \<open>Runs that may not return\<close>

type_synonym 'a run = "'a result option"

definition bindO :: "'a run \<Rightarrow> ('a \<Rightarrow> 'b run) \<Rightarrow> 'b run" where
  "bindO m f = (case m of None \<Rightarrow> None | Some (Inl e) \<Rightarrow> Some (Inl e) | Some (Inr x) \<Rightarrow> f x)"

definition liftO :: "'a result \<Rightarrow> 'a run" where
  "liftO r = Some r"

definition guardO :: "bool \<Rightarrow> fault \<Rightarrow> unit run" where
  "guardO b e = Some (guardR b e)"

lemma bindO_simps [simp, result_simps]:
  "bindO None f = None" "bindO (Some (Inl e)) f = Some (Inl e)" "bindO (Some (Inr x)) f = f x"
  by (simp_all add: bindO_def)

lemma liftO_simps [simp, result_simps]: "bindO (liftO (Inr x)) f = f x" "bindO (liftO (Inl e)) f = Some (Inl e)"
  by (simp_all add: liftO_def)

lemma guardO_simps [simp, result_simps]: "bindO (guardO True e) f = f ()" "bindO (guardO False e) f = Some (Inl e)"
  by (simp_all add: guardO_def)

lemma bindO_eq_Inr: "bindO m f = Some (Inr y) \<longleftrightarrow> (\<exists>x. m = Some (Inr x) \<and> f x = Some (Inr y))"
  by (auto simp: bindO_def split: option.splits sum.splits)

lemma bindO_mono [partial_function_mono]:
  assumes "mono_option B" and "\<And>y. mono_option (\<lambda>f. C y f)"
  shows "mono_option (\<lambda>f. bindO (B f) (\<lambda>y. C y f))"
proof -
  have "bindO (B f) (\<lambda>y. C y f) =
      Option.bind (B f) (\<lambda>r. case r of Inl e \<Rightarrow> Some (Inl e) | Inr y \<Rightarrow> C y f)" for f
    by (auto simp: bindO_def split: option.splits sum.splits)
  moreover have "mono_option (\<lambda>f. case r of Inl e \<Rightarrow> Some (Inl e) | Inr y \<Rightarrow> C y f)" for r
    using assms(2) by (cases r) (simp_all add: monotone_def option.leq_refl)
  ultimately show ?thesis
    using bind_mono [OF assms(1), of "\<lambda>r f. case r of Inl e \<Rightarrow> Some (Inl e) | Inr y \<Rightarrow> C y f"] by simp
qed

section \<open>Memory buffers\<close>

text \<open>
  A \<open>uint8_t\<close> array is a function from offsets to bytes; the size of the array is not part of
  the buffer, and an operation that can leave the array checks it explicitly. \<open>mem_write\<close> is
  \<open>memcpy\<close> into the buffer and \<open>mem_read\<close> a copy out of it.
\<close>

type_synonym buf = "nat \<Rightarrow> u8"

definition mem_write :: "buf \<Rightarrow> nat \<Rightarrow> bytes \<Rightarrow> buf" where
  "mem_write m off bs = (\<lambda>i. if off \<le> i \<and> i < off + length bs then bs ! (i - off) else m i)"

definition mem_read :: "buf \<Rightarrow> nat \<Rightarrow> nat \<Rightarrow> bytes" where
  "mem_read m off n = map (\<lambda>i. m (off + i)) [0..<n]"

lemma length_mem_read [simp, mem_simps]: "length (mem_read m off n) = n"
  by (simp add: mem_read_def)

lemma mem_read_0 [simp, mem_simps]: "mem_read m off 0 = []"
  by (simp add: mem_read_def)

lemma nth_mem_read [simp, mem_simps]: "i < n \<Longrightarrow> mem_read m off n ! i = m (off + i)"
  by (simp add: mem_read_def)

lemma mem_read_add: "mem_read m off (a + b) = mem_read m off a @ mem_read m (off + a) b"
  by (rule nth_equalityI) (auto simp: nth_append mem_read_def)

lemma mem_read_write_same [simp, mem_simps]:
  "mem_read (mem_write m off bs) off (length bs) = bs"
  by (rule nth_equalityI) (auto simp: mem_read_def mem_write_def)

lemma mem_read_write_same' [mem_simps]:
  "n = length bs \<Longrightarrow> mem_read (mem_write m off bs) off n = bs"
  by simp

lemma mem_read_write_disjoint [mem_simps]:
  "off + n \<le> off' \<or> off' + length bs \<le> off \<Longrightarrow>
   mem_read (mem_write m off' bs) off n = mem_read m off n"
  by (rule nth_equalityI) (auto simp: mem_read_def mem_write_def)

lemma mem_read_write_inside:
  "off' \<le> off \<Longrightarrow> off + n \<le> off' + length bs \<Longrightarrow>
   mem_read (mem_write m off' bs) off n = take n (drop (off - off') bs)"
  by (rule nth_equalityI) (auto simp: mem_read_def mem_write_def)

lemma mem_read_cong: "(\<And>i. i < n \<Longrightarrow> m (off + i) = m' (off' + i)) \<Longrightarrow>
  mem_read m off n = mem_read m' off' n"
  by (simp add: mem_read_def)

lemma mem_write_append:
  "mem_write m off (as @ bs) = mem_write (mem_write m off as) (off + length as) bs"
  by (rule ext) (auto simp: mem_write_def nth_append)

lemma mem_write_Nil [simp, mem_simps]: "mem_write m i [] = m"
  by (rule ext) (auto simp: mem_write_def)

lemma mem_read_extend:
  "mem_read (mem_write m n bs) 0 (n + length bs) = mem_read m 0 n @ bs"
  by (simp add: mem_read_add mem_read_write_disjoint)

lemma take_mem_read [mem_simps]: "k \<le> n \<Longrightarrow> take k (mem_read m off n) = mem_read m off k"
  by (rule nth_equalityI) (auto simp: mem_read_def)

lemma drop_mem_read [mem_simps]:
  "k \<le> n \<Longrightarrow> drop k (mem_read m off n) = mem_read m (off + k) (n - k)"
  by (rule nth_equalityI) (auto simp: mem_read_def ac_simps)

section \<open>Byte encodings\<close>

text \<open>
  \<open>memcpy\<close> of an integer object copies its bytes lowest first (the sources are built for
  x86-64); the container format stores 32-bit numbers highest byte first.
\<close>

fun le_enc :: "nat \<Rightarrow> 'a::len word \<Rightarrow> bytes" where
  "le_enc 0 w = []"
| "le_enc (Suc n) w = ucast w # le_enc n (drop_bit 8 w)"

fun le_dec :: "bytes \<Rightarrow> 'a::len word" where
  "le_dec [] = 0"
| "le_dec (b # bs) = ucast b OR push_bit 8 (le_dec bs)"

definition be32_enc :: "u32 \<Rightarrow> bytes" where
  "be32_enc w = [ucast (drop_bit 24 w), ucast (drop_bit 16 w), ucast (drop_bit 8 w), ucast w]"

definition be32_dec :: "u8 \<Rightarrow> u8 \<Rightarrow> u8 \<Rightarrow> u8 \<Rightarrow> u32" where
  "be32_dec b0 b1 b2 b3 =
     ucast b3 + push_bit 8 (ucast b2) + push_bit 16 (ucast b1) + push_bit 24 (ucast b0)"

lemma length_le_enc [simp, codec_simps]: "length (le_enc n w) = n"
  by (induction n arbitrary: w) auto

lemma le_dec_enc: "le_dec (le_enc n w) = take_bit (8 * n) w"
proof (induction n arbitrary: w)
  case (Suc n)
  show ?case
    by (rule bit_eqI) (auto simp: Suc bit_simps)
qed simp

lemma le_dec_enc_id [simp, codec_simps]:
  fixes w :: "'a::len word"
  assumes "LENGTH('a) \<le> 8 * n"
  shows "le_dec (le_enc n w) = w"
  using assms by (simp add: le_dec_enc take_bit_word_eq_self)

lemma length_be32_enc [simp, codec_simps]: "length (be32_enc w) = 4"
  by (simp add: be32_enc_def)

lemma be32_dec_OR:
  "be32_dec b0 b1 b2 b3 =
     ((ucast b3 OR push_bit 8 (ucast b2)) OR push_bit 16 (ucast b1)) OR push_bit 24 (ucast b0)"
proof -
  have 1: "ucast b3 + push_bit 8 (ucast b2) = (ucast b3 OR push_bit 8 (ucast b2) :: u32)"
    by (rule disjunctive_add) (auto simp: bit_simps dest!: bit_imp_le_length)
  have 2: "(ucast b3 OR push_bit 8 (ucast b2)) + push_bit 16 (ucast b1) =
      ((ucast b3 OR push_bit 8 (ucast b2)) OR push_bit 16 (ucast b1) :: u32)"
    by (rule disjunctive_add) (auto simp: bit_simps dest!: bit_imp_le_length)
  have 3: "((ucast b3 OR push_bit 8 (ucast b2)) OR push_bit 16 (ucast b1)) + push_bit 24 (ucast b0) =
      (((ucast b3 OR push_bit 8 (ucast b2)) OR push_bit 16 (ucast b1)) OR push_bit 24 (ucast b0) :: u32)"
    by (rule disjunctive_add) (auto simp: bit_simps dest!: bit_imp_le_length)
  show ?thesis
    by (simp only: be32_dec_def 1 2 3)
qed

lemma be32_roundtrip [simp, codec_simps]:
  "be32_dec (ucast (drop_bit 24 w)) (ucast (drop_bit 16 w)) (ucast (drop_bit 8 w)) (ucast w) = w"
proof (rule bit_eqI)
  fix n
  show "bit (be32_dec (ucast (drop_bit 24 w)) (ucast (drop_bit 16 w)) (ucast (drop_bit 8 w)) (ucast w)) n
      = bit w n"
    unfolding be32_dec_OR
    by (cases "n < 8"; cases "n < 16"; cases "n < 24") (auto simp: bit_simps dest: bit_imp_le_length)
qed

lemma be32_dec_nth_enc [codec_simps]:
  "be32_dec (be32_enc w ! 0) (be32_enc w ! 1) (be32_enc w ! 2) (be32_enc w ! 3) = w"
  by (simp add: be32_enc_def)

section \<open>Words and natural numbers\<close>

lemma unat_of_nat_u32: "n < 2 ^ 32 \<Longrightarrow> unat (of_nat n :: u32) = n"
  by (simp add: unat_of_nat)

lemma unat_of_nat_u64: "n < 2 ^ 64 \<Longrightarrow> unat (of_nat n :: u64) = n"
  by (simp add: unat_of_nat)

lemma ucast_of_nat_u32: "n < 2 ^ 32 \<Longrightarrow> (ucast (of_nat n :: u32) :: u64) = of_nat n"
  by (metis of_nat_unat unat_of_nat_u32)

lemma unat_u32_bound: "unat (w :: u32) < 2 ^ 32"
  using unsigned_less [of w, where ?'a = nat] by simp

lemma unat_u64_bound: "unat (w :: u64) < 2 ^ 64"
  using unsigned_less [of w, where ?'a = nat] by simp

lemma unat_add_no_overflow_u32:
  "unat a + unat b < 2 ^ 32 \<Longrightarrow> unat (a + b :: u32) = unat a + unat b"
  by (simp add: unat_word_ariths)

section \<open>Association lists\<close>

text \<open>A \<open>std::unordered_map\<close> is an association list with distinct keys; its iteration order is
  not specified, so no component result depends on the order of the list.\<close>

lemma alist_update_new: "k \<notin> fst ` set xs \<Longrightarrow> AList.update k v xs = xs @ [(k, v)]"
  by (induction xs) auto

end
