(* ===== verification/Chunk_Structure.thy ===== *)
theory Chunk_Structure
  imports Cloud_Prelude
begin

text \<open>
  The constants of \<open>include/constVar.h\<close> and the structures of \<open>include/chunkStructure.h\<close>, with
  the byte layout of the two structures that cross the network or the disk
  (\<open>NetworkHead_t\<close>, \<open>FileRecipeHead_t\<close>) and the message buffer whose header and data pointers
  alias the send buffer.
\<close>

named_theorems const_simps "the values of the constants"

section \<open>Constants\<close>

definition CRYPTO_BLOCK_SIZE :: nat where [const_simps]: "CRYPTO_BLOCK_SIZE = 16"
definition CHUNK_HASH_SIZE :: nat where [const_simps]: "CHUNK_HASH_SIZE = 32"
definition MLE_KEY_SIZE :: nat where [const_simps]: "MLE_KEY_SIZE = 32"
definition MAX_CHUNK_SIZE :: nat where [const_simps]: "MAX_CHUNK_SIZE = 16384"
definition MAX_CONTAINER_SIZE :: nat where [const_simps]: "MAX_CONTAINER_SIZE = 4194304"
definition CONTAINER_ID_LENGTH :: nat where [const_simps]: "CONTAINER_ID_LENGTH = 8"
definition CONTAINER_QUEUE_SIZE :: nat where [const_simps]: "CONTAINER_QUEUE_SIZE = 32"
definition CONTAINER_CAPPING_VALUE :: nat where [const_simps]: "CONTAINER_CAPPING_VALUE = 16"

datatype ENCRYPT_SET = AES_256_GCM | AES_128_GCM | AES_256_CFB | AES_128_CFB

datatype HASH_SET = SHA_256 | MD5 | SHA_1

definition HASH_TYPE :: HASH_SET where "HASH_TYPE = SHA_256"
definition CIPHER_TYPE :: ENCRYPT_SET where "CIPHER_TYPE = AES_256_GCM"

datatype OPT_TYPE = UPLOAD_OPT | DOWNLOAD_RECIPE_OPT | DOWNLOAD_CHUNK_OPT

text \<open>
  The message types of the edge protocol, in the order of the enumeration; \<open>edge_code\<close> is the
  value of the enumerator and \<open>edge_of_code\<close> the \<open>switch\<close> over a received \<open>int\<close>.
\<close>

datatype EDGE_PROTCOL_CODE_SET =
    EDGE_LOGIN_RESPONSE | CLOUD_FILE_NON_EXIST
  | EDGE_MIGRATE_LOGIN | EDGE_UPLOAD_SEC_RECIPE | EDGE_UPLOAD_SEC_RECIPE_END
  | EDGE_UPLOAD_RECIPE | EDGE_UPLOAD_RECIPE_END
  | EDGE_UPLOAD_KEY_RECIPE | EDGE_UPLOAD_KEY_RECIPE_END
  | EDGE_MIGRATION_CHUNK | EDGE_MIGRATION_CHUNK_FINAL | EDGE_MIGRATION_NEWFILE
  | EDGE_DOWNLOAD_RECIPE_LOGIN | EDGE_DOWNLOAD_RECIPE_READY
  | CLOUD_SEND_RECIPE | CLOUD_SEND_SECURE_RECIPE | CLOUD_SEND_KEY_RECIPE
  | EDGE_RECEIVE_READY | CLOUD_SEND_RECIPE_END
  | EDGE_DOWNLOAD_CHUNK_LOGIN | EDGE_DOWNLOAD_CHUNK_READY
  | CLOUD_SEND_CHUNK | CLOUD_SEND_CHUNK_END

definition edge_codes :: "EDGE_PROTCOL_CODE_SET list" where
  "edge_codes =
    [EDGE_LOGIN_RESPONSE, CLOUD_FILE_NON_EXIST, EDGE_MIGRATE_LOGIN, EDGE_UPLOAD_SEC_RECIPE,
     EDGE_UPLOAD_SEC_RECIPE_END, EDGE_UPLOAD_RECIPE, EDGE_UPLOAD_RECIPE_END,
     EDGE_UPLOAD_KEY_RECIPE, EDGE_UPLOAD_KEY_RECIPE_END, EDGE_MIGRATION_CHUNK,
     EDGE_MIGRATION_CHUNK_FINAL, EDGE_MIGRATION_NEWFILE, EDGE_DOWNLOAD_RECIPE_LOGIN,
     EDGE_DOWNLOAD_RECIPE_READY, CLOUD_SEND_RECIPE, CLOUD_SEND_SECURE_RECIPE,
     CLOUD_SEND_KEY_RECIPE, EDGE_RECEIVE_READY, CLOUD_SEND_RECIPE_END,
     EDGE_DOWNLOAD_CHUNK_LOGIN, EDGE_DOWNLOAD_CHUNK_READY, CLOUD_SEND_CHUNK,
     CLOUD_SEND_CHUNK_END]"

fun edge_code :: "EDGE_PROTCOL_CODE_SET \<Rightarrow> u32" where
  "edge_code EDGE_LOGIN_RESPONSE = 0"
| "edge_code CLOUD_FILE_NON_EXIST = 1"
| "edge_code EDGE_MIGRATE_LOGIN = 2"
| "edge_code EDGE_UPLOAD_SEC_RECIPE = 3"
| "edge_code EDGE_UPLOAD_SEC_RECIPE_END = 4"
| "edge_code EDGE_UPLOAD_RECIPE = 5"
| "edge_code EDGE_UPLOAD_RECIPE_END = 6"
| "edge_code EDGE_UPLOAD_KEY_RECIPE = 7"
| "edge_code EDGE_UPLOAD_KEY_RECIPE_END = 8"
| "edge_code EDGE_MIGRATION_CHUNK = 9"
| "edge_code EDGE_MIGRATION_CHUNK_FINAL = 10"
| "edge_code EDGE_MIGRATION_NEWFILE = 11"
| "edge_code EDGE_DOWNLOAD_RECIPE_LOGIN = 12"
| "edge_code EDGE_DOWNLOAD_RECIPE_READY = 13"
| "edge_code CLOUD_SEND_RECIPE = 14"
| "edge_code CLOUD_SEND_SECURE_RECIPE = 15"
| "edge_code CLOUD_SEND_KEY_RECIPE = 16"
| "edge_code EDGE_RECEIVE_READY = 17"
| "edge_code CLOUD_SEND_RECIPE_END = 18"
| "edge_code EDGE_DOWNLOAD_CHUNK_LOGIN = 19"
| "edge_code EDGE_DOWNLOAD_CHUNK_READY = 20"
| "edge_code CLOUD_SEND_CHUNK = 21"
| "edge_code CLOUD_SEND_CHUNK_END = 22"

definition edge_of_code :: "u32 \<Rightarrow> EDGE_PROTCOL_CODE_SET option" where
  "edge_of_code w = find (\<lambda>c. edge_code c = w) edge_codes"

text \<open>\<open>CLOUD_QUERY_RETURN\<close>, the third enumerator of the older \<open>PROTCOL_CODE_SET\<close>.\<close>

definition CLOUD_QUERY_RETURN :: u32 where "CLOUD_QUERY_RETURN = 2"

lemma edge_code_inject [simp]: "edge_code c = edge_code d \<longleftrightarrow> c = d"
  by (cases c; cases d) simp_all

lemma edge_of_code_edge_code [simp]: "edge_of_code (edge_code c) = Some c"
  by (cases c) (simp_all add: edge_of_code_def edge_codes_def)

section \<open>Structures\<close>

record NetworkHead_t =
  messageType :: u32
  clientID :: u32
  dataSize :: u32
  currentItemNum :: u32

record FileRecipeHead_t =
  fileSize :: u64
  totalChunkNum :: u64

record RestoreIndexEntry_t =
  re_offset :: u32
  re_length :: u32

text \<open>\<open>body\<close> and \<open>header\<close> are arrays of \<open>MAX_CONTAINER_SIZE\<close> bytes, \<open>containerID\<close> holds
  \<open>CONTAINER_ID_LENGTH\<close> characters.\<close>

record Container_t =
  ct_containerID :: bytes
  ct_body :: buf
  ct_currentSize :: u32

record InmemoryContainer_t =
  ic_containerID :: bytes
  ic_chunkNum :: u32
  ic_body :: buf
  ic_currentBodySize :: u32
  ic_header :: buf
  ic_currentHeaderSize :: u32

record DownloadChunkEntry_t =
  de_chunkHash :: bytes
  de_containerName :: bytes
  de_chunkOffset :: u32
  de_chunkSize :: u32
  de_containerID :: u32

text \<open>The statistics of an upload; the times of \<open>EnclaveInfo_t\<close>, which are only printed, are left out.\<close>

record EnclaveInfo_t =
  ei_uniqueChunkNum :: u64
  ei_uniqueDataSize :: u64
  ei_logicalChunkNum :: u64
  ei_logicalDataSize :: u64
  ei_compressedSize :: u64

text \<open>The sizes of the structures on x86-64.\<close>

definition sizeof_NetworkHead :: nat where [const_simps]: "sizeof_NetworkHead = 16"
definition sizeof_FileRecipeHead :: nat where [const_simps]: "sizeof_FileRecipeHead = 16"
definition sizeof_RecipeEntry :: nat where [const_simps]: "sizeof_RecipeEntry = CHUNK_HASH_SIZE"
definition sizeof_KeyRecipeEntry :: nat where [const_simps]: "sizeof_KeyRecipeEntry = MLE_KEY_SIZE"
definition sizeof_Chunk :: nat where [const_simps]: "sizeof_Chunk = 4 + MAX_CHUNK_SIZE"

text \<open>The object representation of the two structures that are copied as bytes.\<close>

definition nh_enc :: "NetworkHead_t \<Rightarrow> bytes" where
  "nh_enc h = le_enc 4 (messageType h) @ le_enc 4 (clientID h) @ le_enc 4 (dataSize h)
     @ le_enc 4 (currentItemNum h)"

definition nh_dec :: "bytes \<Rightarrow> NetworkHead_t" where
  "nh_dec bs = \<lparr>messageType = le_dec (take 4 bs), clientID = le_dec (take 4 (drop 4 bs)),
     dataSize = le_dec (take 4 (drop 8 bs)), currentItemNum = le_dec (take 4 (drop 12 bs))\<rparr>"

definition frh_enc :: "FileRecipeHead_t \<Rightarrow> bytes" where
  "frh_enc h = le_enc 8 (fileSize h) @ le_enc 8 (totalChunkNum h)"

definition frh_dec :: "bytes \<Rightarrow> FileRecipeHead_t" where
  "frh_dec bs = \<lparr>fileSize = le_dec (take 8 bs), totalChunkNum = le_dec (take 8 (drop 8 bs))\<rparr>"

lemma length_nh_enc [simp, codec_simps]: "length (nh_enc h) = 16"
  by (simp add: nh_enc_def)

lemma length_frh_enc [simp, codec_simps]: "length (frh_enc h) = 16"
  by (simp add: frh_enc_def)

lemma nh_dec_enc [simp, codec_simps]: "nh_dec (nh_enc h) = h"
  by (simp add: nh_dec_def nh_enc_def)

lemma frh_dec_enc [simp, codec_simps]: "frh_dec (frh_enc h) = h"
  by (simp add: frh_dec_def frh_enc_def)

section \<open>Message buffers\<close>

text \<open>
  \<open>header\<close> points to the first 16 bytes of \<open>sendBuffer\<close> and \<open>dataBuffer\<close> to the rest, so a
  received message overwrites both; \<open>sb_size\<close> is the number of bytes \<open>malloc\<close> was asked for.
\<close>

record SendMsgBuffer_t =
  sendBuffer :: buf
  sb_size :: nat

definition header :: "SendMsgBuffer_t \<Rightarrow> NetworkHead_t" where
  "header b = nh_dec (mem_read (sendBuffer b) 0 sizeof_NetworkHead)"

definition set_header :: "NetworkHead_t \<Rightarrow> SendMsgBuffer_t \<Rightarrow> SendMsgBuffer_t" where
  "set_header h b = b\<lparr>sendBuffer := mem_write (sendBuffer b) 0 (nh_enc h)\<rparr>"

definition data_read :: "SendMsgBuffer_t \<Rightarrow> nat \<Rightarrow> nat \<Rightarrow> bytes" where
  "data_read b off n = mem_read (sendBuffer b) (sizeof_NetworkHead + off) n"

definition data_write :: "SendMsgBuffer_t \<Rightarrow> nat \<Rightarrow> bytes \<Rightarrow> SendMsgBuffer_t" where
  "data_write b off bs =
     b\<lparr>sendBuffer := mem_write (sendBuffer b) (sizeof_NetworkHead + off) bs\<rparr>"

definition data_size :: "SendMsgBuffer_t \<Rightarrow> nat" where
  "data_size b = sb_size b - sizeof_NetworkHead"

lemma header_set_header [simp, mem_simps]: "header (set_header h b) = h"
  by (simp add: header_def set_header_def sizeof_NetworkHead_def mem_read_write_same')

lemma header_data_write [simp, mem_simps]: "header (data_write b off bs) = header b"
  by (simp add: header_def data_write_def mem_read_write_disjoint)

lemma data_read_set_header [simp, mem_simps]:
  "data_read (set_header h b) off n = data_read b off n"
  by (simp add: data_read_def set_header_def sizeof_NetworkHead_def mem_read_write_disjoint)

lemma data_read_data_write [simp, mem_simps]:
  "data_read (data_write b off bs) off (length bs) = bs"
  by (simp add: data_read_def data_write_def)

lemma data_read_data_write_disjoint [mem_simps]:
  "off + n \<le> off' \<or> off' + length bs \<le> off \<Longrightarrow>
   data_read (data_write b off' bs) off n = data_read b off n"
  by (rule nth_equalityI) (auto simp: data_read_def data_write_def mem_read_def mem_write_def)

lemma header_bytes: "mem_read (sendBuffer (set_header h b)) 0 sizeof_NetworkHead = nh_enc h"
  by (simp add: set_header_def sizeof_NetworkHead_def mem_read_write_same')

lemma sb_size_set_header [simp]: "sb_size (set_header h b) = sb_size b"
  by (simp add: set_header_def)

lemma sb_size_data_write [simp]: "sb_size (data_write b off bs) = sb_size b"
  by (simp add: data_write_def)

end
