(* ===== verification/Tool_Lib.thy ===== *)
theory Tool_Lib
  imports Chunk_Structure
begin

text \<open>
  The helper functions of \<open>include/define.h\<close> (namespace \<open>tool\<close>). \<open>rand()\<close> is a source of
  numbers that each call advances; the functions that read clocks take the values read.
\<close>

section \<open>Arithmetic helpers\<close>

definition CompareLimit :: "u32 \<Rightarrow> u32 \<Rightarrow> u32 \<Rightarrow> u32" where
  "CompareLimit input lower upper =
     (if input \<le> lower then lower else if input \<ge> upper then upper else input)"

definition DivCeil :: "u32 \<Rightarrow> u32 \<Rightarrow> u32 result" where
  "DivCeil a b =
     (if b = 0 then Inl Undefined
      else let tmp = a div b in if a mod b = 0 then Inr tmp else Inr (tmp + 1))"

definition SEC_2_US :: u64 where "SEC_2_US = 1000000"

text \<open>The 96-bit mix of Robert Jenkins, as \<open>GetStrongSeed\<close> applies it to the CPU clock, the time
  of day in microseconds and the process id.\<close>

definition mix_round :: "nat \<Rightarrow> nat \<Rightarrow> nat \<Rightarrow> u64 \<times> u64 \<times> u64 \<Rightarrow> u64 \<times> u64 \<times> u64" where
  "mix_round s1 s2 s3 abc =
     (let (a, b, c) = abc;
          a = ((a - b) - c) XOR drop_bit s1 c;
          b = ((b - c) - a) XOR push_bit s2 a;
          c = ((c - a) - b) XOR drop_bit s3 b
      in (a, b, c))"

definition GetStrongSeed :: "u64 \<Rightarrow> u64 \<Rightarrow> u64 \<Rightarrow> u64 \<Rightarrow> u64" where
  "GetStrongSeed clk sec usec pid =
     (let (a, b, c) = mix_round 3 10 15 (mix_round 12 16 5
            (mix_round 13 8 13 (clk, sec * SEC_2_US + usec, pid))) in c)"

lemma CompareLimit_clamp:
  "lower \<le> upper \<Longrightarrow> CompareLimit input lower upper = max lower (min upper input)"
  by (auto simp: CompareLimit_def max_def min_def)

text \<open>Each round can be undone, so the mix loses nothing of its three inputs.\<close>

definition unmix_round :: "nat \<Rightarrow> nat \<Rightarrow> nat \<Rightarrow> u64 \<times> u64 \<times> u64 \<Rightarrow> u64 \<times> u64 \<times> u64" where
  "unmix_round s1 s2 s3 abc =
     (let (a, b, c) = abc;
          c = ((c XOR drop_bit s3 b) + b) + a;
          b = ((b XOR push_bit s2 a) + a) + c;
          a = ((a XOR drop_bit s1 c) + c) + b
      in (a, b, c))"

lemma unmix_mix_round [simp]: "unmix_round s1 s2 s3 (mix_round s1 s2 s3 abc) = abc"
  by (cases abc) (simp add: unmix_round_def mix_round_def Let_def xor.assoc)

lemma mix_round_inj: "inj (mix_round s1 s2 s3)"
  by (rule inj_on_inverseI [where g = "unmix_round s1 s2 s3"]) simp

lemma DivCeil_correct:
  assumes "b \<noteq> 0"
  shows "\<exists>q. DivCeil a b = Inr q \<and> unat q = (unat a + unat b - 1) div unat b"
proof -
  have b: "0 < unat b"
    using assms by (simp add: unat_gt_0)
  show ?thesis
  proof (cases "a mod b = 0")
    case True
    then have m: "unat a mod unat b = 0"
      by (metis unat_0 unat_mod)
    then obtain k where k: "unat a = unat b * k"
      by (auto simp: dvd_def mod_eq_0_iff_dvd)
    have "(unat a + unat b - 1) div unat b = k"
      using b k by (intro div_nat_eqI) auto
    then have "(unat a + unat b - 1) div unat b = unat a div unat b"
      using b k by simp
    then show ?thesis
      using True assms by (simp add: DivCeil_def Let_def unat_div)
  next
    case False
    then have m: "unat a mod unat b \<noteq> 0"
      by (metis unat_eq_zero unat_mod)
    define q where "q = unat a div unat b"
    define r where "r = unat a mod unat b"
    have a: "unat a = unat b * q + r" and r: "0 < r" "r < unat b"
      using b m by (simp_all add: q_def r_def)
    have ceil: "(unat a + unat b - 1) div unat b = q + 1"
      using a r b by (intro div_nat_eqI) auto
    have "2 \<le> unat b"
      using r by linarith
    then have "q \<le> unat a div 2"
      unfolding q_def by (intro div_le_mono2) auto
    then have "q + 1 < 2 ^ 32"
      using unsigned_less [of a, where ?'a = nat] by simp
    then have "unat (a div b + 1) = q + 1"
      by (simp add: unat_word_ariths unat_div q_def)
    then show ?thesis
      using False assms ceil by (simp add: DivCeil_def Let_def)
  qed
qed

section \<open>Printing\<close>

definition hex_digit :: "u8 \<Rightarrow> char" where
  "hex_digit d = (''0123456789abcdef'' ! unat d)"

definition PrintBinaryArray :: "bytes \<Rightarrow> string" where
  "PrintBinaryArray bs =
     concat (map (\<lambda>b. [hex_digit (drop_bit 4 b), hex_digit (b AND 15)]) bs) @ [CHR 0x0A]"

section \<open>Random names\<close>

type_synonym rng = "nat \<Rightarrow> nat"

definition rand :: "rng \<Rightarrow> nat \<times> rng" where
  "rand r = (r 0, \<lambda>n. r (Suc n))"

definition ALPHABET :: bytes where
  "ALPHABET = str ''abcdefghijklmnopqrstuvwxyz0123456789''"

fun CreateUUID :: "nat \<Rightarrow> rng \<Rightarrow> bytes \<times> rng" where
  "CreateUUID 0 r = ([], r)"
| "CreateUUID (Suc idLen) r =
     (let (v, r') = rand r;
          (rest, r'') = CreateUUID idLen r'
      in (ALPHABET ! (v mod length ALPHABET) # rest, r''))"

lemma length_ALPHABET [simp]: "length ALPHABET = 36"
  by (simp add: ALPHABET_def str_def)

lemma CreateUUID_eq:
  "CreateUUID n r = (map (\<lambda>i. ALPHABET ! (r i mod 36)) [0..<n], \<lambda>i. r (i + n))"
proof (induction n arbitrary: r)
  case (Suc n)
  have "map (\<lambda>i. ALPHABET ! (r i mod 36)) [0..<Suc n]
      = ALPHABET ! (r 0 mod 36) # map (\<lambda>i. ALPHABET ! (r (Suc i) mod 36)) [0..<n]"
    by (simp add: upt_conv_Cons map_Suc_upt [symmetric] del: upt_Suc)
  then show ?case
    by (simp add: Suc rand_def)
qed simp

lemma length_CreateUUID [simp]: "length (fst (CreateUUID n r)) = n"
  by (simp add: CreateUUID_eq)

lemma CreateUUID_alphabet: "set (fst (CreateUUID n r)) \<subseteq> set ALPHABET"
  by (auto simp: CreateUUID_eq intro!: nth_mem)

lemma ALPHABET_no_nul_slash: "0 \<notin> set ALPHABET" "str ''/'' ! 0 \<notin> set ALPHABET"
  by (simp_all add: ALPHABET_def str_def)

lemma c_path_CreateUUID [simp]: "c_path (fst (CreateUUID n r)) = fst (CreateUUID n r)"
  using CreateUUID_alphabet [of n r] ALPHABET_no_nul_slash(1)
  by (auto simp: c_path_def takeWhile_eq_all_conv)

end
