(* ===== verification/Config.thy ===== *)
theory Config
  imports Chunk_Structure
begin

text \<open>
  The class \<open>Configure\<close> (\<open>include/configure.h\<close>, \<open>src/Util/configure.cc\<close>). The JSON reader of
  Boost is a parameter: \<open>ptree\<close> holds the four typed lookups \<open>root.get<T>(path)\<close>, \<open>None\<close> where
  Boost throws because the key is missing or has another type.
\<close>

record ptree =
  get_u64 :: "string \<Rightarrow> u64 option"
  get_u32 :: "string \<Rightarrow> u32 option"
  get_int :: "string \<Rightarrow> u32 option"
  get_str :: "string \<Rightarrow> bytes option"

record Configure =
  cf_chunkingType :: u64
  cf_maxChunkSize :: u64
  cf_avgChunkSize :: u64
  cf_minChunkSize :: u64
  cf_slidingWinSize :: u64
  cf_readSize :: u64
  cf_recipeRootPath :: bytes
  cf_recipeSuffix :: bytes
  cf_secureRecipeSuffix :: bytes
  cf_keyRecipeSuffix :: bytes
  cf_containerRootPath :: bytes
  cf_containerSuffix :: bytes
  cf_fp2ChunkDBName :: bytes
  cf_readCacheSize :: u64
  cf_storageServerIp :: bytes
  cf_storageServerPort :: u32
  cf_clientID :: u32
  cf_sendChunkBatchSize :: u64
  cf_sendRecipeBatchSize :: u64
  cf_localSecret :: bytes
  cf_keyServerIp :: bytes
  cf_keyServerPort :: u32

definition throwing :: "'a option \<Rightarrow> 'a result" where
  "throwing v = (case v of None \<Rightarrow> Inl Uncaught | Some x \<Rightarrow> Inr x)"

lemma throwing_eq_Inr [result_simps]: "throwing v = Inr x \<longleftrightarrow> v = Some x"
  by (simp add: throwing_def split: option.splits)

definition ReadConf :: "ptree \<Rightarrow> Configure result" where
  "ReadConf root =
     bindR (throwing (get_u64 root ''ChunkerConfig.chunkingType_'')) (\<lambda>chunkingType.
     bindR (throwing (get_u64 root ''ChunkerConfig.maxChunkSize_'')) (\<lambda>maxChunkSize.
     bindR (throwing (get_u64 root ''ChunkerConfig.minChunkSize_'')) (\<lambda>minChunkSize.
     bindR (throwing (get_u64 root ''ChunkerConfig.avgChunkSize_'')) (\<lambda>avgChunkSize.
     bindR (throwing (get_u64 root ''ChunkerConfig.slidingWinSize_'')) (\<lambda>slidingWinSize.
     bindR (throwing (get_u64 root ''ChunkerConfig.readSize_'')) (\<lambda>readSize.
     bindR (throwing (get_str root ''StorageCore.recipeRootPath_'')) (\<lambda>recipeRootPath.
     bindR (throwing (get_str root ''StorageCore.containerRootPath_'')) (\<lambda>containerRootPath.
     bindR (throwing (get_str root ''StorageCore.fp2ChunkDBName_'')) (\<lambda>fp2ChunkDBName.
     bindR (throwing (get_u64 root ''RestoreWriter.readCacheSize_'')) (\<lambda>readCacheSize.
     bindR (throwing (get_str root ''DataSender.storageServerIp_'')) (\<lambda>storageServerIp.
     bindR (throwing (get_int root ''DataSender.storageServerPort_'')) (\<lambda>storageServerPort.
     bindR (throwing (get_u32 root ''DataSender.clientID_'')) (\<lambda>clID.
     bindR (throwing (get_u64 root ''DataSender.sendChunkBatchSize_'')) (\<lambda>sendChunkBatchSize.
     bindR (throwing (get_u64 root ''DataSender.sendRecipeBatchSize_'')) (\<lambda>sendRecipeBatchSize.
     bindR (throwing (get_str root ''DataSender.localSecret_'')) (\<lambda>localSecret.
     bindR (throwing (get_str root ''KeyServer.keyServerIp_'')) (\<lambda>keyServerIp.
     bindR (throwing (get_int root ''KeyServer.keyServerPort_'')) (\<lambda>keyServerPort.
     bindR (guardR (sendChunkBatchSize \<noteq> 0) Undefined) (\<lambda>_.
     bindR (guardR (sendRecipeBatchSize mod sendChunkBatchSize = 0) ExitFailure) (\<lambda>_.
       Inr \<lparr>cf_chunkingType = chunkingType, cf_maxChunkSize = maxChunkSize,
            cf_avgChunkSize = avgChunkSize, cf_minChunkSize = minChunkSize,
            cf_slidingWinSize = slidingWinSize, cf_readSize = readSize,
            cf_recipeRootPath = recipeRootPath, cf_recipeSuffix = str ''-recipe'',
            cf_secureRecipeSuffix = str ''-secureRecipe'', cf_keyRecipeSuffix = str ''-keyRecipe'',
            cf_containerRootPath = containerRootPath, cf_containerSuffix = str ''-container'',
            cf_fp2ChunkDBName = fp2ChunkDBName, cf_readCacheSize = readCacheSize,
            cf_storageServerIp = storageServerIp, cf_storageServerPort = storageServerPort,
            cf_clientID = clID, cf_sendChunkBatchSize = sendChunkBatchSize,
            cf_sendRecipeBatchSize = sendRecipeBatchSize, cf_localSecret = localSecret,
            cf_keyServerIp = keyServerIp, cf_keyServerPort = keyServerPort\<rparr>))))))))))))))))))))"

section \<open>Accessors\<close>

definition GetChunkingType :: "Configure \<Rightarrow> u64" where "GetChunkingType c = cf_chunkingType c"
definition GetMaxChunkSize :: "Configure \<Rightarrow> u64" where "GetMaxChunkSize c = cf_maxChunkSize c"
definition GetMinChunkSize :: "Configure \<Rightarrow> u64" where "GetMinChunkSize c = cf_minChunkSize c"
definition GetAvgChunkSize :: "Configure \<Rightarrow> u64" where "GetAvgChunkSize c = cf_avgChunkSize c"
definition GetSlidingWinSize :: "Configure \<Rightarrow> u64" where
  "GetSlidingWinSize c = cf_slidingWinSize c"
definition GetReadSize :: "Configure \<Rightarrow> u64" where "GetReadSize c = cf_readSize c"
definition GetRecipeRootPath :: "Configure \<Rightarrow> bytes" where
  "GetRecipeRootPath c = cf_recipeRootPath c"
definition GetRecipeSuffix :: "Configure \<Rightarrow> bytes" where "GetRecipeSuffix c = cf_recipeSuffix c"
definition GetContainerRootPath :: "Configure \<Rightarrow> bytes" where
  "GetContainerRootPath c = cf_containerRootPath c"
definition GetContainerSuffix :: "Configure \<Rightarrow> bytes" where
  "GetContainerSuffix c = cf_containerSuffix c"
definition GetLocalSecret :: "Configure \<Rightarrow> bytes" where "GetLocalSecret c = cf_localSecret c"
definition GetFp2ChunkDBName :: "Configure \<Rightarrow> bytes" where
  "GetFp2ChunkDBName c = cf_fp2ChunkDBName c"
definition GetReadCacheSize :: "Configure \<Rightarrow> u64" where "GetReadCacheSize c = cf_readCacheSize c"
definition GetStorageServerIP :: "Configure \<Rightarrow> bytes" where
  "GetStorageServerIP c = cf_storageServerIp c"
definition GetStoragePort :: "Configure \<Rightarrow> u32" where "GetStoragePort c = cf_storageServerPort c"
definition GetClientID :: "Configure \<Rightarrow> u32" where "GetClientID c = cf_clientID c"

text \<open>The two batch sizes do not come from the file: the accessors return constants.\<close>

definition GetSendChunkBatchSize :: "Configure \<Rightarrow> u64" where "GetSendChunkBatchSize c = 256"

definition GetSendRecipeBatchSize :: "Configure \<Rightarrow> u64" where
  "GetSendRecipeBatchSize c = (if cf_chunkingType c = 1 then 512 else 1024)"

definition GetKeyServerIP :: "Configure \<Rightarrow> bytes" where "GetKeyServerIP c = cf_keyServerIp c"
definition GetKeyServerPort :: "Configure \<Rightarrow> u32" where "GetKeyServerPort c = cf_keyServerPort c"
definition GetSecureRecipeSuffix :: "Configure \<Rightarrow> bytes" where
  "GetSecureRecipeSuffix c = cf_secureRecipeSuffix c"
definition GetKeyRecipeSuffix :: "Configure \<Rightarrow> bytes" where
  "GetKeyRecipeSuffix c = cf_keyRecipeSuffix c"

lemmas get_defs =
  GetRecipeRootPath_def GetRecipeSuffix_def GetContainerRootPath_def GetContainerSuffix_def
  GetReadCacheSize_def GetSecureRecipeSuffix_def GetKeyRecipeSuffix_def

text \<open>The batch sizes in use always satisfy the check that \<open>ReadConf\<close> makes on the file's
  values, whatever those are.\<close>

lemma batch_sizes_multiple:
  "GetSendRecipeBatchSize c mod GetSendChunkBatchSize c = 0 \<and> GetSendChunkBatchSize c \<noteq> 0"
  by (simp add: GetSendRecipeBatchSize_def GetSendChunkBatchSize_def)

lemma ReadConf_suffixes:
  "ReadConf root = Inr c \<Longrightarrow>
   cf_recipeSuffix c = str ''-recipe'' \<and> cf_secureRecipeSuffix c = str ''-secureRecipe'' \<and>
   cf_keyRecipeSuffix c = str ''-keyRecipe'' \<and> cf_containerSuffix c = str ''-container''"
  by (auto simp: ReadConf_def bindR_eq_Inr)

lemma ReadConf_checked:
  "ReadConf root = Inr c \<Longrightarrow>
   cf_sendChunkBatchSize c \<noteq> 0 \<and> cf_sendRecipeBatchSize c mod cf_sendChunkBatchSize c = 0"
  by (auto simp: ReadConf_def bindR_eq_Inr del: mod_0_imp_dvd)

end
