(* ===== verification/Lru_Cache.thy ===== *)
theory Lru_Cache
  imports Chunk_Structure
begin

text \<open>
  The template \<open>lru11::Cache\<close> (\<open>include/lruCache.h\<close>): a linked list of key/value nodes, most
  recently used first, and a hash map from keys to list iterators. A \<open>std::list\<close> iterator stays
  valid while other nodes move, so a node carries an identity and the hash map stores
  identities. The abstract cache is the list of key/value pairs; \<open>lru_abs\<close> maps to it and
  every operation refines the corresponding list operation. Sizes are natural numbers: the server's one cache
  has elasticity 0, so that the sum of the two cannot wrap.
\<close>

section \<open>Model\<close>

record ('k, 'v) lru =
  lru_cache :: "('k \<times> nat) list"
  lru_keys :: "(nat \<times> 'k \<times> 'v) list"
  lru_next :: nat
  lru_maxSize :: nat
  lru_elasticity :: nat

definition lru_new :: "nat \<Rightarrow> nat \<Rightarrow> ('k, 'v) lru" where
  "lru_new maxSize elasticity =
     \<lparr>lru_cache = [], lru_keys = [], lru_next = 0, lru_maxSize = maxSize,
      lru_elasticity = elasticity\<rparr>"

definition lru_size :: "('k, 'v) lru \<Rightarrow> nat" where
  "lru_size c = length (lru_cache c)"

definition lru_empty :: "('k, 'v) lru \<Rightarrow> bool" where
  "lru_empty c \<longleftrightarrow> lru_cache c = []"

definition lru_clear :: "('k, 'v) lru \<Rightarrow> ('k, 'v) lru" where
  "lru_clear c = c\<lparr>lru_cache := [], lru_keys := []\<rparr>"

text \<open>\<open>keys_.splice(keys_.begin(), keys_, it)\<close> and the assignment through an iterator.\<close>

definition node_front :: "nat \<Rightarrow> (nat \<times> 'k \<times> 'v) list \<Rightarrow> (nat \<times> 'k \<times> 'v) list" where
  "node_front it ns = filter (\<lambda>n. fst n = it) ns @ filter (\<lambda>n. fst n \<noteq> it) ns"

definition node_set :: "nat \<Rightarrow> 'v \<Rightarrow> (nat \<times> 'k \<times> 'v) list \<Rightarrow> (nat \<times> 'k \<times> 'v) list" where
  "node_set it v ns = map (\<lambda>(i, k, w). if i = it then (i, k, v) else (i, k, w)) ns"

definition node_value :: "nat \<Rightarrow> (nat \<times> 'k \<times> 'v) list \<Rightarrow> 'v option" where
  "node_value it ns = map_option (\<lambda>(k, v). v) (map_of ns it)"

text \<open>The loop of \<open>prune\<close>; \<open>keys_.back()\<close> on an empty list is undefined.\<close>

function prune_loop :: "('k, 'v) lru \<Rightarrow> nat \<Rightarrow> (nat \<times> ('k, 'v) lru) result" where
  "prune_loop c n =
     (if lru_size c > lru_maxSize c
      then (if lru_keys c = [] then Inl Undefined
            else prune_loop
              (c\<lparr>lru_cache := AList.delete (fst (snd (last (lru_keys c)))) (lru_cache c),
                 lru_keys := butlast (lru_keys c)\<rparr>) (n + 1))
      else Inr (n, c))"
  by pat_completeness auto
termination
  by (relation "measure (\<lambda>(c, _). length (lru_keys c))") auto

declare prune_loop.simps [simp del]

definition lru_prune :: "('k, 'v) lru \<Rightarrow> (nat \<times> ('k, 'v) lru) result" where
  "lru_prune c =
     (let maxAllowed = lru_maxSize c + lru_elasticity c in
      if lru_maxSize c = 0 \<or> lru_size c < maxAllowed then Inr (0, c) else prune_loop c 0)"

definition lru_insert :: "'k \<Rightarrow> 'v \<Rightarrow> ('k, 'v) lru \<Rightarrow> ('k, 'v) lru result" where
  "lru_insert k v c =
     (case map_of (lru_cache c) k of
        Some it \<Rightarrow> Inr (c\<lparr>lru_keys := node_front it (node_set it v (lru_keys c))\<rparr>)
      | None \<Rightarrow>
          bindR (lru_prune (c\<lparr>lru_keys := (lru_next c, k, v) # lru_keys c,
                              lru_cache := AList.update k (lru_next c) (lru_cache c),
                              lru_next := Suc (lru_next c)\<rparr>))
            (\<lambda>(_, c'). Inr c'))"

definition lru_tryGet :: "'k \<Rightarrow> ('k, 'v) lru \<Rightarrow> 'v option \<times> ('k, 'v) lru" where
  "lru_tryGet k c =
     (case map_of (lru_cache c) k of
        None \<Rightarrow> (None, c)
      | Some it \<Rightarrow> (node_value it (lru_keys c), c\<lparr>lru_keys := node_front it (lru_keys c)\<rparr>))"

text \<open>\<open>get\<close> throws \<open>KeyNotFound\<close>; an iterator without its node would be undefined.\<close>

definition lru_get :: "'k \<Rightarrow> ('k, 'v) lru \<Rightarrow> ('v \<times> ('k, 'v) lru) result" where
  "lru_get k c =
     (case map_of (lru_cache c) k of
        None \<Rightarrow> Inl Uncaught
      | Some it \<Rightarrow>
          (case node_value it (lru_keys c) of
             None \<Rightarrow> Inl Undefined
           | Some v \<Rightarrow> Inr (v, c\<lparr>lru_keys := node_front it (lru_keys c)\<rparr>)))"

definition lru_remove :: "'k \<Rightarrow> ('k, 'v) lru \<Rightarrow> bool \<times> ('k, 'v) lru" where
  "lru_remove k c =
     (case map_of (lru_cache c) k of
        None \<Rightarrow> (False, c)
      | Some it \<Rightarrow> (True, c\<lparr>lru_keys := filter (\<lambda>n. fst n \<noteq> it) (lru_keys c),
                             lru_cache := AList.delete k (lru_cache c)\<rparr>))"

definition lru_contains :: "'k \<Rightarrow> ('k, 'v) lru \<Rightarrow> bool" where
  "lru_contains k c \<longleftrightarrow> map_of (lru_cache c) k \<noteq> None"

definition lru_pruneValue :: "('k, 'v) lru \<Rightarrow> 'v result" where
  "lru_pruneValue c =
     (if lru_keys c = [] then Inl Undefined
      else case map_of (lru_cache c) (fst (snd (last (lru_keys c)))) of
             None \<Rightarrow> Inl Uncaught
           | Some it \<Rightarrow> (case node_value it (lru_keys c) of
                           None \<Rightarrow> Inl Undefined | Some v \<Rightarrow> Inr v))"

definition lru_getMaxAllowedSize :: "('k, 'v) lru \<Rightarrow> nat" where
  "lru_getMaxAllowedSize c = lru_maxSize c + lru_elasticity c"

definition lru_cwalk :: "('s \<Rightarrow> 'k \<times> 'v \<Rightarrow> 's) \<Rightarrow> 's \<Rightarrow> ('k, 'v) lru \<Rightarrow> 's" where
  "lru_cwalk f s c = foldl (\<lambda>s n. f s (snd n)) s (lru_keys c)"

section \<open>Invariant and abstraction\<close>

definition lru_inv :: "('k, 'v) lru \<Rightarrow> bool" where
  "lru_inv c \<longleftrightarrow>
     distinct (map fst (lru_cache c)) \<and>
     distinct (map fst (lru_keys c)) \<and>
     distinct (map (fst \<circ> snd) (lru_keys c)) \<and>
     (\<forall>n \<in> set (lru_keys c). fst n < lru_next c) \<and>
     set (lru_cache c) = (\<lambda>(i, k, v). (k, i)) ` set (lru_keys c)"

definition lru_abs :: "('k, 'v) lru \<Rightarrow> ('k \<times> 'v) list" where
  "lru_abs c = map snd (lru_keys c)"

text \<open>The abstract operations, on key/value lists in recency order.\<close>

definition a_remove :: "'k \<Rightarrow> ('k \<times> 'v) list \<Rightarrow> ('k \<times> 'v) list" where
  "a_remove k xs = filter (\<lambda>p. fst p \<noteq> k) xs"

definition a_insert :: "nat \<Rightarrow> nat \<Rightarrow> 'k \<Rightarrow> 'v \<Rightarrow> ('k \<times> 'v) list \<Rightarrow> ('k \<times> 'v) list" where
  "a_insert m e k v xs =
     (if k \<in> fst ` set xs then (k, v) # a_remove k xs
      else let ys = (k, v) # xs in
        if m = 0 \<or> length ys < m + e then ys else take m ys)"

definition a_touch :: "'k \<Rightarrow> ('k \<times> 'v) list \<Rightarrow> ('k \<times> 'v) list" where
  "a_touch k xs =
     (case map_of xs k of None \<Rightarrow> xs | Some v \<Rightarrow> (k, v) # a_remove k xs)"

lemma filter_eq_single: "distinct xs \<Longrightarrow> x \<in> set xs \<Longrightarrow> filter (\<lambda>n. n = x) xs = [x]"
  by (induction xs) (auto simp: filter_empty_conv)

lemma lru_inv_new: "lru_inv (lru_new m e)"
  by (simp add: lru_inv_def lru_new_def)

lemma lru_abs_new: "lru_abs (lru_new m e) = []"
  by (simp add: lru_abs_def lru_new_def)

lemma lru_abs_distinct: "lru_inv c \<Longrightarrow> distinct (map fst (lru_abs c))"
  by (simp add: lru_inv_def lru_abs_def)

lemma lru_cache_iff:
  assumes "lru_inv c"
  shows "map_of (lru_cache c) k = Some it \<longleftrightarrow> (\<exists>v. (it, k, v) \<in> set (lru_keys c))"
proof -
  have "map_of (lru_cache c) k = Some it \<longleftrightarrow> (k, it) \<in> set (lru_cache c)"
    using assms by (simp add: lru_inv_def)
  moreover have "set (lru_cache c) = (\<lambda>(i, k, v). (k, i)) ` set (lru_keys c)"
    using assms by (simp add: lru_inv_def)
  ultimately show ?thesis
    by force
qed

lemma lru_size_abs: "lru_inv c \<Longrightarrow> lru_size c = length (lru_abs c)"
proof -
  assume inv: "lru_inv c"
  have "distinct (lru_cache c)"
    using inv by (simp add: lru_inv_def distinct_map)
  then have "length (lru_cache c) = card (set (lru_cache c))"
    by (simp add: distinct_card)
  also have "\<dots> = card (set (lru_keys c))"
  proof -
    have "inj_on fst (set (lru_keys c))"
      using inv by (simp add: lru_inv_def distinct_map)
    then have "inj_on (\<lambda>(i, k, v). (k, i)) (set (lru_keys c))"
      unfolding inj_on_def by fastforce
    then show ?thesis
      using inv by (simp add: lru_inv_def card_image)
  qed
  also have "\<dots> = length (lru_keys c)"
    using inv by (simp add: lru_inv_def distinct_map distinct_card)
  finally show ?thesis
    by (simp add: lru_size_def lru_abs_def)
qed

lemma map_of_lru_abs:
  assumes "lru_inv c"
  shows "map_of (lru_abs c) k = Some v \<longleftrightarrow> (\<exists>it. (it, k, v) \<in> set (lru_keys c))"
proof -
  have "map_of (lru_abs c) k = Some v \<longleftrightarrow> (k, v) \<in> set (lru_abs c)"
    using lru_abs_distinct [OF assms] by simp
  then show ?thesis
    by (force simp: lru_abs_def)
qed

lemma lru_contains_abs: "lru_inv c \<Longrightarrow> lru_contains k c \<longleftrightarrow> k \<in> fst ` set (lru_abs c)"
  unfolding lru_contains_def not_None_eq
  by (force simp: lru_cache_iff lru_abs_def image_iff)

text \<open>The node of a cached key: its value, and the other nodes are those of the other keys.\<close>

lemma lru_node:
  assumes "lru_inv c" and "(it, k, v) \<in> set (lru_keys c)"
  shows "map_of (lru_keys c) it = Some (k, v)"
    and "filter (\<lambda>n. fst n = it) (lru_keys c) = [(it, k, v)]"
    and "filter (\<lambda>n. fst n \<noteq> it) (lru_keys c) = filter (\<lambda>n. fst (snd n) \<noteq> k) (lru_keys c)"
proof -
  have di: "distinct (map fst (lru_keys c))" and dk: "distinct (map (fst \<circ> snd) (lru_keys c))"
    using assms(1) by (simp_all add: lru_inv_def)
  show "map_of (lru_keys c) it = Some (k, v)"
    using di assms(2) by simp
  have same: "\<And>n. n \<in> set (lru_keys c) \<Longrightarrow> fst n = it \<longleftrightarrow> n = (it, k, v)"
    using di assms(2) unfolding distinct_map inj_on_def by fastforce
  have same': "\<And>n. n \<in> set (lru_keys c) \<Longrightarrow> fst (snd n) = k \<longleftrightarrow> n = (it, k, v)"
    using dk assms(2) unfolding distinct_map inj_on_def by fastforce
  have "distinct (lru_keys c)"
    using di by (simp add: distinct_map)
  then have "filter (\<lambda>n. n = (it, k, v)) (lru_keys c) = [(it, k, v)]"
    using assms(2) by (rule filter_eq_single)
  moreover have "filter (\<lambda>n. fst n = it) (lru_keys c) = filter (\<lambda>n. n = (it, k, v)) (lru_keys c)"
    by (rule filter_cong) (simp_all add: same)
  ultimately show "filter (\<lambda>n. fst n = it) (lru_keys c) = [(it, k, v)]"
    by simp
  show "filter (\<lambda>n. fst n \<noteq> it) (lru_keys c) = filter (\<lambda>n. fst (snd n) \<noteq> k) (lru_keys c)"
    using same same' by (intro filter_cong) auto
qed

section \<open>Refinement of the operations\<close>

lemma lru_front_inv:
  assumes inv: "lru_inv c" and mem: "(it, k, v) \<in> set (lru_keys c)"
  shows "lru_inv (c\<lparr>lru_keys := node_front it (lru_keys c)\<rparr>)"
    and "map snd (node_front it (lru_keys c)) = (k, v) # a_remove k (lru_abs c)"
proof -
  note node = lru_node [OF inv mem]
  have eq: "node_front it (lru_keys c) = (it, k, v) # filter (\<lambda>n. fst n \<noteq> it) (lru_keys c)"
    by (simp add: node_front_def node(2))
  have "set (node_front it (lru_keys c)) = set (lru_keys c)"
    by (auto simp: node_front_def)
  moreover have "distinct (map fst (node_front it (lru_keys c)))"
    using inv unfolding eq by (auto simp: lru_inv_def distinct_map_filter)
  moreover have "distinct (map (fst \<circ> snd) (node_front it (lru_keys c)))"
    using inv unfolding eq node(3) by (auto simp: lru_inv_def distinct_map_filter)
  ultimately show "lru_inv (c\<lparr>lru_keys := node_front it (lru_keys c)\<rparr>)"
    using inv by (simp add: lru_inv_def)
  show "map snd (node_front it (lru_keys c)) = (k, v) # a_remove k (lru_abs c)"
    unfolding eq node(3) by (simp add: a_remove_def lru_abs_def filter_map o_def)
qed

lemma lru_get_hit:
  assumes inv: "lru_inv c" and hit: "map_of (lru_abs c) k = Some v"
  shows "\<exists>c'. lru_get k c = Inr (v, c') \<and> lru_inv c' \<and> lru_abs c' = a_touch k (lru_abs c)
     \<and> lru_maxSize c' = lru_maxSize c \<and> lru_elasticity c' = lru_elasticity c"
proof -
  obtain it where it: "(it, k, v) \<in> set (lru_keys c)"
    using inv hit by (auto simp: map_of_lru_abs)
  then have "map_of (lru_cache c) k = Some it"
    using inv by (auto simp: lru_cache_iff)
  moreover have "node_value it (lru_keys c) = Some v"
    using lru_node(1) [OF inv it] by (simp add: node_value_def)
  ultimately have "lru_get k c = Inr (v, c\<lparr>lru_keys := node_front it (lru_keys c)\<rparr>)"
    by (simp add: lru_get_def)
  then show ?thesis
    using lru_front_inv [OF inv it] hit by (simp add: lru_abs_def a_touch_def)
qed

lemma lru_get_miss: "lru_inv c \<Longrightarrow> \<not> lru_contains k c \<Longrightarrow> lru_get k c = Inl Uncaught"
  by (simp add: lru_contains_def lru_get_def)

lemma lru_tryGet_abs:
  assumes inv: "lru_inv c"
  shows "\<exists>c'. lru_tryGet k c = (map_of (lru_abs c) k, c') \<and> lru_inv c' \<and>
     lru_abs c' = a_touch k (lru_abs c)"
proof (cases "map_of (lru_cache c) k")
  case None
  then have "map_of (lru_abs c) k = None"
    using lru_contains_abs [OF inv, of k] by (simp add: lru_contains_def map_of_eq_None_iff)
  then show ?thesis
    using None inv by (simp add: lru_tryGet_def a_touch_def)
next
  case (Some it)
  then obtain v where it: "(it, k, v) \<in> set (lru_keys c)"
    using inv by (auto simp: lru_cache_iff)
  then have hit: "map_of (lru_abs c) k = Some v"
    using inv by (auto simp: map_of_lru_abs)
  have "node_value it (lru_keys c) = Some v"
    using lru_node(1) [OF inv it] by (simp add: node_value_def)
  then show ?thesis
    using lru_front_inv [OF inv it] Some hit by (simp add: lru_tryGet_def lru_abs_def a_touch_def)
qed

lemma lru_pruneValue_abs:
  assumes inv: "lru_inv c" and ne: "lru_abs c \<noteq> []"
  shows "lru_pruneValue c = Inr (snd (last (lru_abs c)))"
proof -
  have keys: "lru_keys c \<noteq> []"
    using ne by (simp add: lru_abs_def)
  obtain it k v where l: "last (lru_keys c) = (it, k, v)"
    by (cases "last (lru_keys c)")
  then have it: "(it, k, v) \<in> set (lru_keys c)"
    using keys by (metis last_in_set)
  then have "map_of (lru_cache c) k = Some it" "node_value it (lru_keys c) = Some v"
    using inv lru_node(1) [OF inv it] by (auto simp: lru_cache_iff node_value_def)
  then show ?thesis
    using keys l by (simp add: lru_pruneValue_def lru_abs_def last_map)
qed

lemma lru_drop_last:
  assumes inv: "lru_inv c" and keys: "lru_keys c \<noteq> []"
  defines "c' \<equiv> c\<lparr>lru_cache := AList.delete (fst (snd (last (lru_keys c)))) (lru_cache c),
      lru_keys := butlast (lru_keys c)\<rparr>"
  shows "lru_inv c'" and "lru_abs c' = butlast (lru_abs c)"
proof -
  obtain it k v ns where l: "lru_keys c = ns @ [(it, k, v)]"
    using keys by (metis prod_cases3 rev_exhaust)
  have cache: "set (lru_cache c) = (\<lambda>(i, k, v). (k, i)) ` set (lru_keys c)"
    using inv by (simp add: lru_inv_def)
  have "k \<notin> (fst \<circ> snd) ` set ns"
    using inv by (force simp: lru_inv_def l)
  then have "set (AList.delete k (lru_cache c)) = (\<lambda>(i, k, v). (k, i)) ` set ns"
    unfolding AList.delete_eq set_filter cache l by force
  then show "lru_inv c'"
    using inv by (auto simp: c'_def lru_inv_def l AList.distinct_delete)
  show "lru_abs c' = butlast (lru_abs c)"
    by (simp add: c'_def lru_abs_def map_butlast)
qed

lemma prune_loop_abs:
  assumes "lru_inv c"
  shows "\<exists>n' c'. prune_loop c n = Inr (n', c') \<and> lru_inv c' \<and>
     lru_abs c' = take (lru_maxSize c) (lru_abs c) \<and>
     lru_maxSize c' = lru_maxSize c \<and> lru_elasticity c' = lru_elasticity c"
  using assms
proof (induction c n rule: prune_loop.induct)
  case (1 c n)
  show ?case
  proof (cases "lru_size c > lru_maxSize c")
    case True
    then have keys: "lru_keys c \<noteq> []"
      using lru_size_abs [OF "1.prems"] by (auto simp: lru_abs_def)
    note drop = lru_drop_last [OF "1.prems" keys]
    have "lru_maxSize c \<le> length (lru_abs c) - 1"
      using True lru_size_abs [OF "1.prems"] by simp
    then have "take (lru_maxSize c) (butlast (lru_abs c)) = take (lru_maxSize c) (lru_abs c)"
      by (simp add: butlast_conv_take min_absorb1)
    then show ?thesis
      using "1.IH" [OF True keys drop(1)] True keys drop(2)
      by (simp add: prune_loop.simps [of c])
  next
    case False
    then show ?thesis
      using "1.prems" lru_size_abs [OF "1.prems"] by (simp add: prune_loop.simps [of c])
  qed
qed

lemma lru_set_inv:
  fixes v :: 'v
  assumes inv: "lru_inv c" and it: "(it, k, w) \<in> set (lru_keys c)"
  defines "c1 \<equiv> c\<lparr>lru_keys := node_set it v (lru_keys c)\<rparr>"
  shows "lru_inv c1" and "(it, k, v) \<in> set (lru_keys c1)"
    and "a_remove k (lru_abs c1) = a_remove k (lru_abs c)"
proof -
  have key: "\<And>i j x. (i, j, x) \<in> set (lru_keys c) \<Longrightarrow> i = it \<Longrightarrow> j = k"
    using lru_node(1) [OF inv it] inv by (auto simp: lru_inv_def dest: map_of_is_SomeI)
  have ids: "map fst (node_set it v (lru_keys c)) = map fst (lru_keys c)"
    and ks: "map (fst \<circ> snd) (node_set it v (lru_keys c)) = map (fst \<circ> snd) (lru_keys c)"
    by (auto simp: node_set_def)
  have im: "(\<lambda>(i, k, v). (k, i)) ` set (node_set it v (lru_keys c))
      = (\<lambda>(i, k, v). (k, i)) ` set (lru_keys c)"
    unfolding node_set_def set_map image_image by (rule image_cong) auto
  have "(\<forall>n \<in> set (node_set it v (lru_keys c)). fst n < lru_next c)"
    using inv by (auto simp: node_set_def lru_inv_def split: if_splits)
  then show "lru_inv c1"
    using inv ids ks im by (simp add: c1_def lru_inv_def)
  show "(it, k, v) \<in> set (lru_keys c1)"
    using it by (force simp: c1_def node_set_def)
  have "filter (\<lambda>p. fst p \<noteq> k) (map snd (node_set it v ns)) = filter (\<lambda>p. fst p \<noteq> k) (map snd ns)"
    if "\<forall>(i, j, x) \<in> set ns. i = it \<longrightarrow> j = k" for ns
    using that by (induction ns) (auto simp: node_set_def split: if_splits)
  then show "a_remove k (lru_abs c1) = a_remove k (lru_abs c)"
    using key by (auto simp: a_remove_def lru_abs_def c1_def)
qed

lemma lru_insert_abs:
  assumes inv: "lru_inv c"
  shows "\<exists>c'. lru_insert k v c = Inr c' \<and> lru_inv c' \<and>
     lru_abs c' = a_insert (lru_maxSize c) (lru_elasticity c) k v (lru_abs c) \<and>
     lru_maxSize c' = lru_maxSize c \<and> lru_elasticity c' = lru_elasticity c"
proof (cases "map_of (lru_cache c) k")
  case (Some it)
  then obtain w where it: "(it, k, w) \<in> set (lru_keys c)"
    using inv by (auto simp: lru_cache_iff)
  note set1 = lru_set_inv [OF inv it, of v]
  note front = lru_front_inv [OF set1(1,2)]
  have "k \<in> fst ` set (lru_abs c)"
    using it by (force simp: lru_abs_def)
  then show ?thesis
    using Some front set1(3) by (simp add: lru_insert_def a_insert_def lru_abs_def)
next
  case None
  define c1 where "c1 = c\<lparr>lru_keys := (lru_next c, k, v) # lru_keys c,
    lru_cache := AList.update k (lru_next c) (lru_cache c), lru_next := Suc (lru_next c)\<rparr>"
  have new: "k \<notin> fst ` set (lru_abs c)"
    using None lru_contains_abs [OF inv, of k] by (simp add: lru_contains_def)
  then have "k \<notin> fst ` set (lru_cache c)"
    using None by (simp add: map_of_eq_None_iff)
  then have upd: "AList.update k (lru_next c) (lru_cache c) = lru_cache c @ [(k, lru_next c)]"
    by (rule alist_update_new)
  have fresh: "k \<notin> (fst \<circ> snd) ` set (lru_keys c)" "lru_next c \<notin> fst ` set (lru_keys c)"
    using new inv by (auto simp: lru_abs_def lru_inv_def image_comp)
  have "k \<notin> fst ` set (lru_cache c)"
    using None by (simp add: map_of_eq_None_iff)
  then have inv1: "lru_inv c1"
    using inv fresh upd by (auto simp: c1_def lru_inv_def less_Suc_eq)
  have abs1: "lru_abs c1 = (k, v) # lru_abs c"
    by (simp add: c1_def lru_abs_def)
  have ins: "lru_insert k v c = bindR (lru_prune c1) (\<lambda>(_, c'). Inr c')"
    using None by (simp add: lru_insert_def c1_def)
  show ?thesis
    using prune_loop_abs [OF inv1, of 0] inv1 abs1 new lru_size_abs [OF inv1]
    by (auto simp: ins lru_prune_def a_insert_def Let_def c1_def)
qed

lemma lru_remove_abs:
  assumes inv: "lru_inv c"
  shows "fst (lru_remove k c) = lru_contains k c" and "lru_inv (snd (lru_remove k c))"
    and "lru_abs (snd (lru_remove k c)) = a_remove k (lru_abs c)"
proof -
  show "fst (lru_remove k c) = lru_contains k c"
    by (simp add: lru_remove_def lru_contains_def split: option.splits)
  have "lru_inv (snd (lru_remove k c)) \<and>
      lru_abs (snd (lru_remove k c)) = a_remove k (lru_abs c)"
  proof (cases "map_of (lru_cache c) k")
    case None
    then have "k \<notin> fst ` set (lru_abs c)"
      using lru_contains_abs [OF inv, of k] by (simp add: lru_contains_def)
    then have "a_remove k (lru_abs c) = lru_abs c"
      by (force simp: a_remove_def filter_id_conv)
    then show ?thesis
      using None inv by (simp add: lru_remove_def)
  next
    case (Some it)
    then obtain v where it: "(it, k, v) \<in> set (lru_keys c)"
      using inv by (auto simp: lru_cache_iff)
    note node = lru_node [OF inv it]
    let ?ns = "filter (\<lambda>n. fst (snd n) \<noteq> k) (lru_keys c)"
    have "set (lru_cache c) = (\<lambda>(i, k, v). (k, i)) ` set (lru_keys c)"
      using inv by (simp add: lru_inv_def)
    then have "set (AList.delete k (lru_cache c)) = (\<lambda>(i, k, v). (k, i)) ` set ?ns"
      unfolding AList.delete_eq set_filter by force
    then have "lru_inv (c\<lparr>lru_keys := ?ns, lru_cache := AList.delete k (lru_cache c)\<rparr>)"
      using inv by (auto simp: lru_inv_def AList.distinct_delete distinct_map_filter)
    then show ?thesis
      using Some node(3) by (simp add: lru_remove_def lru_abs_def a_remove_def filter_map o_def)
  qed
  then show "lru_inv (snd (lru_remove k c))"
    and "lru_abs (snd (lru_remove k c)) = a_remove k (lru_abs c)"
    by simp_all
qed

section \<open>The contract of a bounded cache without elasticity\<close>

text \<open>
  What \<open>ReadCache\<close> relies on: a cache created with elasticity 0 holds at most \<open>cap\<close> keys, a hit
  returns the stored value and makes its key the most recent, a new key evicts the least
  recent one exactly when the cache is full, and the victim's value can be read beforehand.
\<close>

locale bounded_lru =
  fixes ins :: "'k \<Rightarrow> 'v \<Rightarrow> 'c \<Rightarrow> 'c result"
    and get :: "'k \<Rightarrow> 'c \<Rightarrow> ('v \<times> 'c) result"
    and has :: "'k \<Rightarrow> 'c \<Rightarrow> bool"
    and sz :: "'c \<Rightarrow> nat"
    and victim :: "'c \<Rightarrow> 'v result"
    and cap :: "'c \<Rightarrow> nat"
    and inv :: "'c \<Rightarrow> bool"
    and abs :: "'c \<Rightarrow> ('k \<times> 'v) list"
  assumes ins_abs: "inv c \<Longrightarrow> \<exists>c'. ins k v c = Inr c' \<and> inv c' \<and> cap c' = cap c \<and>
      abs c' = (if k \<in> fst ` set (abs c) then (k, v) # a_remove k (abs c)
                else take (cap c) ((k, v) # abs c))"
    and get_abs: "inv c \<Longrightarrow> map_of (abs c) k = Some v \<Longrightarrow>
      \<exists>c'. get k c = Inr (v, c') \<and> inv c' \<and> cap c' = cap c \<and> abs c' = a_touch k (abs c)"
    and has_abs: "inv c \<Longrightarrow> has k c \<longleftrightarrow> k \<in> fst ` set (abs c)"
    and sz_abs: "inv c \<Longrightarrow> sz c = length (abs c)"
    and victim_abs: "inv c \<Longrightarrow> abs c \<noteq> [] \<Longrightarrow> victim c = Inr (snd (last (abs c)))"
    and abs_distinct: "inv c \<Longrightarrow> distinct (map fst (abs c))"
    and cap_pos: "inv c \<Longrightarrow> 0 < cap c"
    and sz_le_cap: "inv c \<Longrightarrow> length (abs c) \<le> cap c"
begin

lemma ins_new_room:
  assumes "inv c" and "\<not> has k c" and "sz c < cap c"
  shows "\<exists>c'. ins k v c = Inr c' \<and> inv c' \<and> cap c' = cap c \<and> abs c' = (k, v) # abs c"
proof -
  have "take (cap c) ((k, v) # abs c) = (k, v) # abs c"
    using assms(1,3) by (simp add: sz_abs)
  then show ?thesis
    using ins_abs [OF assms(1), of k v] assms(1,2) by (simp add: has_abs)
qed

lemma ins_new_full:
  assumes "inv c" and "\<not> has k c" and "sz c = cap c"
  shows "\<exists>c'. ins k v c = Inr c' \<and> inv c' \<and> cap c' = cap c \<and> abs c' = (k, v) # butlast (abs c)"
proof -
  have "take (cap c) ((k, v) # abs c) = (k, v) # butlast (abs c)"
    using assms(1,3) cap_pos [OF assms(1)] by (cases "cap c") (auto simp: sz_abs butlast_conv_take)
  then show ?thesis
    using ins_abs [OF assms(1), of k v] assms(1,2) by (simp add: has_abs)
qed

lemma get_after_ins:
  assumes "inv c"
  shows "\<exists>c' c''. ins k v c = Inr c' \<and> get k c' = Inr (v, c'')"
proof -
  obtain c' where c': "ins k v c = Inr c'" "inv c'"
      "abs c' = (if k \<in> fst ` set (abs c) then (k, v) # a_remove k (abs c)
                 else take (cap c) ((k, v) # abs c))"
    using ins_abs [OF assms] by blast
  then have "map_of (abs c') k = Some v"
    using cap_pos [OF assms] by (cases "cap c") auto
  then show ?thesis
    using c' get_abs by blast
qed

lemma set_touch: "inv c \<Longrightarrow> map_of (abs c) k = Some v \<Longrightarrow> set (a_touch k (abs c)) = set (abs c)"
  using abs_distinct [of c] by (auto simp: a_touch_def a_remove_def dest: map_of_SomeD)
    (metis map_of_is_SomeI option.inject)

end

definition lru_bounded :: "('k, 'v) lru \<Rightarrow> bool" where
  "lru_bounded c \<longleftrightarrow> lru_inv c \<and> 0 < lru_maxSize c \<and> lru_elasticity c = 0 \<and>
     length (lru_abs c) \<le> lru_maxSize c"

interpretation lru: bounded_lru lru_insert lru_get lru_contains lru_size lru_pruneValue
  lru_maxSize lru_bounded lru_abs
proof unfold_locales
  fix c :: "('a, 'b) lru" and k v
  assume "lru_bounded c"
  then have inv: "lru_inv c" and pos: "0 < lru_maxSize c" and el: "lru_elasticity c = 0"
    and le: "length (lru_abs c) \<le> lru_maxSize c"
    by (simp_all add: lru_bounded_def)
  have "a_insert (lru_maxSize c) 0 k v (lru_abs c) =
      (if k \<in> fst ` set (lru_abs c) then (k, v) # a_remove k (lru_abs c)
       else take (lru_maxSize c) ((k, v) # lru_abs c))"
    using pos by (auto simp: a_insert_def Let_def)
  moreover have "length (a_insert (lru_maxSize c) 0 k v (lru_abs c)) \<le> lru_maxSize c"
  proof (cases "k \<in> fst ` set (lru_abs c)")
    case True
    then have "length (a_remove k (lru_abs c)) < length (lru_abs c)"
      unfolding a_remove_def by (auto intro!: length_filter_less)
    then show ?thesis
      using True le by (simp add: a_insert_def)
  next
    case False
    then show ?thesis
      using pos by (simp add: a_insert_def Let_def)
  qed
  ultimately show "\<exists>c'. lru_insert k v c = Inr c' \<and> lru_bounded c' \<and>
      lru_maxSize c' = lru_maxSize c \<and>
      lru_abs c' = (if k \<in> fst ` set (lru_abs c) then (k, v) # a_remove k (lru_abs c)
        else take (lru_maxSize c) ((k, v) # lru_abs c))"
    using lru_insert_abs [OF inv, of k v] pos el unfolding lru_bounded_def by metis
next
  fix c :: "('a, 'b) lru" and k v
  assume b: "lru_bounded c" and hit: "map_of (lru_abs c) k = Some v"
  then have inv: "lru_inv c"
    by (simp add: lru_bounded_def)
  have "k \<in> fst ` set (lru_abs c)"
    using hit by (force dest: map_of_SomeD)
  then have "length (a_remove k (lru_abs c)) < length (lru_abs c)"
    unfolding a_remove_def by (auto intro!: length_filter_less)
  then show "\<exists>c'. lru_get k c = Inr (v, c') \<and> lru_bounded c' \<and> lru_maxSize c' = lru_maxSize c \<and>
      lru_abs c' = a_touch k (lru_abs c)"
    using lru_get_hit [OF inv hit] b hit by (auto simp: lru_bounded_def a_touch_def)
qed (auto simp: lru_bounded_def lru_contains_abs lru_size_abs lru_pruneValue_abs lru_abs_distinct)

section \<open>Properties\<close>

text \<open>C24: the linked list and the hash map of the cache refine a list of key/value pairs in recency order:
  inserting never fails, keeps the structures consistent, moves the key to the front, and drops the
  least recently used pairs when the size reaches its limit.\<close>

theorem lru_insert_refines:
  assumes "lru_inv c"
  shows "\<exists>c'. lru_insert k v c = Inr c' \<and> lru_inv c' \<and>
     lru_abs c' = a_insert (lru_maxSize c) (lru_elasticity c) k v (lru_abs c)"
  using lru_insert_abs [OF assms] by blast

theorem lru_insert_refines_witness:
  "\<exists>c'. lru_insert (1 :: nat) (2 :: nat) (lru_new 4 0) = Inr c' \<and> lru_abs c' = [(1, 2)]"
proof -
  have "lru_maxSize (lru_new 4 0 :: (nat, nat) lru) = 4"
    by (simp add: lru_new_def)
  then show ?thesis
    using lru_insert_refines [OF lru_inv_new, of "1 :: nat" "2 :: nat" 4 0]
    unfolding lru_abs_new by (auto simp: a_insert_def lru_new_def)
qed

end
