(* ===== verification/Read_Cache.thy ===== *)
theory Read_Cache
  imports Lru_Cache Config
begin

text \<open>
  The container cache of the restore path (\<open>include/readCache.h\<close>, \<open>src/Util/readCache.cc\<close>): a pool
  of container buffers and an LRU cache from container names to pool slots. A full cache reuses
  the slot of its least recently used container.
\<close>

section \<open>Model\<close>

record ReadCache =
  rc_readCache :: "(bytes, u32) lru"
  rc_containerPool :: "nat \<Rightarrow> buf"
  rc_cacheSize :: nat
  rc_currentIndex :: nat

text \<open>\<open>pool\<close> is the content of the fresh \<open>malloc\<close>ed buffers.\<close>

definition ReadCache_new :: "Configure \<Rightarrow> (nat \<Rightarrow> buf) \<Rightarrow> ReadCache" where
  "ReadCache_new cfg pool =
     \<lparr>rc_readCache = lru_new (unat (GetReadCacheSize cfg)) 0, rc_containerPool = pool,
      rc_cacheSize = unat (GetReadCacheSize cfg), rc_currentIndex = 0\<rparr>"

definition pool_copy :: "nat \<Rightarrow> bytes \<Rightarrow> ReadCache \<Rightarrow> ReadCache result" where
  "pool_copy i data rc =
     bindR (guardR (i < rc_cacheSize rc \<and> length data \<le> MAX_CONTAINER_SIZE) OutOfBounds) (\<lambda>_.
       Inr (rc\<lparr>rc_containerPool :=
         (rc_containerPool rc)(i := mem_write (rc_containerPool rc i) 0 data)\<rparr>))"

text \<open>\<open>data\<close> are the \<open>length\<close> bytes at the source pointer.\<close>

definition InsertToCache :: "bytes \<Rightarrow> bytes \<Rightarrow> ReadCache \<Rightarrow> ReadCache result" where
  "InsertToCache name data rc =
     (if lru_size (rc_readCache rc) + 1 > rc_cacheSize rc
      then bindR (lru_pruneValue (rc_readCache rc)) (\<lambda>replaceIndex.
           bindR (pool_copy (unat replaceIndex) data rc) (\<lambda>rc1.
           bindR (lru_insert name replaceIndex (rc_readCache rc1)) (\<lambda>l.
             Inr (rc1\<lparr>rc_readCache := l\<rparr>))))
      else bindR (pool_copy (rc_currentIndex rc) data rc) (\<lambda>rc1.
           bindR (lru_insert name (of_nat (rc_currentIndex rc)) (rc_readCache rc1)) (\<lambda>l.
             Inr (rc1\<lparr>rc_readCache := l, rc_currentIndex := rc_currentIndex rc + 1\<rparr>))))"

definition ExistsInCache :: "bytes \<Rightarrow> ReadCache \<Rightarrow> bool" where
  "ExistsInCache name rc = lru_contains name (rc_readCache rc)"

definition ReadFromCache :: "bytes \<Rightarrow> ReadCache \<Rightarrow> (buf \<times> ReadCache) result" where
  "ReadFromCache name rc =
     bindR (lru_get name (rc_readCache rc)) (\<lambda>(index, l).
     bindR (guardR (unat index < rc_cacheSize rc) OutOfBounds) (\<lambda>_.
       Inr (rc_containerPool rc (unat index), rc\<lparr>rc_readCache := l\<rparr>)))"

section \<open>Invariant\<close>

text \<open>
  The cached containers use distinct slots, and the slots in use are exactly the first
  \<open>currentIndex_\<close> ones. The index is stored as a \<open>uint32_t\<close>, so the pool has at most \<open>2 ^ 32\<close> slots.
\<close>

abbreviation rc_entries :: "ReadCache \<Rightarrow> (bytes \<times> u32) list" where
  "rc_entries rc \<equiv> lru_abs (rc_readCache rc)"

definition rc_inv :: "ReadCache \<Rightarrow> bool" where
  "rc_inv rc \<longleftrightarrow>
     lru_bounded (rc_readCache rc) \<and> lru_maxSize (rc_readCache rc) = rc_cacheSize rc \<and>
     rc_cacheSize rc \<le> 2 ^ 32 \<and>
     rc_currentIndex rc = length (rc_entries rc) \<and>
     distinct (map snd (rc_entries rc)) \<and>
     unat ` snd ` set (rc_entries rc) = {..<rc_currentIndex rc}"

text \<open>The buffer a cached name stands for.\<close>

definition rc_lookup :: "ReadCache \<Rightarrow> bytes \<rightharpoonup> buf" where
  "rc_lookup rc name =
     map_option (\<lambda>i. rc_containerPool rc (unat i)) (map_of (rc_entries rc) name)"

definition rc_victim :: "ReadCache \<Rightarrow> bytes option" where
  "rc_victim rc =
     (if rc_currentIndex rc = rc_cacheSize rc then Some (fst (last (rc_entries rc))) else None)"

lemma rc_inv_new:
  assumes "0 < unat (GetReadCacheSize cfg)" and "unat (GetReadCacheSize cfg) \<le> 2 ^ 32"
  shows "rc_inv (ReadCache_new cfg pool)"
  using assms by (simp add: rc_inv_def ReadCache_new_def lru_bounded_def lru_inv_new lru_abs_new)
    (simp add: lru_new_def)

lemma ExistsInCache_lookup: "rc_inv rc \<Longrightarrow> ExistsInCache name rc \<longleftrightarrow> rc_lookup rc name \<noteq> None"
  by (auto simp: ExistsInCache_def rc_inv_def lru.has_abs rc_lookup_def map_of_eq_None_iff)

lemma rc_slot_bound: "rc_inv rc \<Longrightarrow> (n, i) \<in> set (rc_entries rc) \<Longrightarrow> unat i < rc_cacheSize rc"
proof -
  assume inv: "rc_inv rc" and mem: "(n, i) \<in> set (rc_entries rc)"
  have "unat i \<in> unat ` snd ` set (rc_entries rc)"
    using mem by force
  then have "unat i < rc_currentIndex rc"
    using inv by (auto simp: rc_inv_def)
  also have "\<dots> \<le> rc_cacheSize rc"
    using inv by (simp add: rc_inv_def lru_bounded_def)
  finally show ?thesis .
qed

text \<open>Reading a cached container returns its buffer and changes only the recency order.\<close>

lemma ReadFromCache_hit:
  assumes inv: "rc_inv rc" and hit: "rc_lookup rc name = Some b"
  shows "\<exists>rc'. ReadFromCache name rc = Inr (b, rc') \<and> rc_inv rc' \<and> rc_lookup rc' = rc_lookup rc"
proof -
  obtain i where i: "map_of (rc_entries rc) name = Some i" and b: "b = rc_containerPool rc (unat i)"
    using hit by (auto simp: rc_lookup_def)
  have bnd: "lru_bounded (rc_readCache rc)"
    using inv by (simp add: rc_inv_def)
  obtain l where l: "lru_get name (rc_readCache rc) = Inr (i, l)" "lru_bounded l"
      "lru_maxSize l = lru_maxSize (rc_readCache rc)" "lru_abs l = a_touch name (rc_entries rc)"
    using lru.get_abs [OF bnd i] by blast
  have set: "set (lru_abs l) = set (rc_entries rc)"
    using l(4) lru.set_touch [OF bnd i] by simp
  have d: "distinct (map fst (rc_entries rc))"
    using bnd by (rule lru.abs_distinct)
  have d': "distinct (map fst (lru_abs l))"
    using l(2) by (rule lru.abs_distinct)
  have len: "length (lru_abs l) = length (rc_entries rc)"
    using distinct_card [OF d] distinct_card [OF d'] set by simp
  have "card (snd ` set (rc_entries rc)) = length (rc_entries rc)"
    using inv distinct_card [of "map snd (rc_entries rc)"] by (simp add: rc_inv_def)
  then have "distinct (map snd (lru_abs l))"
    using len by (intro card_distinct) (simp add: set)
  moreover have "map_of (lru_abs l) = map_of (rc_entries rc)"
    using d d' set by (simp add: map_of_inject_set)
  moreover have "unat i < rc_cacheSize rc"
    using rc_slot_bound [OF inv] i by (blast dest: map_of_SomeD)
  ultimately show ?thesis
    using inv l b len set by (auto simp: ReadFromCache_def rc_inv_def rc_lookup_def fun_eq_iff)
qed

text \<open>Inserting a container that is not cached: with room it takes the next slot, otherwise the slot
  of the least recently used container, which leaves the cache.\<close>

lemma InsertToCache_room:
  assumes inv: "rc_inv rc" and new: "rc_lookup rc name = None" and fits: "length data \<le> MAX_CONTAINER_SIZE"
    and room: "rc_currentIndex rc < rc_cacheSize rc"
  shows "\<exists>rc'. InsertToCache name data rc = Inr rc' \<and> rc_inv rc' \<and>
     rc_lookup rc' = (rc_lookup rc)(name \<mapsto>
       mem_write (rc_containerPool rc (rc_currentIndex rc)) 0 data)"
proof -
  let ?i = "rc_currentIndex rc"
  define pool where "pool = (rc_containerPool rc)(?i := mem_write (rc_containerPool rc ?i) 0 data)"
  have bnd: "lru_bounded (rc_readCache rc)" and sz: "lru_size (rc_readCache rc) = ?i"
    and max: "lru_maxSize (rc_readCache rc) = rc_cacheSize rc" and lim: "rc_cacheSize rc \<le> 2 ^ 32"
    and slots: "unat ` snd ` set (rc_entries rc) = {..<?i}"
    using inv by (auto simp: rc_inv_def lru.sz_abs)
  have nh: "\<not> lru_contains name (rc_readCache rc)"
    using ExistsInCache_lookup [OF inv, of name] new by (simp add: ExistsInCache_def)
  obtain l where l: "lru_insert name (of_nat ?i) (rc_readCache rc) = Inr l" "lru_bounded l"
      "lru_maxSize l = rc_cacheSize rc" "lru_abs l = (name, of_nat ?i) # rc_entries rc"
    using lru.ins_new_room [OF bnd nh] sz max room by auto
  define rc' where "rc' = rc\<lparr>rc_containerPool := pool, rc_readCache := l, rc_currentIndex := ?i + 1\<rparr>"
  have un: "unat (of_nat ?i :: u32) = ?i"
    using room lim by (simp add: unat_of_nat_u32)
  have old: "unat j < ?i" if "(m, j) \<in> set (rc_entries rc)" for m j
    using that slots by (metis image_eqI lessThan_iff snd_conv)
  have "InsertToCache name data rc = Inr rc'"
    using room sz l(1) fits by (simp add: InsertToCache_def pool_copy_def rc'_def pool_def)
  moreover have "of_nat ?i \<notin> snd ` set (rc_entries rc)"
    using old un by force
  then have "rc_inv rc'"
    using inv l un slots by (simp add: rc'_def rc_inv_def lessThan_Suc)
  moreover have "rc_lookup rc' = (rc_lookup rc)(name \<mapsto> mem_write (rc_containerPool rc ?i) 0 data)"
  proof (rule ext)
    fix m
    show "rc_lookup rc' m = ((rc_lookup rc)(name \<mapsto> mem_write (rc_containerPool rc ?i) 0 data)) m"
      using un by (cases "map_of (rc_entries rc) m")
        (auto simp: rc_lookup_def rc'_def l(4) pool_def dest!: map_of_SomeD old)
  qed
  ultimately show ?thesis
    by blast
qed

lemma InsertToCache_full:
  assumes inv: "rc_inv rc" and new: "rc_lookup rc name = None" and fits: "length data \<le> MAX_CONTAINER_SIZE"
    and full: "rc_currentIndex rc = rc_cacheSize rc"
  shows "\<exists>rc' old. InsertToCache name data rc = Inr rc' \<and> rc_inv rc' \<and>
     rc_lookup rc' = (rc_lookup rc)(fst (last (rc_entries rc)) := None, name \<mapsto> mem_write old 0 data)"
proof -
  have bnd: "lru_bounded (rc_readCache rc)" and sz: "lru_size (rc_readCache rc) = rc_cacheSize rc"
    and max: "lru_maxSize (rc_readCache rc) = rc_cacheSize rc"
    using inv full by (auto simp: rc_inv_def lru.sz_abs)
  have ne: "rc_entries rc \<noteq> []"
    using lru.cap_pos [OF bnd] sz max by (auto simp: lru.sz_abs [OF bnd])
  obtain es v i where es: "rc_entries rc = es @ [(v, i)]"
    using ne by (metis prod.exhaust rev_exhaust)
  have nh: "\<not> lru_contains name (rc_readCache rc)"
    using ExistsInCache_lookup [OF inv, of name] new by (simp add: ExistsInCache_def)
  obtain l where l: "lru_insert name i (rc_readCache rc) = Inr l" "lru_bounded l"
      "lru_maxSize l = rc_cacheSize rc" "lru_abs l = (name, i) # es"
    using lru.ins_new_full [OF bnd nh] sz max es by auto
  have d: "distinct (map fst (es @ [(v, i)]))"
    using lru.abs_distinct [OF bnd] es by simp
  have dv: "distinct (map snd (es @ [(v, i)]))"
    using inv es by (simp add: rc_inv_def)
  define old where "old = rc_containerPool rc (unat i)"
  define rc' where "rc' = rc\<lparr>rc_containerPool := (rc_containerPool rc)(unat i := mem_write old 0 data),
    rc_readCache := l\<rparr>"
  have "unat i < rc_cacheSize rc"
    using rc_slot_bound [OF inv, of v i] es by simp
  then have "InsertToCache name data rc = Inr rc'"
    using sz l(1) fits lru.victim_abs [OF bnd ne] es
    by (simp add: InsertToCache_def pool_copy_def rc'_def old_def)
  moreover have "rc_inv rc'"
    using inv l es dv by (auto simp: rc'_def rc_inv_def)
  moreover have "rc_lookup rc' = (rc_lookup rc)(v := None, name \<mapsto> mem_write old 0 data)"
  proof (rule ext)
    fix m
    have "unat j \<noteq> unat i" if "map_of es m = Some j" for j
      using that dv by (auto simp: image_iff word_unat_eq_iff [symmetric] dest!: map_of_SomeD)
    moreover have none: "map_of es v = None"
      using d by (auto simp: map_of_eq_None_iff)
    moreover have "map_of (es @ [(v, i)]) m = (if m = v then Some i else map_of es m)"
      using none by (simp add: map_add_def split: option.splits)
    ultimately show "rc_lookup rc' m = ((rc_lookup rc)(v := None, name \<mapsto> mem_write old 0 data)) m"
      by (cases "map_of es m") (auto simp: rc_lookup_def rc'_def l(4) es simp del: map_of_append)
  qed
  ultimately show ?thesis
    by (auto simp: es)
qed

lemma InsertToCache_new:
  assumes inv: "rc_inv rc" and new: "rc_lookup rc name = None" and fits: "length data \<le> MAX_CONTAINER_SIZE"
  shows "\<exists>rc' old. InsertToCache name data rc = Inr rc' \<and> rc_inv rc' \<and>
     rc_lookup rc' = (case rc_victim rc of None \<Rightarrow> rc_lookup rc | Some v \<Rightarrow> (rc_lookup rc)(v := None))
       (name \<mapsto> mem_write old 0 data)"
proof (cases "rc_currentIndex rc = rc_cacheSize rc")
  case True
  then show ?thesis
    using InsertToCache_full [OF inv new fits True] by (simp add: rc_victim_def)
next
  case False
  then have "rc_currentIndex rc < rc_cacheSize rc"
    using inv by (auto simp: rc_inv_def lru_bounded_def)
  then show ?thesis
    using InsertToCache_room [OF inv new fits] by (force simp: rc_victim_def)
qed

section \<open>Properties\<close>

text \<open>C23: caching a container that is not cached yet keeps the cache well formed, makes its bytes the
  beginning of the buffer that a later read returns, and forgets at most the least recently used
  container; every other cached container keeps its buffer.\<close>

theorem ReadCache_insert_then_read:
  assumes "rc_inv rc" and "rc_lookup rc name = None" and "length data \<le> MAX_CONTAINER_SIZE"
  shows "\<exists>rc' b rc''. InsertToCache name data rc = Inr rc' \<and> rc_inv rc' \<and>
     ReadFromCache name rc' = Inr (b, rc'') \<and> mem_read b 0 (length data) = data \<and>
     (\<forall>m. m \<noteq> name \<longrightarrow> rc_victim rc \<noteq> Some m \<longrightarrow> rc_lookup rc' m = rc_lookup rc m)"
proof -
  obtain rc' old where rc': "InsertToCache name data rc = Inr rc'" "rc_inv rc'"
      "rc_lookup rc' = (case rc_victim rc of None \<Rightarrow> rc_lookup rc | Some v \<Rightarrow> (rc_lookup rc)(v := None))
         (name \<mapsto> mem_write old 0 data)"
    using InsertToCache_new [OF assms] by blast
  then have "rc_lookup rc' name = Some (mem_write old 0 data)"
    by simp
  then obtain rc'' where "ReadFromCache name rc' = Inr (mem_write old 0 data, rc'')"
    using ReadFromCache_hit [OF rc'(2)] by blast
  then show ?thesis
    using rc' by (auto split: option.splits)
qed

definition demo_cache :: ReadCache where
  "demo_cache = \<lparr>rc_readCache = lru_new 2 0, rc_containerPool = (\<lambda>_ _. 0), rc_cacheSize = 2,
     rc_currentIndex = 0\<rparr>"

theorem ReadCache_insert_then_read_witness:
  "\<exists>rc' b rc''. InsertToCache [1] [5, 6] demo_cache = Inr rc' \<and> rc_inv rc' \<and>
     ReadFromCache [1] rc' = Inr (b, rc'') \<and> mem_read b 0 2 = [5, 6]"
proof -
  have "lru_bounded (rc_readCache demo_cache)" and e: "rc_entries demo_cache = []"
    by (simp_all add: demo_cache_def lru_bounded_def lru_inv_new lru_abs_new) (simp add: lru_new_def)
  then have "rc_inv demo_cache" "rc_lookup demo_cache [1] = None"
    by (simp_all add: rc_inv_def rc_lookup_def) (simp add: demo_cache_def lru_new_def)
  then show ?thesis
    using ReadCache_insert_then_read [of demo_cache "[1]" "[5, 6]"]
    by (auto simp: MAX_CONTAINER_SIZE_def numeral_2_eq_2)
qed

end
