(* ===== verification/Rw_Queue.thy ===== *)
theory Rw_Queue
  imports Chunk_Structure
begin

text \<open>
  The single-producer single-consumer queue \<open>moodycamel::ReaderWriterQueue\<close>
  (\<open>include/messageQueue/readerwriterqueue.h\<close>) behind \<open>MessageQueue\<close>: a circular list of blocks, each
  a ring buffer with one slot always free. Blocks live in a heap and point to each other; the
  producer and the consumer keep shadow copies of the other side's index in each block. The
  operations are modelled as atomic steps. The main lemmas show that the queue refines a list.
\<close>

section \<open>Model\<close>

record 'a rw_block =
  b_front :: u64
  b_localTail :: u64
  b_tail :: u64
  b_localFront :: u64
  b_next :: nat
  b_data :: "nat \<Rightarrow> 'a option"
  b_sizeMask :: u64

record 'a rwq =
  q_heap :: "'a rw_block list"
  q_frontBlock :: nat
  q_tailBlock :: nat
  q_largestBlockSize :: u64

definition MAX_BLOCK_SIZE :: u64 where "MAX_BLOCK_SIZE = 512"

definition ceilToPow2 :: "u64 \<Rightarrow> u64" where
  "ceilToPow2 x =
     (let x = x - 1;
          x = x OR drop_bit 1 x;
          x = x OR drop_bit 2 x;
          x = x OR drop_bit 4 x;
          x = x OR drop_bit 8 x;
          x = x OR drop_bit 16 x;
          x = x OR drop_bit 32 x
      in x + 1)"

text \<open>A slot that holds no constructed element is \<open>None\<close>. A new block has no successor yet; the
  callers of \<open>make_block\<close> set \<open>next\<close> at once.\<close>

definition make_block :: "u64 \<Rightarrow> nat \<Rightarrow> 'a rw_block" where
  "make_block capacity nxt =
     \<lparr>b_front = 0, b_localTail = 0, b_tail = 0, b_localFront = 0, b_next = nxt,
      b_data = (\<lambda>_. None), b_sizeMask = capacity - 1\<rparr>"

text \<open>The allocation loop of the constructor; \<open>malloc_ok i\<close> tells whether the \<open>i\<close>-th allocation
  succeeds.\<close>

fun alloc_ring :: "(nat \<Rightarrow> bool) \<Rightarrow> nat \<Rightarrow> u64 \<Rightarrow> 'a rw_block list \<Rightarrow> 'a rw_block list result" where
  "alloc_ring malloc_ok 0 sz h = Inr h"
| "alloc_ring malloc_ok (Suc n) sz h =
     (let block = length h in
      if \<not> malloc_ok block then Inl Uncaught
      else if block = 0 then alloc_ring malloc_ok n sz [make_block sz 0]
      else alloc_ring malloc_ok n sz
             (h[block - 1 := (h ! (block - 1))\<lparr>b_next := block\<rparr>] @ [make_block sz 0]))"

definition rwq_new :: "(nat \<Rightarrow> bool) \<Rightarrow> u64 \<Rightarrow> 'a rwq result" where
  "rwq_new malloc_ok sz =
     (let largest = ceilToPow2 (sz + 1) in
      if largest > MAX_BLOCK_SIZE * 2
      then let initialBlockCount = (sz + MAX_BLOCK_SIZE * 2 - 3) div (MAX_BLOCK_SIZE - 1) in
        bindR (alloc_ring malloc_ok (unat initialBlockCount) MAX_BLOCK_SIZE []) (\<lambda>h.
          Inr \<lparr>q_heap = h, q_frontBlock = 0, q_tailBlock = 0, q_largestBlockSize = MAX_BLOCK_SIZE\<rparr>)
      else if \<not> malloc_ok 0 then Inl Uncaught
      else Inr \<lparr>q_heap = [make_block largest 0], q_frontBlock = 0, q_tailBlock = 0,
                q_largestBlockSize = largest\<rparr>)"

definition blk_at :: "'a rwq \<Rightarrow> nat \<Rightarrow> 'a rw_block" where
  "blk_at q p = q_heap q ! p"

definition upd_blk :: "nat \<Rightarrow> ('a rw_block \<Rightarrow> 'a rw_block) \<Rightarrow> 'a rwq \<Rightarrow> 'a rwq" where
  "upd_blk p f q = q\<lparr>q_heap := (q_heap q)[p := f (q_heap q ! p)]\<rparr>"

text \<open>The label \<open>non_empty_front_block\<close>: move the element out, destroy it, advance \<open>front\<close>.\<close>

definition deq_from :: "nat \<Rightarrow> 'a rwq \<Rightarrow> ('a option \<times> 'a rwq) result" where
  "deq_from p q =
     (let b = blk_at q p; f = unat (b_front b) in
      case b_data b f of
        None \<Rightarrow> Inl Undefined
      | Some x \<Rightarrow> Inr (Some x, upd_blk p (\<lambda>b. b\<lparr>b_data := (b_data b)(f := None),
                                              b_front := (b_front b + 1) AND b_sizeMask b\<rparr>) q))"

definition refresh_tail :: "nat \<Rightarrow> 'a rwq \<Rightarrow> 'a rwq" where
  "refresh_tail p q = upd_blk p (\<lambda>b. b\<lparr>b_localTail := b_tail b\<rparr>) q"

definition refresh_front :: "nat \<Rightarrow> 'a rwq \<Rightarrow> 'a rwq" where
  "refresh_front p q = upd_blk p (\<lambda>b. b\<lparr>b_localFront := b_front b\<rparr>) q"

definition try_dequeue :: "'a rwq \<Rightarrow> ('a option \<times> 'a rwq) result" where
  "try_dequeue q =
     (let fb = q_frontBlock q; b = blk_at q fb in
      if b_front b \<noteq> b_localTail b then deq_from fb q
      else let q1 = refresh_tail fb q in
        if b_front b \<noteq> b_tail b then deq_from fb q1
        else if fb \<noteq> q_tailBlock q1 then
          (let fb = q_frontBlock q1; q2 = refresh_tail fb q1; b = blk_at q2 fb in
           if b_front b \<noteq> b_localTail b then deq_from fb q2
           else let nextBlock = b_next b; q3 = refresh_tail nextBlock q2; nb = blk_at q3 nextBlock in
             if b_front nb = b_localTail nb then Inl AssertFailed
             else deq_from nextBlock (q3\<lparr>q_frontBlock := nextBlock\<rparr>))
        else Inr (None, q1))"

text \<open>\<open>inner_enqueue\<close>; \<open>can_alloc\<close> is the template parameter and \<open>malloc_ok\<close> the outcome of
  \<open>make_block\<close>.\<close>

definition put_elem :: "nat \<Rightarrow> 'a \<Rightarrow> 'a rwq \<Rightarrow> 'a rwq" where
  "put_elem p x q = upd_blk p (\<lambda>b. b\<lparr>b_data := (b_data b)(unat (b_tail b) := Some x),
                                     b_tail := (b_tail b + 1) AND b_sizeMask b\<rparr>) q"

definition inner_enqueue :: "bool \<Rightarrow> bool \<Rightarrow> 'a \<Rightarrow> 'a rwq \<Rightarrow> (bool \<times> 'a rwq) result" where
  "inner_enqueue can_alloc malloc_ok x q =
     (let tb = q_tailBlock q; b = blk_at q tb;
          nextBlockTail = (b_tail b + 1) AND b_sizeMask b in
      if nextBlockTail \<noteq> b_localFront b then Inr (True, put_elem tb x q)
      else let q1 = refresh_front tb q in
        if nextBlockTail \<noteq> b_front b then Inr (True, put_elem tb x q1)
        else if b_next b \<noteq> q_frontBlock q1 then
          (let nb = b_next b; q2 = refresh_front nb q1; n = blk_at q2 nb in
           if b_localFront n \<noteq> b_tail n then Inl AssertFailed
           else Inr (True, (put_elem nb x q2)\<lparr>q_tailBlock := nb\<rparr>))
        else if can_alloc then
          (let newBlockSize = (if q_largestBlockSize q1 \<ge> MAX_BLOCK_SIZE then q_largestBlockSize q1
                               else q_largestBlockSize q1 * 2) in
           if \<not> malloc_ok then Inr (False, q1)
           else let newBlock = length (q_heap q1);
                    nb = (make_block newBlockSize (b_next b))
                           \<lparr>b_data := (\<lambda>_. None)(0 := Some x), b_tail := 1, b_localTail := 1\<rparr>
                in Inr (True, (upd_blk tb (\<lambda>b. b\<lparr>b_next := newBlock\<rparr>)
                     (q1\<lparr>q_heap := q_heap q1 @ [nb], q_largestBlockSize := newBlockSize\<rparr>))
                     \<lparr>q_tailBlock := newBlock\<rparr>))
        else Inr (False, q1))"

definition try_enqueue :: "'a \<Rightarrow> 'a rwq \<Rightarrow> (bool \<times> 'a rwq) result" where
  "try_enqueue x q = inner_enqueue False False x q"

definition enqueue :: "bool \<Rightarrow> 'a \<Rightarrow> 'a rwq \<Rightarrow> (bool \<times> 'a rwq) result" where
  "enqueue malloc_ok x q = inner_enqueue True malloc_ok x q"

text \<open>\<open>pop\<close> runs the code of \<open>try_dequeue\<close> without the assignment to \<open>result\<close>; \<open>peek\<close> reads
  the element where it is and leaves the front pointers.\<close>

definition rwq_pop :: "'a rwq \<Rightarrow> (bool \<times> 'a rwq) result" where
  "rwq_pop q = bindR (try_dequeue q) (\<lambda>(r, q'). Inr (r \<noteq> None, q'))"

definition rwq_peek :: "'a rwq \<Rightarrow> ('a option \<times> 'a rwq) result" where
  "rwq_peek q =
     (let fb = q_frontBlock q; b = blk_at q fb;
          at = (\<lambda>b q. case b_data b (unat (b_front b)) of None \<Rightarrow> Inl Undefined | Some x \<Rightarrow> Inr (Some x, q)) in
      if b_front b \<noteq> b_localTail b then at b q
      else let q1 = refresh_tail fb q in
        if b_front b \<noteq> b_tail b then at b q1
        else if fb \<noteq> q_tailBlock q1 then
          (let fb = q_frontBlock q1; q2 = refresh_tail fb q1; b = blk_at q2 fb in
           if b_front b \<noteq> b_localTail b then at b q2
           else let nb = blk_at q2 (b_next b) in
             if b_front nb = b_tail nb then Inl AssertFailed else at nb q2)
        else Inr (None, q1))"

text \<open>The two loops around the ring. Each visits every block once, so the number of blocks is
  enough fuel; \<open>None\<close> would mean that the loop does not come back to the front block.\<close>

fun ring_sum :: "nat \<Rightarrow> ('a rw_block \<Rightarrow> u64) \<Rightarrow> 'a rwq \<Rightarrow> nat \<Rightarrow> u64 \<Rightarrow> u64 option" where
  "ring_sum 0 g q block acc = None"
| "ring_sum (Suc fuel) g q block acc =
     (let acc' = acc + g (blk_at q block); nxt = b_next (blk_at q block) in
      if nxt \<noteq> q_frontBlock q then ring_sum fuel g q nxt acc' else Some acc')"

definition size_approx :: "'a rwq \<Rightarrow> u64 option" where
  "size_approx q =
     ring_sum (length (q_heap q)) (\<lambda>b. (b_tail b - b_front b) AND b_sizeMask b) q (q_frontBlock q) 0"

definition max_capacity :: "'a rwq \<Rightarrow> u64 option" where
  "max_capacity q = ring_sum (length (q_heap q)) b_sizeMask q (q_frontBlock q) 0"


section \<open>One block\<close>

text \<open>\<open>slots_ok N f lt t lf d xs\<close>: a ring of \<open>N\<close> slots holds \<open>xs\<close> from slot \<open>f\<close> on; the
  consumer's copy \<open>lt\<close> of the tail lags behind it and the producer's copy \<open>lf\<close> of the front
  lags behind the front.\<close>

definition slots_ok :: "nat \<Rightarrow> nat \<Rightarrow> nat \<Rightarrow> nat \<Rightarrow> nat \<Rightarrow> (nat \<Rightarrow> 'a option) \<Rightarrow> 'a list \<Rightarrow> bool" where
  "slots_ok N f lt t lf d xs \<longleftrightarrow>
     f < N \<and> lf < N \<and> length xs < N \<and> t = (f + length xs) mod N \<and>
     (\<exists>e \<le> length xs. lt = (f + e) mod N) \<and>
     (\<exists>g \<ge> length xs. g < N \<and> t = (lf + g) mod N) \<and>
     (\<forall>i < length xs. d ((f + i) mod N) = Some (xs ! i))"

definition blk_rep :: "'a rw_block \<Rightarrow> 'a list \<Rightarrow> bool" where
  "blk_rep b xs \<longleftrightarrow>
     (\<exists>k. 1 \<le> k \<and> k < 64 \<and> b_sizeMask b = mask k \<and>
        slots_ok (2 ^ k) (unat (b_front b)) (unat (b_localTail b)) (unat (b_tail b))
          (unat (b_localFront b)) (b_data b) xs)"

lemma ring_mod: "a < N \<Longrightarrow> i < N \<Longrightarrow> (a + i) mod N = (if a + i < N then a + i else a + i - N)" for N :: nat
  by (simp add: le_mod_geq)

lemma ring_mod_inj: "i < N \<Longrightarrow> j < N \<Longrightarrow> (f + i) mod N = (f + j) mod N \<longleftrightarrow> i = j" for N :: nat
proof -
  assume "i < N" "j < N"
  moreover have "f mod N < N"
    using \<open>i < N\<close> by simp
  moreover have "(f + i) mod N = (f mod N + i) mod N" "(f + j) mod N = (f mod N + j) mod N"
    by (simp_all add: mod_add_left_eq)
  ultimately show ?thesis
    by (auto simp: ring_mod split: if_splits)
qed

lemma ring_mod_zero: "f < N \<Longrightarrow> i < N \<Longrightarrow> (f + i) mod N = f \<longleftrightarrow> i = 0" for N :: nat
  using ring_mod_inj [of i N 0 f] by auto

lemma unat_ring_step: "k < 64 \<Longrightarrow> unat ((w + 1) AND mask k :: u64) = (unat w + 1) mod 2 ^ k"
proof -
  assume k: "k < 64"
  have "unat ((w + 1) AND mask k) = unat (w + 1) mod 2 ^ k"
    by (simp only: flip: take_bit_eq_mask take_bit_eq_mod) (simp add: unsigned_take_bit_eq)
  also have "\<dots> = (unat w + 1) mod 2 ^ 64 mod 2 ^ k"
    by (simp add: unat_word_ariths)
  also have "\<dots> = (unat w + 1) mod 2 ^ k"
    using k by (intro mod_mod_cancel le_imp_power_dvd) simp
  finally show ?thesis .
qed

lemma slots_ok_put:
  assumes ok: "slots_ok N f lt t lf d xs" and room: "(t + 1) mod N \<noteq> lf"
  shows "slots_ok N f lt ((t + 1) mod N) lf (d(t := Some x)) (xs @ [x])"
proof -
  obtain g where g: "length xs \<le> g" "g < N" "t = (lf + g) mod N"
    using ok by (auto simp: slots_ok_def)
  have "t = (f + length xs) mod N"
    using ok by (simp add: slots_ok_def)
  then have t: "(t + 1) mod N = (f + (length xs + 1)) mod N"
    by (simp add: mod_Suc_eq)
  have t': "(t + 1) mod N = (lf + (g + 1)) mod N"
    by (simp add: g(3) mod_Suc_eq)
  have "g + 1 < N"
  proof (rule ccontr)
    assume "\<not> g + 1 < N"
    then have "g + 1 = N"
      using g by simp
    then have "(t + 1) mod N = (lf + N) mod N"
      by (simp only: t')
    then show False
      using room ok by (simp add: slots_ok_def)
  qed
  moreover have "(f + i) mod N \<noteq> t" if "i < length xs" for i
    using that ok ring_mod_inj [of i N "length xs" f] by (auto simp: slots_ok_def)
  ultimately show ?thesis
    using ok g t t' unfolding slots_ok_def
    by (auto simp: nth_append less_Suc_eq intro: le_SucI exI [of _ "g + 1"])
qed

lemma slots_ok_refresh_front: "slots_ok N f lt t lf d xs \<Longrightarrow> slots_ok N f lt t f d xs"
  unfolding slots_ok_def by auto

lemma slots_ok_refresh_tail: "slots_ok N f lt t lf d xs \<Longrightarrow> slots_ok N f t t lf d xs"
  unfolding slots_ok_def by auto

lemma slots_ok_empty: "slots_ok N f lt t lf d xs \<Longrightarrow> f = t \<longleftrightarrow> xs = []"
  using ring_mod_zero [of f N "length xs"] unfolding slots_ok_def by (metis length_0_conv)

lemma slots_ok_get:
  assumes ok: "slots_ok N f lt t lf d xs" and ne: "f \<noteq> lt"
  shows "\<exists>x ys. xs = x # ys \<and> d f = Some x \<and>
     slots_ok N ((f + 1) mod N) lt t lf (d(f := None)) ys"
proof -
  obtain e where e: "e \<le> length xs" "lt = (f + e) mod N"
    using ok by (auto simp: slots_ok_def)
  have "0 < e"
    using e ne ok by (cases e) (auto simp: slots_ok_def)
  then obtain x ys where xs: "xs = x # ys"
    using e by (cases xs) auto
  have f: "f < N" "length ys + 1 < N"
    using ok xs by (simp_all add: slots_ok_def)
  have shift: "((f + 1) mod N + i) mod N = (f + (i + 1)) mod N" for i
    by (simp add: mod_add_left_eq)
  have "d f = Some x"
    using ok f xs by (auto simp: slots_ok_def dest: spec [of _ 0])
  moreover have "d ((f + (i + 1)) mod N) = Some (ys ! i)" "(f + (i + 1)) mod N \<noteq> f" if "i < length ys" for i
    using that ok f xs ring_mod_zero [of f N "i + 1"] by (auto simp: slots_ok_def dest: spec [of _ "i + 1"])
  moreover have "\<exists>g' \<ge> length ys. g' < N \<and> t = (lf + g') mod N"
    using ok xs by (auto simp: slots_ok_def intro: Suc_leD)
  moreover have "\<exists>e' \<le> length ys. lt = (f + (e' + 1)) mod N"
    using e \<open>0 < e\<close> xs by (intro exI [of _ "e - 1"]) auto
  ultimately show ?thesis
    using ok f unfolding slots_ok_def shift by (simp add: xs)
qed

text \<open>The same facts on blocks.\<close>

lemma blk_repE:
  assumes "blk_rep b xs"
  obtains k where "1 \<le> k" "k < 64" "b_sizeMask b = mask k"
    "slots_ok (2 ^ k) (unat (b_front b)) (unat (b_localTail b)) (unat (b_tail b))
       (unat (b_localFront b)) (b_data b) xs"
  using assms by (auto simp: blk_rep_def)

lemma blk_repI:
  "1 \<le> k \<Longrightarrow> k < 64 \<Longrightarrow> b_sizeMask b = mask k \<Longrightarrow>
   slots_ok (2 ^ k) (unat (b_front b)) (unat (b_localTail b)) (unat (b_tail b))
     (unat (b_localFront b)) (b_data b) xs \<Longrightarrow> blk_rep b xs"
  by (auto simp: blk_rep_def)

lemma blk_rep_put:
  assumes "blk_rep b xs" and "(b_tail b + 1) AND b_sizeMask b \<noteq> b_localFront b"
  shows "blk_rep (b\<lparr>b_data := (b_data b)(unat (b_tail b) := Some x),
              b_tail := (b_tail b + 1) AND b_sizeMask b\<rparr>) (xs @ [x])"
  using assms(1)
proof (rule blk_repE)
  fix k
  assume k: "1 \<le> k" "k < 64" "b_sizeMask b = mask k"
    and ok: "slots_ok (2 ^ k) (unat (b_front b)) (unat (b_localTail b)) (unat (b_tail b))
       (unat (b_localFront b)) (b_data b) xs"
  have "(unat (b_tail b) + 1) mod 2 ^ k \<noteq> unat (b_localFront b)"
    using assms(2) k by (simp add: word_unat_eq_iff unat_ring_step)
  then show ?thesis
    using k slots_ok_put [OF ok] by (intro blk_repI [of k]) (simp_all add: unat_ring_step)
qed

lemma blk_rep_refresh_front: "blk_rep b xs \<Longrightarrow> blk_rep (b\<lparr>b_localFront := b_front b\<rparr>) xs"
  by (auto simp: blk_rep_def intro: slots_ok_refresh_front)

lemma blk_rep_refresh_tail: "blk_rep b xs \<Longrightarrow> blk_rep (b\<lparr>b_localTail := b_tail b\<rparr>) xs"
  by (auto simp: blk_rep_def intro: slots_ok_refresh_tail)

lemma blk_rep_empty: "blk_rep b xs \<Longrightarrow> b_front b = b_tail b \<longleftrightarrow> xs = []"
  by (elim blk_repE) (simp only: word_unat_eq_iff slots_ok_empty)

lemma blk_rep_get:
  assumes "blk_rep b xs" and "b_front b \<noteq> b_localTail b"
  shows "\<exists>x ys. xs = x # ys \<and> b_data b (unat (b_front b)) = Some x \<and>
     blk_rep (b\<lparr>b_data := (b_data b)(unat (b_front b) := None),
                b_front := (b_front b + 1) AND b_sizeMask b\<rparr>) ys"
  using assms(1)
proof (rule blk_repE)
  fix k
  assume k: "1 \<le> k" "k < 64" "b_sizeMask b = mask k"
    and ok: "slots_ok (2 ^ k) (unat (b_front b)) (unat (b_localTail b)) (unat (b_tail b))
       (unat (b_localFront b)) (b_data b) xs"
  obtain x ys where xs: "xs = x # ys" "b_data b (unat (b_front b)) = Some x"
    and ok': "slots_ok (2 ^ k) ((unat (b_front b) + 1) mod 2 ^ k) (unat (b_localTail b))
       (unat (b_tail b)) (unat (b_localFront b)) ((b_data b)(unat (b_front b) := None)) ys"
    using slots_ok_get [OF ok] assms(2) by (auto simp: word_unat_eq_iff)
  then have "blk_rep (b\<lparr>b_data := (b_data b)(unat (b_front b) := None),
                b_front := (b_front b + 1) AND b_sizeMask b\<rparr>) ys"
    using k ok' by (intro blk_repI [of k]) (simp_all add: unat_ring_step)
  then show ?thesis
    using xs by blast
qed

lemma unat_mask_u64: "k < 64 \<Longrightarrow> unat (mask k :: u64) = 2 ^ k - 1"
proof -
  assume "k < 64"
  then have "unat (take_bit k (- 1) :: u64) = take_bit k (unat (- 1 :: u64))"
    by (simp only: unsigned_take_bit_eq)
  also have "\<dots> = mask k"
    using \<open>k < 64\<close> by (simp add: unsigned_minus_1_eq_mask min_def)
  finally show ?thesis
    by (simp add: take_bit_minus_one_eq_mask mask_eq_exp_minus_1)
qed

lemma blk_rep_full:
  assumes "blk_rep b xs"
  shows "(b_tail b + 1) AND b_sizeMask b = b_front b \<longleftrightarrow> length xs = unat (b_sizeMask b)"
  using assms
proof (rule blk_repE)
  fix k
  assume k: "1 \<le> k" "k < 64" "b_sizeMask b = mask k"
    and ok: "slots_ok (2 ^ k) (unat (b_front b)) (unat (b_localTail b)) (unat (b_tail b))
       (unat (b_localFront b)) (b_data b) xs"
  have l: "length xs < 2 ^ k" and f: "unat (b_front b) < 2 ^ k"
    and t: "(unat (b_tail b) + 1) mod 2 ^ k = (unat (b_front b) + (length xs + 1)) mod 2 ^ k"
    using ok by (simp_all add: slots_ok_def mod_Suc_eq)
  have "(unat (b_front b) + (length xs + 1)) mod 2 ^ k = unat (b_front b) \<longleftrightarrow> length xs + 1 = 2 ^ k"
  proof (cases "length xs + 1 = 2 ^ k")
    case True
    then have "(unat (b_front b) + (length xs + 1)) mod 2 ^ k = (unat (b_front b) + 2 ^ k) mod 2 ^ k"
      by simp
    then show ?thesis
      using True f by simp
  next
    case False
    then show ?thesis
      using ring_mod_zero [OF f, of "length xs + 1"] l by simp
  qed
  then have "(unat (b_tail b) + 1) mod 2 ^ k = unat (b_front b) \<longleftrightarrow> length xs + 1 = 2 ^ k"
    by (simp only: t)
  moreover have "length xs + 1 = 2 ^ k \<longleftrightarrow> length xs = unat (b_sizeMask b)"
    using k by (auto simp: unat_mask_u64)
  ultimately show ?thesis
    using k by (simp add: word_unat_eq_iff [of _ "b_front b"] unat_ring_step)
qed

lemma blk_rep_make: "1 \<le> k \<Longrightarrow> k < 64 \<Longrightarrow> blk_rep (make_block (2 ^ k) nxt) []"
  by (rule blk_repI [of k])
    (auto simp: make_block_def slots_ok_def mask_eq_exp_minus_1 intro: exI [of _ 0])

lemma take_bit_diff_cong:
  fixes a b c :: "'a::len word"
  assumes "take_bit k a = take_bit k b"
  shows "take_bit k (a - c) = take_bit k (b - c)"
proof -
  have eq: "take_bit k (x - c) = of_int (take_bit k (uint (take_bit k x) - uint (take_bit k c)))"
    if "k \<le> LENGTH('a)" for x :: "'a word"
  proof -
    have "x - c = of_int (uint x - uint c)"
      by simp
    then have "take_bit k (x - c) = of_int (take_bit k (uint x - uint c))"
      by (simp only: of_int_take_bit)
    then show ?thesis
      by (simp add: unsigned_take_bit_eq take_bit_diff)
  qed
  show ?thesis
  proof (cases "k \<le> LENGTH('a)")
    case True
    then show ?thesis
      by (simp only: eq assms)
  next
    case False
    then show ?thesis
      using assms by (simp add: take_bit_word_eq_self)
  qed
qed

lemma blk_rep_size:
  assumes "blk_rep b xs"
  shows "(b_tail b - b_front b) AND b_sizeMask b = of_nat (length xs)"
  using assms
proof (rule blk_repE)
  fix k
  assume k: "1 \<le> k" "k < 64" "b_sizeMask b = mask k"
    and ok: "slots_ok (2 ^ k) (unat (b_front b)) (unat (b_localTail b)) (unat (b_tail b))
       (unat (b_localFront b)) (b_data b) xs"
  have "b_tail b = of_nat ((unat (b_front b) + length xs) mod 2 ^ k)"
    using ok by (metis of_nat_unat slots_ok_def ucast_id)
  also have "\<dots> = take_bit k (b_front b + of_nat (length xs))"
    by (simp add: of_nat_take_bit flip: take_bit_eq_mod)
  finally have "take_bit k (b_tail b) = take_bit k (b_front b + of_nat (length xs))"
    by simp
  then have "take_bit k (b_tail b - b_front b) = take_bit k (b_front b + of_nat (length xs) - b_front b)"
    by (rule take_bit_diff_cong)
  also have "\<dots> = of_nat (length xs)"
    using ok by (simp add: slots_ok_def take_bit_of_nat take_bit_nat_eq_self)
  finally show ?thesis
    using k by (simp add: take_bit_eq_mask)
qed


section \<open>The ring of blocks\<close>

text \<open>
  \<open>ps\<close> lists the blocks from the front block on, \<open>xss\<close> their contents. The blocks behind the front
  block up to the tail block hold elements, the blocks after the tail block are empty.
\<close>

definition ring_ok :: "'a rw_block list \<Rightarrow> nat list \<Rightarrow> bool" where
  "ring_ok h ps \<longleftrightarrow>
     ps \<noteq> [] \<and> distinct ps \<and> set ps = {..<length h} \<and>
     (\<forall>i < length ps. b_next (h ! (ps ! i)) = ps ! ((i + 1) mod length ps))"

definition ring_holds :: "'a rw_block list \<Rightarrow> nat list \<Rightarrow> 'a list list \<Rightarrow> bool" where
  "ring_holds h ps xss \<longleftrightarrow> list_all2 (\<lambda>p xs. blk_rep (h ! p) xs) ps xss"

definition ring_rep :: "'a rwq \<Rightarrow> nat list \<Rightarrow> nat \<Rightarrow> 'a list list \<Rightarrow> bool" where
  "ring_rep q ps t xss \<longleftrightarrow>
     ring_ok (q_heap q) ps \<and> ring_holds (q_heap q) ps xss \<and>
     q_frontBlock q = ps ! 0 \<and> t < length ps \<and> q_tailBlock q = ps ! t \<and>
     (\<forall>i. t < i \<and> i < length ps \<longrightarrow> xss ! i = []) \<and>
     (\<forall>i. 0 < i \<and> i \<le> t \<longrightarrow> xss ! i \<noteq> []) \<and>
     (\<exists>k. 1 \<le> k \<and> k < 63 \<and> q_largestBlockSize q = 2 ^ k)"

definition rwq_rep :: "'a rwq \<Rightarrow> 'a list \<Rightarrow> bool" where
  "rwq_rep q xs \<longleftrightarrow> (\<exists>ps t xss. ring_rep q ps t xss \<and> xs = concat xss)"

lemma ring_ok_bound: "ring_ok h ps \<Longrightarrow> i < length ps \<Longrightarrow> ps ! i < length h"
  using nth_mem unfolding ring_ok_def by blast

lemma ring_ok_upd:
  assumes ok: "ring_ok h ps" and i: "i < length ps" and next_same: "b_next b' = b_next (h ! (ps ! i))"
  shows "ring_ok (h[ps ! i := b']) ps"
proof -
  have "b_next (h[ps ! i := b'] ! p) = b_next (h ! p)" if "p < length h" for p
    using that next_same by (cases "p = ps ! i") auto
  then show ?thesis
    using ok ring_ok_bound [OF ok] by (simp add: ring_ok_def)
qed

lemma ring_holds_upd:
  assumes ok: "ring_ok h ps" and holds: "ring_holds h ps xss" and i: "i < length ps" and b: "blk_rep b' ys"
  shows "ring_holds (h[ps ! i := b']) ps (xss[i := ys])"
proof -
  have "distinct ps"
    using ok by (simp add: ring_ok_def)
  then have "h[ps ! i := b'] ! (ps ! j) = (if j = i then b' else h ! (ps ! j))" if "j < length ps" for j
    using that i ring_ok_bound [OF ok] by (auto simp: nth_eq_iff_index_eq)
  then show ?thesis
    using holds b unfolding ring_holds_def list_all2_conv_all_nth
    by (auto simp: nth_list_update)
qed

lemma ring_holds_nth: "ring_holds h ps xss \<Longrightarrow> i < length ps \<Longrightarrow> blk_rep (h ! (ps ! i)) (xss ! i)"
  by (simp add: ring_holds_def list_all2_conv_all_nth)

lemma ring_holds_length: "ring_holds h ps xss \<Longrightarrow> length xss = length ps"
  by (simp add: ring_holds_def list_all2_lengthD [symmetric])

text \<open>Replacing one block by one with the same successor that holds \<open>ys\<close>.\<close>

lemma ring_rep_upd:
  assumes rep: "ring_rep q ps t xss" and i: "i < length ps" and b: "blk_rep (f (blk_at q (ps ! i))) ys"
    and nx: "\<And>b. b_next (f b) = b_next b"
    and before: "i \<le> t \<Longrightarrow> 0 < i \<Longrightarrow> ys \<noteq> []" and after: "t < i \<Longrightarrow> ys = []"
  shows "ring_rep (upd_blk (ps ! i) f q) ps t (xss[i := ys])"
  using assms ring_holds_length [of "q_heap q" ps xss]
  unfolding ring_rep_def upd_blk_def blk_at_def
  by (auto simp: nth_list_update intro: ring_ok_upd ring_holds_upd)

lemma ring_rep_next:
  assumes rep: "ring_rep q ps t xss" and i: "i < length ps"
  shows "b_next (blk_at q (ps ! i)) = ps ! ((i + 1) mod length ps)"
  using rep i by (simp add: ring_rep_def ring_ok_def blk_at_def)

lemma ring_rep_blk: "ring_rep q ps t xss \<Longrightarrow> i < length ps \<Longrightarrow> blk_rep (blk_at q (ps ! i)) (xss ! i)"
  by (simp add: ring_rep_def blk_at_def ring_holds_nth)

lemma ring_rep_same_idx:
  assumes "ring_rep q ps t xss" and "i < length ps" and "j < length ps"
  shows "ps ! i = ps ! j \<longleftrightarrow> i = j"
  using assms by (simp add: ring_rep_def ring_ok_def nth_eq_iff_index_eq)

lemma blk_at_upd:
  assumes rep: "ring_rep q ps t xss" and i: "i < length ps" and j: "j < length ps"
  shows "blk_at (upd_blk (ps ! i) f q) (ps ! j)
     = (if i = j then f (blk_at q (ps ! j)) else blk_at q (ps ! j))"
proof -
  have "ps ! i < length (q_heap q)"
    using rep i by (auto simp: ring_rep_def dest: ring_ok_bound)
  then show ?thesis
    using ring_rep_same_idx [OF rep i j] by (auto simp: blk_at_def upd_blk_def)
qed

lemma upd_blk_fields [simp]:
  "q_frontBlock (upd_blk p f q) = q_frontBlock q" "q_tailBlock (upd_blk p f q) = q_tailBlock q"
  "q_largestBlockSize (upd_blk p f q) = q_largestBlockSize q"
  by (simp_all add: upd_blk_def)

lemma ring_rep_refresh_tail:
  assumes rep: "ring_rep q ps t xss" and i: "i < length ps"
  shows "ring_rep (refresh_tail (ps ! i) q) ps t xss"
proof -
  have "ring_rep (upd_blk (ps ! i) (\<lambda>b. b\<lparr>b_localTail := b_tail b\<rparr>) q) ps t (xss[i := xss ! i])"
    using rep i
    by (intro ring_rep_upd [OF rep i] blk_rep_refresh_tail ring_rep_blk [OF rep i])
      (auto simp: ring_rep_def)
  then show ?thesis
    by (simp add: refresh_tail_def)
qed

lemma ring_rep_refresh_front:
  assumes rep: "ring_rep q ps t xss" and i: "i < length ps"
  shows "ring_rep (refresh_front (ps ! i) q) ps t xss"
proof -
  have "ring_rep (upd_blk (ps ! i) (\<lambda>b. b\<lparr>b_localFront := b_front b\<rparr>) q) ps t (xss[i := xss ! i])"
    using rep i
    by (intro ring_rep_upd [OF rep i] blk_rep_refresh_front ring_rep_blk [OF rep i])
      (auto simp: ring_rep_def)
  then show ?thesis
    by (simp add: refresh_front_def)
qed

text \<open>Dequeuing from the front block.\<close>

lemma ring_rep_deq:
  assumes rep: "ring_rep q ps t xss" and ne: "b_front (blk_at q (ps ! 0)) \<noteq> b_localTail (blk_at q (ps ! 0))"
  shows "\<exists>x ys q'. xss ! 0 = x # ys \<and> deq_from (ps ! 0) q = Inr (Some x, q') \<and>
     ring_rep q' ps t (xss[0 := ys])"
proof -
  have i: "0 < length ps"
    using rep by (auto simp: ring_rep_def)
  obtain x ys where x: "xss ! 0 = x # ys"
      "b_data (blk_at q (ps ! 0)) (unat (b_front (blk_at q (ps ! 0)))) = Some x"
    and b: "blk_rep ((blk_at q (ps ! 0))\<lparr>b_data := (b_data (blk_at q (ps ! 0)))(unat (b_front (blk_at q (ps ! 0))) := None),
                b_front := (b_front (blk_at q (ps ! 0)) + 1) AND b_sizeMask (blk_at q (ps ! 0))\<rparr>) ys"
    using blk_rep_get [OF ring_rep_blk [OF rep i] ne] by blast
  let ?f = "\<lambda>b. b\<lparr>b_data := (b_data b)(unat (b_front (blk_at q (ps ! 0))) := None),
                b_front := (b_front b + 1) AND b_sizeMask b\<rparr>"
  have "ring_rep (upd_blk (ps ! 0) ?f q) ps t (xss[0 := ys])"
    using b by (intro ring_rep_upd [OF rep i]) auto
  then show ?thesis
    using x by (simp add: deq_from_def)
qed

lemma concat_upd_hd: "xss ! 0 = x # ys \<Longrightarrow> xss \<noteq> [] \<Longrightarrow> concat xss = x # concat (xss[0 := ys])"
  by (cases xss) auto

text \<open>When the front block is empty and is not the tail block, the front advances.\<close>

lemma ring_rep_advance:
  assumes rep: "ring_rep q ps t xss" and t: "0 < t" and e: "xss ! 0 = []"
  shows "ring_rep (q\<lparr>q_frontBlock := ps ! 1\<rparr>) (rotate1 ps) (t - 1) (rotate1 xss)"
    and "concat (rotate1 xss) = concat xss" and "rotate1 ps ! 0 = ps ! 1"
proof -
  have "1 < length ps"
    using rep t by (simp add: ring_rep_def)
  then obtain p ps' where ps: "ps = p # ps'" "ps' \<noteq> []"
    by (cases ps) auto
  obtain xss' where xss: "xss = [] # xss'" "length xss' = length ps'"
    using rep e ps ring_holds_length [of "q_heap q" ps xss] by (cases xss) (auto simp: ring_rep_def)
  show "concat (rotate1 xss) = concat xss"
    by (simp add: xss)
  show hd: "rotate1 ps ! 0 = ps ! 1"
    using ps by (simp add: nth_append)
  have "b_next (q_heap q ! (rotate1 ps ! i)) = rotate1 ps ! ((i + 1) mod length ps)" if i: "i < length ps" for i
  proof -
    have "rotate1 ps ! i = ps ! (Suc i mod length ps)"
      using i by (rule nth_rotate1)
    moreover have "Suc i mod length ps < length ps"
      using i by (intro mod_less_divisor) auto
    then have "b_next (q_heap q ! (ps ! (Suc i mod length ps))) = ps ! (Suc (Suc i mod length ps) mod length ps)"
      using rep by (auto simp: ring_rep_def ring_ok_def)
    moreover have "rotate1 ps ! (Suc i mod length ps) = ps ! (Suc (Suc i mod length ps) mod length ps)"
      using \<open>Suc i mod length ps < length ps\<close> by (rule nth_rotate1)
    ultimately show ?thesis
      by simp
  qed
  then have "ring_ok (q_heap q) (rotate1 ps)"
    using rep by (auto simp: ring_rep_def ring_ok_def)
  moreover have "ring_holds (q_heap q) (rotate1 ps) (rotate1 xss)"
    using rep by (simp add: ring_rep_def ring_holds_def ps xss list_all2_appendI)
  moreover have "rotate1 ps ! (t - 1) = ps ! t"
    using rep t nth_rotate1 [of "t - 1" ps] by (auto simp: ring_rep_def)
  moreover have "length xss = length ps"
    by (simp add: ps xss)
  then have nth: "rotate1 xss ! i = xss ! (Suc i mod length ps)" if "i < length ps" for i
    using that nth_rotate1 [of i xss] by simp
  have "rotate1 xss ! i = []" if "t - 1 < i" "i < length ps" for i
    using that rep e by (cases "Suc i = length ps") (simp_all add: nth ring_rep_def)
  moreover have "rotate1 xss ! i \<noteq> []" if "0 < i" "i \<le> t - 1" for i
  proof -
    have "t < length ps"
      using rep by (simp add: ring_rep_def)
    then have "Suc i < length ps" "Suc i \<le> t"
      using that t by linarith+
    then show ?thesis
      using rep by (simp add: nth ring_rep_def)
  qed
  moreover have "t - 1 < length ps"
    using rep t by (auto simp: ring_rep_def)
  ultimately show "ring_rep (q\<lparr>q_frontBlock := ps ! 1\<rparr>) (rotate1 ps) (t - 1) (rotate1 xss)"
    using rep t hd by (simp add: ring_rep_def)
qed


section \<open>The operations refine a list\<close>

lemma ring_rep_len: "ring_rep q ps t xss \<Longrightarrow> 0 < length ps \<and> t < length ps \<and> xss \<noteq> []"
  using ring_holds_length [of "q_heap q" ps xss] by (auto simp: ring_rep_def)

lemma ring_rep_ptrs: "ring_rep q ps t xss \<Longrightarrow> q_frontBlock q = ps ! 0 \<and> q_tailBlock q = ps ! t"
  by (simp add: ring_rep_def)

lemma refresh_fields [simp]:
  "q_frontBlock (refresh_tail p q) = q_frontBlock q" "q_tailBlock (refresh_tail p q) = q_tailBlock q"
  "q_frontBlock (refresh_front p q) = q_frontBlock q" "q_tailBlock (refresh_front p q) = q_tailBlock q"
  by (simp_all add: refresh_tail_def refresh_front_def)

lemma blk_at_refresh_tail:
  "ring_rep q ps t xss \<Longrightarrow> i < length ps \<Longrightarrow>
   blk_at (refresh_tail (ps ! i) q) (ps ! i) = (blk_at q (ps ! i))\<lparr>b_localTail := b_tail (blk_at q (ps ! i))\<rparr>"
  by (simp add: refresh_tail_def blk_at_upd)

lemma blk_at_refresh_front:
  "ring_rep q ps t xss \<Longrightarrow> i < length ps \<Longrightarrow>
   blk_at (refresh_front (ps ! i) q) (ps ! i) = (blk_at q (ps ! i))\<lparr>b_localFront := b_front (blk_at q (ps ! i))\<rparr>"
  by (simp add: refresh_front_def blk_at_upd)

lemma ring_rep_all_empty:
  assumes rep: "ring_rep q ps 0 xss" and e: "xss ! 0 = []"
  shows "concat xss = []"
proof -
  have "length xss = length ps"
    using rep by (auto simp: ring_rep_def dest: ring_holds_length)
  then have "xss ! i = []" if "i < length xss" for i
    using that rep e by (cases i) (auto simp: ring_rep_def)
  then show ?thesis
    by (auto simp: in_set_conv_nth)
qed

lemma deq_result:
  assumes rep: "ring_rep q ps t xss" and xs: "xs = concat xss"
    and ne: "b_front (blk_at q (ps ! 0)) \<noteq> b_localTail (blk_at q (ps ! 0))"
  shows "\<exists>x ys q'. xs = x # ys \<and> deq_from (ps ! 0) q = Inr (Some x, q') \<and> rwq_rep q' ys"
proof -
  obtain x ys q' where d: "xss ! 0 = x # ys" "deq_from (ps ! 0) q = Inr (Some x, q')"
      "ring_rep q' ps t (xss[0 := ys])"
    using ring_rep_deq [OF rep ne] by blast
  then have "rwq_rep q' (concat (xss[0 := ys]))"
    unfolding rwq_rep_def by blast
  moreover have "xs = x # concat (xss[0 := ys])"
    using d(1) xs ring_rep_len [OF rep] by (simp add: concat_upd_hd)
  ultimately show ?thesis
    using d(2) by blast
qed

lemma try_dequeue_cons:
  assumes "rwq_rep q (x # xs)"
  shows "\<exists>q'. try_dequeue q = Inr (Some x, q') \<and> rwq_rep q' xs"
proof -
  obtain ps t xss where rep: "ring_rep q ps t xss" and xs: "x # xs = concat xss"
    using assms by (auto simp: rwq_rep_def)
  note len = ring_rep_len [OF rep] and ptr = ring_rep_ptrs [OF rep]
  let ?p = "ps ! 0" and ?q1 = "refresh_tail (ps ! 0) q"
  let ?b = "blk_at q ?p"
  have rep1: "ring_rep ?q1 ps t xss"
    using ring_rep_refresh_tail [OF rep, of 0] len by blast
  have b1: "blk_at ?q1 ?p = ?b\<lparr>b_localTail := b_tail ?b\<rparr>"
    using blk_at_refresh_tail [OF rep] len by blast
  consider (a) "b_front ?b \<noteq> b_localTail ?b" | (b) "b_front ?b = b_localTail ?b" "b_front ?b \<noteq> b_tail ?b"
    | (c) "b_front ?b = b_localTail ?b" "b_front ?b = b_tail ?b"
    by blast
  then show ?thesis
  proof cases
    case a
    then show ?thesis
      using deq_result [OF rep xs] ptr by (auto simp: try_dequeue_def)
  next
    case b
    then show ?thesis
      using deq_result [OF rep1 xs] ptr b1 by (auto simp: try_dequeue_def)
  next
    case c
    have e: "xss ! 0 = []"
      using c len blk_rep_empty [OF ring_rep_blk [OF rep, of 0]] by simp
    then have t: "0 < t"
      using ring_rep_all_empty [of q ps xss] rep xs by (metis gr0I list.distinct(1))
    have l1: "1 < length ps"
      using t len by simp
    let ?q2 = "refresh_tail ?p ?q1" and ?q3 = "refresh_tail (ps ! 1) (refresh_tail ?p ?q1)"
    have rep2: "ring_rep ?q2 ps t xss"
      using ring_rep_refresh_tail [OF rep1, of 0] len by blast
    have rep3: "ring_rep ?q3 ps t xss"
      using ring_rep_refresh_tail [OF rep2 l1] .
    have b2: "blk_at ?q2 ?p = ?b\<lparr>b_localTail := b_tail ?b\<rparr>"
      using blk_at_refresh_tail [OF rep1] len b1 by simp
    have nx: "b_next ?b = ps ! 1"
      using ring_rep_next [OF rep, of 0] l1 len by simp
    have b3: "blk_at ?q3 (ps ! 1) = (blk_at ?q2 (ps ! 1))\<lparr>b_localTail := b_tail (blk_at ?q2 (ps ! 1))\<rparr>"
      using blk_at_refresh_tail [OF rep2 l1] .
    have ne: "b_front (blk_at ?q3 (ps ! 1)) \<noteq> b_localTail (blk_at ?q3 (ps ! 1))"
      using blk_rep_empty [OF ring_rep_blk [OF rep3 l1]] b3 rep t by (simp add: ring_rep_def)
    note adv = ring_rep_advance [OF rep3 t e]
    have "\<exists>q'. deq_from (ps ! 1) (?q3\<lparr>q_frontBlock := ps ! 1\<rparr>) = Inr (Some x, q') \<and> rwq_rep q' xs"
      using deq_result [OF adv(1), unfolded adv(2,3), OF xs] ne by (simp add: blk_at_def)
    moreover have "?p \<noteq> ps ! t"
      using ring_rep_same_idx [OF rep, of 0 t] len t by simp
    ultimately show ?thesis
      using c ptr b2 nx ne by (simp add: try_dequeue_def Let_def)
  qed
qed

lemma try_dequeue_nil:
  assumes "rwq_rep q []"
  shows "\<exists>q'. try_dequeue q = Inr (None, q') \<and> rwq_rep q' []"
proof -
  obtain ps t xss where rep: "ring_rep q ps t xss" and xs: "concat xss = []"
    using assms by (auto simp: rwq_rep_def)
  note len = ring_rep_len [OF rep] and ptr = ring_rep_ptrs [OF rep]
  have l: "length xss = length ps"
    using rep by (auto simp: ring_rep_def dest: ring_holds_length)
  then have all: "xss ! i = []" if "i < length ps" for i
    using that xs by simp
  have t: "t = 0"
    using rep all [of t] len by (cases t) (auto simp: ring_rep_def)
  have "b_front (blk_at q (ps ! 0)) = b_tail (blk_at q (ps ! 0))"
    using blk_rep_empty [OF ring_rep_blk [OF rep, of 0]] all len by simp
  moreover have "b_front (blk_at q (ps ! 0)) = b_localTail (blk_at q (ps ! 0))"
    using blk_rep_get [OF ring_rep_blk [OF rep, of 0]] all len by fastforce
  moreover have "rwq_rep (refresh_tail (ps ! 0) q) []"
    using ring_rep_refresh_tail [OF rep, of 0] len xs unfolding rwq_rep_def by metis
  ultimately show ?thesis
    using ptr t by (simp add: try_dequeue_def Let_def)
qed


text \<open>The block sizes, which only an allocating \<open>enqueue\<close> changes.\<close>

definition masks :: "'a rwq \<Rightarrow> u64 list" where
  "masks q = map b_sizeMask (q_heap q)"

lemma masks_upd [simp]: "(\<And>b. b_sizeMask (f b) = b_sizeMask b) \<Longrightarrow> masks (upd_blk p f q) = masks q"
  by (cases "p < length (q_heap q)")
    (simp_all add: masks_def upd_blk_def map_update list_update_same_conv list_update_beyond)

lemma masks_refresh [simp]:
  "masks (refresh_tail p q) = masks q" "masks (refresh_front p q) = masks q" "masks (put_elem p x q) = masks q"
  by (simp_all add: refresh_tail_def refresh_front_def put_elem_def)

lemma masks_ptr [simp]: "masks (q\<lparr>q_frontBlock := p\<rparr>) = masks q" "masks (q\<lparr>q_tailBlock := p\<rparr>) = masks q"
  by (simp_all add: masks_def)

lemma masks_deq_from: "deq_from p q = Inr (r, q') \<Longrightarrow> masks q' = masks q"
  by (auto simp: deq_from_def Let_def split: option.splits)

lemma masks_try_dequeue: "try_dequeue q = Inr (r, q') \<Longrightarrow> masks q' = masks q"
  by (auto simp: try_dequeue_def Let_def split: if_splits dest!: masks_deq_from)

lemma masks_try_enqueue: "try_enqueue x q = Inr (r, q') \<Longrightarrow> masks q' = masks q"
  by (auto simp: try_enqueue_def inner_enqueue_def Let_def split: if_splits)

text \<open>Enqueuing into a block with room at the tail position.\<close>

lemma concat_upd_last:
  assumes "t < length xss" and "\<And>i. t < i \<Longrightarrow> i < length xss \<Longrightarrow> xss ! i = []"
  shows "concat (xss[t := xss ! t @ [x]]) = concat xss @ [x]"
proof -
  have "\<forall>ys \<in> set (drop (Suc t) xss). ys = []"
    using assms by (auto simp: in_set_conv_nth)
  then have "concat (drop (Suc t) xss) = []"
    by simp
  moreover have "concat xss = concat (take t xss) @ xss ! t @ concat (drop (Suc t) xss)"
    by (subst id_take_nth_drop [OF assms(1)]) simp
  ultimately show ?thesis
    using assms(1) by (simp only: upd_conv_take_nth_drop) simp
qed

lemma put_result:
  assumes rep: "ring_rep q ps t xss"
    and room: "(b_tail (blk_at q (ps ! t)) + 1) AND b_sizeMask (blk_at q (ps ! t)) \<noteq> b_localFront (blk_at q (ps ! t))"
  shows "rwq_rep (put_elem (ps ! t) x q) (concat xss @ [x])"
proof -
  have t: "t < length ps" and l: "length xss = length ps"
    using rep ring_holds_length by (auto simp: ring_rep_def)
  have "ring_rep (put_elem (ps ! t) x q) ps t (xss[t := xss ! t @ [x]])"
    unfolding put_elem_def
    using blk_rep_put [OF ring_rep_blk [OF rep t] room] by (intro ring_rep_upd [OF rep t]) simp_all
  moreover have "concat (xss[t := xss ! t @ [x]]) = concat xss @ [x]"
    using rep t l by (intro concat_upd_last) (auto simp: ring_rep_def)
  ultimately show ?thesis
    unfolding rwq_rep_def by metis
qed

text \<open>The tail moves to the next block, which is empty and does not hold the front.\<close>

lemma put_next_result:
  assumes rep: "ring_rep q ps t xss" and t: "Suc t < length ps"
    and lf: "b_localFront (blk_at q (ps ! Suc t)) = b_tail (blk_at q (ps ! Suc t))"
  shows "rwq_rep ((put_elem (ps ! Suc t) x q)\<lparr>q_tailBlock := ps ! Suc t\<rparr>) (concat xss @ [x])"
proof -
  let ?b = "blk_at q (ps ! Suc t)"
  have l: "length xss = length ps" and e: "xss ! Suc t = []"
    using rep t ring_holds_length by (auto simp: ring_rep_def)
  have b: "blk_rep ?b []"
    using ring_rep_blk [OF rep t] e by simp
  have "(b_tail ?b + 1) AND b_sizeMask ?b \<noteq> b_localFront ?b"
    using b
  proof (rule blk_repE)
    fix k
    assume k: "1 \<le> k" "k < 64" "b_sizeMask ?b = mask k"
      and ok: "slots_ok (2 ^ k) (unat (b_front ?b)) (unat (b_localTail ?b)) (unat (b_tail ?b))
         (unat (b_localFront ?b)) (b_data ?b) []"
    have "(1::nat) < 2 ^ k"
      using k by (intro one_less_power) simp_all
    then have "(unat (b_tail ?b) + 1) mod 2 ^ k \<noteq> unat (b_tail ?b)"
      using ok ring_mod_zero [of "unat (b_tail ?b)" "2 ^ k" 1] by (simp add: slots_ok_def)
    then show ?thesis
      unfolding lf using k by (simp add: word_unat_eq_iff [of _ "b_tail ?b"] unat_ring_step)
  qed
  then have b': "blk_rep (?b\<lparr>b_data := (b_data ?b)(unat (b_tail ?b) := Some x),
              b_tail := (b_tail ?b + 1) AND b_sizeMask ?b\<rparr>) [x]"
    using blk_rep_put [OF b] by simp
  have ok: "ring_ok (q_heap q) ps" and holds: "ring_holds (q_heap q) ps xss"
    using rep by (simp_all add: ring_rep_def)
  let ?h = "(q_heap q)[ps ! Suc t := ?b\<lparr>b_data := (b_data ?b)(unat (b_tail ?b) := Some x),
              b_tail := (b_tail ?b + 1) AND b_sizeMask ?b\<rparr>]"
  have "ring_ok ?h ps"
    by (rule ring_ok_upd [OF ok t]) (simp add: blk_at_def)
  moreover have "ring_holds ?h ps (xss[Suc t := [x]])"
    by (rule ring_holds_upd [OF ok holds t b'])
  ultimately have "ring_rep ((put_elem (ps ! Suc t) x q)\<lparr>q_tailBlock := ps ! Suc t\<rparr>) ps (Suc t) (xss[Suc t := [x]])"
    using rep t l by (simp add: ring_rep_def put_elem_def upd_blk_def blk_at_def nth_list_update)
  moreover have "concat (xss[Suc t := xss ! Suc t @ [x]]) = concat xss @ [x]"
    using rep t l by (intro concat_upd_last) (auto simp: ring_rep_def)
  ultimately show ?thesis
    using e unfolding rwq_rep_def by (metis append_Nil)
qed


text \<open>A new block with one element goes in behind a tail block whose successor is the front.\<close>

lemma blk_rep_first:
  assumes "1 \<le> k" and "k < 64"
  shows "blk_rep ((make_block (2 ^ k) nxt)\<lparr>b_data := (\<lambda>_. None)(0 := Some x), b_tail := 1, b_localTail := 1\<rparr>) [x]"
proof -
  have "(1::nat) < 2 ^ k"
    using assms by (intro one_less_power) simp_all
  then show ?thesis
    using assms by (intro blk_repI [of k])
      (auto simp: make_block_def slots_ok_def mask_eq_exp_minus_1 intro: exI [of _ 1])
qed

definition insert_block :: "nat \<Rightarrow> 'a rw_block \<Rightarrow> 'a rw_block list \<Rightarrow> 'a rw_block list" where
  "insert_block p nb h = (h @ [nb])[p := (h ! p)\<lparr>b_next := length h\<rparr>]"

lemma ring_ok_insert:
  assumes ok: "ring_ok h ps" and nx: "b_next nb = ps ! 0"
  shows "ring_ok (insert_block (ps ! (length ps - 1)) nb h) (ps @ [length h])"
proof -
  let ?l = "length ps - 1" and ?h = "insert_block (ps ! (length ps - 1)) nb h"
  have ne: "ps \<noteq> []" and d: "distinct ps" and set: "set ps = {..<length h}"
    using ok by (simp_all add: ring_ok_def)
  have l: "?l < length ps"
    using ne by simp
  have bound: "\<And>i. i < length ps \<Longrightarrow> ps ! i < length h"
    using ring_ok_bound [OF ok] .
  have blk: "?h ! (ps ! i) = (if i = ?l then (h ! (ps ! i))\<lparr>b_next := length h\<rparr> else h ! (ps ! i))"
    if i: "i < length ps" for i
    using bound [OF i] bound [OF l] i l d
    by (auto simp: insert_block_def nth_append nth_list_update nth_eq_iff_index_eq)
  have last: "?h ! length h = nb"
    using bound [OF l] by (auto simp: insert_block_def nth_append nth_list_update)
  have "b_next (?h ! ((ps @ [length h]) ! i)) = (ps @ [length h]) ! ((i + 1) mod length (ps @ [length h]))"
    if "i < length (ps @ [length h])" for i
  proof (cases "i = length ps")
    case True
    then show ?thesis
      using last nx ne by (simp add: nth_append)
  next
    case False
    then have i: "i < length ps"
      using that by simp
    show ?thesis
    proof (cases "i = ?l")
      case True
      then have "Suc i = length ps"
        using i by simp
      then show ?thesis
        using True i blk [OF i] by (simp add: nth_append)
    next
      case False
      then have "Suc i < length ps"
        using i by linarith
      then show ?thesis
        using i False blk [OF i] ok by (simp add: nth_append ring_ok_def)
    qed
  qed
  then show ?thesis
    using set d by (auto simp: ring_ok_def insert_block_def)
qed

lemma ring_holds_insert:
  assumes ok: "ring_ok h ps" and holds: "ring_holds h ps xss" and nb: "blk_rep nb ys"
  shows "ring_holds (insert_block (ps ! (length ps - 1)) nb h) (ps @ [length h]) (xss @ [ys])"
proof -
  have "length ps - 1 < length ps"
    using ok by (simp add: ring_ok_def)
  note l = ring_ok_bound [OF ok this]
  have "blk_rep (insert_block (ps ! (length ps - 1)) nb h ! p) zs" if "p < length h" "blk_rep (h ! p) zs" for p zs
    using that by (cases "p = ps ! (length ps - 1)") (auto simp: insert_block_def nth_append blk_rep_def)
  then have "ring_holds (insert_block (ps ! (length ps - 1)) nb h) ps xss"
    using holds ring_ok_bound [OF ok] by (simp add: ring_holds_def list_all2_conv_all_nth)
  moreover have "insert_block (ps ! (length ps - 1)) nb h ! length h = nb"
    using l by (simp add: insert_block_def nth_append)
  ultimately show ?thesis
    using nb by (simp add: ring_holds_def list_all2_appendI)
qed

lemma alloc_result:
  assumes rep: "ring_rep q ps (length ps - 1) xss" and k: "1 \<le> k" "k < 63"
    and q': "q' = q\<lparr>q_heap := insert_block (ps ! (length ps - 1))
          ((make_block (2 ^ k) (ps ! 0))\<lparr>b_data := (\<lambda>_. None)(0 := Some x), b_tail := 1, b_localTail := 1\<rparr>) (q_heap q),
        q_largestBlockSize := 2 ^ k, q_tailBlock := length (q_heap q)\<rparr>"
  shows "rwq_rep q' (concat xss @ [x])"
proof -
  have ok: "ring_ok (q_heap q) ps" and holds: "ring_holds (q_heap q) ps xss" and ne: "ps \<noteq> []"
    using rep by (auto simp: ring_rep_def)
  note l = ring_holds_length [OF holds]
  have "ring_rep q' (ps @ [length (q_heap q)]) (length ps) (xss @ [[x]])"
    using rep k l ne ring_ok_insert [OF ok] ring_holds_insert [OF ok holds blk_rep_first [of k]]
    by (auto simp: ring_rep_def q' nth_append make_block_def)
  then show ?thesis
    unfolding rwq_rep_def by (intro exI conjI) auto
qed

lemma grown_block_size:
  assumes "1 \<le> k" and "k < 63"
  obtains k' where "1 \<le> k'" "k' < 63"
    "(if (2 ^ k :: u64) \<ge> MAX_BLOCK_SIZE then 2 ^ k else 2 ^ k * 2) = (2 ^ k' :: u64)"
proof (cases "(2 ^ k :: u64) \<ge> MAX_BLOCK_SIZE")
  case True
  then show ?thesis
    using assms that [of k] by simp
next
  case False
  have "unat (2 ^ k :: u64) = 2 ^ k"
    using assms unat_of_nat_u64 [of "2 ^ k"] power_strict_increasing [of k 64 "2 :: nat"] by simp
  then have "(2::nat) ^ k < 2 ^ 9"
    using False by (simp add: MAX_BLOCK_SIZE_def not_le word_less_nat_alt)
  then have "k < 9"
    by (simp only: power_strict_increasing_iff one_less_numeral_iff semiring_norm)
  then show ?thesis
    using False assms that [of "Suc k"] by (simp add: mult.commute)
qed

lemma inner_enqueue_rep:
  assumes "rwq_rep q xs"
  shows "\<exists>r q'. inner_enqueue ca ok x q = Inr (r, q') \<and> rwq_rep q' (if r then xs @ [x] else xs) \<and>
     (ca \<and> ok \<longrightarrow> r)"
proof -
  obtain ps t xss where rep: "ring_rep q ps t xss" and xs: "xs = concat xss"
    using assms by (auto simp: rwq_rep_def)
  note len = ring_rep_len [OF rep] and ptr = ring_rep_ptrs [OF rep]
  let ?p = "ps ! t" and ?q1 = "refresh_front (ps ! t) q"
  let ?b = "blk_at q ?p" and ?n = "b_next (blk_at q (ps ! t))"
  let ?nt = "(b_tail ?b + 1) AND b_sizeMask ?b"
  have rep1: "ring_rep ?q1 ps t xss"
    using ring_rep_refresh_front [OF rep] len by blast
  have b1: "blk_at ?q1 ?p = ?b\<lparr>b_localFront := b_front ?b\<rparr>"
    using blk_at_refresh_front [OF rep] len by blast
  have n: "?n = ps ! (Suc t mod length ps)"
    using ring_rep_next [OF rep] len by simp
  consider (a) "?nt \<noteq> b_localFront ?b" | (b) "?nt = b_localFront ?b" "?nt \<noteq> b_front ?b"
    | (c) "?nt = b_localFront ?b" "?nt = b_front ?b" "Suc t < length ps"
    | (d) "?nt = b_localFront ?b" "?nt = b_front ?b" "t = length ps - 1"
    using len by linarith
  moreover have accepted: ?thesis
    if "inner_enqueue ca ok x q = Inr (True, q')" "rwq_rep q' (concat xss @ [x])" for q'
    using that xs by (intro exI [of _ True] exI [of _ q']) simp
  ultimately show ?thesis
  proof cases
    case a
    then show ?thesis
      using put_result [OF rep] ptr by (intro accepted) (simp_all add: inner_enqueue_def Let_def)
  next
    case b
    then show ?thesis
      using put_result [OF rep1] b1 ptr by (intro accepted) (simp_all add: inner_enqueue_def Let_def)
  next
    case c
    let ?q2 = "refresh_front (ps ! Suc t) ?q1"
    have rep2: "ring_rep ?q2 ps t xss"
      using ring_rep_refresh_front [OF rep1] c by blast
    have e: "xss ! Suc t = []"
      using rep c by (auto simp: ring_rep_def)
    have lf: "b_localFront (blk_at ?q2 (ps ! Suc t)) = b_tail (blk_at ?q2 (ps ! Suc t))"
      using blk_at_refresh_front [OF rep1 c(3)] blk_rep_empty [OF ring_rep_blk [OF rep1 c(3)]] e by simp
    have "ps ! Suc t \<noteq> ps ! 0"
      using ring_rep_same_idx [OF rep c(3), of 0] len by simp
    then show ?thesis
      using put_next_result [OF rep2 c(3) lf] c n lf ptr
      by (intro accepted) (simp_all add: inner_enqueue_def Let_def)
  next
    case d
    obtain k where k: "1 \<le> k" "k < 63" "q_largestBlockSize q = 2 ^ k"
      using rep by (auto simp: ring_rep_def)
    have l1: "q_largestBlockSize ?q1 = q_largestBlockSize q"
      by (simp add: refresh_front_def)
    obtain k' where k': "1 \<le> k'" "k' < 63"
        "(if q_largestBlockSize ?q1 \<ge> MAX_BLOCK_SIZE then q_largestBlockSize ?q1
          else q_largestBlockSize ?q1 * 2) = 2 ^ k'"
      using grown_block_size [OF k(1,2)] unfolding l1 k(3) by blast
    have n0: "?n = ps ! 0"
      using n d len by simp
    have p: "?p < length (q_heap ?q1)"
      using rep1 len by (auto simp: ring_rep_def dest: ring_ok_bound)
    let ?nb = "(make_block (2 ^ k') (ps ! 0))\<lparr>b_data := (\<lambda>_. None)(0 := Some x), b_tail := 1, b_localTail := 1\<rparr>"
    have "(upd_blk ?p (\<lambda>b. b\<lparr>b_next := length (q_heap ?q1)\<rparr>)
            (?q1\<lparr>q_heap := q_heap ?q1 @ [?nb], q_largestBlockSize := 2 ^ k'\<rparr>))
            \<lparr>q_tailBlock := length (q_heap ?q1)\<rparr>
        = ?q1\<lparr>q_heap := insert_block ?p ?nb (q_heap ?q1), q_largestBlockSize := 2 ^ k',
            q_tailBlock := length (q_heap ?q1)\<rparr>" (is "?q' = _")
      using p by (simp add: upd_blk_def insert_block_def nth_append)
    then have "rwq_rep ?q' (concat xss @ [x])"
      using alloc_result [of ?q1 ps xss k' ?q' x] rep1 k' d(3) by simp
    moreover have "rwq_rep ?q1 (concat xss)"
      using rep1 unfolding rwq_rep_def by blast
    moreover have "inner_enqueue ca ok x q = (if ca \<and> ok then Inr (True, ?q') else Inr (False, ?q1))"
      using d(1,2) ptr n0 k'(3) by (simp add: inner_enqueue_def Let_def)
    ultimately show ?thesis
      using xs by (cases "ca \<and> ok") auto
  qed
qed


lemma try_enqueue_rep:
  "rwq_rep q xs \<Longrightarrow> \<exists>r q'. try_enqueue x q = Inr (r, q') \<and> rwq_rep q' (if r then xs @ [x] else xs)"
  using inner_enqueue_rep [of q xs False False x] by (auto simp: try_enqueue_def)

lemma enqueue_rep: "rwq_rep q xs \<Longrightarrow> \<exists>q'. enqueue True x q = Inr (True, q') \<and> rwq_rep q' (xs @ [x])"
  using inner_enqueue_rep [of q xs True True x] by (auto simp: enqueue_def)

text \<open>A refused element means that the tail block is full.\<close>

lemma try_enqueue_refused:
  assumes rep: "ring_rep q ps t xss" and no: "try_enqueue x q = Inr (False, q')"
  shows "length (xss ! t) = unat (b_sizeMask (blk_at q (ps ! t)))"
proof -
  have "(b_tail (blk_at q (ps ! t)) + 1) AND b_sizeMask (blk_at q (ps ! t)) = b_front (blk_at q (ps ! t))"
    using no ring_rep_ptrs [OF rep]
    by (auto simp: try_enqueue_def inner_enqueue_def Let_def split: if_splits)
  then show ?thesis
    using blk_rep_full [OF ring_rep_blk [OF rep]] ring_rep_len [OF rep] by simp
qed

lemma blk_rep_mask_pos: "blk_rep b xs \<Longrightarrow> 1 \<le> unat (b_sizeMask b) \<and> length xs \<le> unat (b_sizeMask b)"
proof (erule blk_repE)
  fix k
  assume k: "1 \<le> k" "k < 64" "b_sizeMask b = mask k"
    and ok: "slots_ok (2 ^ k) (unat (b_front b)) (unat (b_localTail b)) (unat (b_tail b))
       (unat (b_localFront b)) (b_data b) xs"
  have "(1::nat) < 2 ^ k"
    using k by (intro one_less_power) simp_all
  then show ?thesis
    using k ok by (auto simp: unat_mask_u64 slots_ok_def)
qed

lemma try_enqueue_empty:
  assumes "rwq_rep q []"
  shows "\<exists>q'. try_enqueue x q = Inr (True, q') \<and> rwq_rep q' [x]"
proof -
  obtain ps t xss where rep: "ring_rep q ps t xss" and xs: "concat xss = []"
    using assms by (auto simp: rwq_rep_def)
  obtain r q' where q': "try_enqueue x q = Inr (r, q')" "rwq_rep q' (if r then [] @ [x] else [])"
    using try_enqueue_rep [OF assms] by blast
  have t: "t < length ps"
    using ring_rep_len [OF rep] by simp
  moreover have "length xss = length ps"
    using rep ring_holds_length by (auto simp: ring_rep_def)
  ultimately have "xss ! t = []"
    using xs by simp
  then have r
    using try_enqueue_refused [OF rep, of x q'] q'(1) blk_rep_mask_pos [OF ring_rep_blk [OF rep t]]
    by (cases r) auto
  then show ?thesis
    using q' by simp
qed

text \<open>A queue of one block, the shape that \<open>MessageQueue\<close> uses: it accepts exactly until it holds
  one element less than its block has slots.\<close>

lemma single_block:
  assumes rep: "ring_rep q ps t xss" and one: "masks q = [m]"
  shows "ps = [0] \<and> t = 0 \<and> (\<exists>xs. xss = [xs]) \<and> b_sizeMask (blk_at q 0) = m"
proof -
  have h: "length (q_heap q) = 1" "b_sizeMask (q_heap q ! 0) = m"
    using one by (auto simp: masks_def map_eq_Cons_conv)
  have "distinct ps" "set ps = {0}" "length xss = length ps" "t < length ps"
    using rep h ring_holds_length by (auto simp: ring_rep_def ring_ok_def)
  note facts = this
  have "length ps = 1"
    using facts(1,2) distinct_card [of ps] by simp
  then obtain p where p: "ps = [p]"
    by (cases ps) auto
  then obtain xs where "xss = [xs]"
    using facts(3) by (cases xss) auto
  then show ?thesis
    using p facts(2,4) h(2) by (simp add: blk_at_def)
qed

lemma single_block_bound:
  assumes rep: "rwq_rep q xs" and one: "masks q = [m]"
  shows "length xs \<le> unat m"
proof -
  obtain ps t xss where ring: "ring_rep q ps t xss" "xs = concat xss"
    using rep by (auto simp: rwq_rep_def)
  then show ?thesis
    using single_block [OF ring(1) one] blk_rep_mask_pos [OF ring_rep_blk [OF ring(1), of 0]] by auto
qed

lemma try_enqueue_single:
  assumes rep: "rwq_rep q xs" and one: "masks q = [m]"
  shows "\<exists>q'. try_enqueue x q = Inr (length xs < unat m, q') \<and> masks q' = [m] \<and>
     rwq_rep q' (if length xs < unat m then xs @ [x] else xs)"
proof -
  obtain r q' where q': "try_enqueue x q = Inr (r, q')" "rwq_rep q' (if r then xs @ [x] else xs)"
    using try_enqueue_rep [OF rep] by blast
  have m: "masks q' = [m]"
    using masks_try_enqueue [OF q'(1)] one by simp
  obtain ps t xss where ring: "ring_rep q ps t xss" "xs = concat xss"
    using rep by (auto simp: rwq_rep_def)
  have "r \<longleftrightarrow> length xs < unat m"
  proof (cases r)
    case True
    then show ?thesis
      using single_block_bound [OF q'(2) m] by simp
  next
    case False
    then show ?thesis
      using try_enqueue_refused [OF ring(1), of x q'] q'(1) single_block [OF ring(1) one] ring(2)
      by auto
  qed
  then show ?thesis
    using q' m by auto
qed

section \<open>Size and capacity\<close>

lemma ring_sum_from:
  assumes rep: "ring_rep q ps t xss"
  shows "i < length ps \<Longrightarrow> length ps - i \<le> fuel \<Longrightarrow>
    ring_sum fuel g q (ps ! i) acc = Some (acc + sum_list (map (\<lambda>p. g (blk_at q p)) (drop i ps)))"
proof (induction fuel arbitrary: i acc)
  case (Suc fuel)
  have nx: "b_next (blk_at q (ps ! i)) = ps ! (Suc i mod length ps)"
    using ring_rep_next [OF rep Suc.prems(1)] by simp
  have fb: "q_frontBlock q = ps ! 0"
    using ring_rep_ptrs [OF rep] by simp
  have d: "drop i ps = ps ! i # drop (Suc i) ps"
    using Suc.prems(1) by (rule Cons_nth_drop_Suc [symmetric])
  show ?case
  proof (cases "Suc i = length ps")
    case True
    then show ?thesis
      using nx fb d by simp
  next
    case False
    then have l: "Suc i < length ps"
      using Suc.prems by simp
    then have "ps ! Suc i \<noteq> ps ! 0"
      using ring_rep_same_idx [OF rep l, of 0] by force
    then show ?thesis
      using l nx fb d Suc.IH [OF l] Suc.prems by (simp add: add.assoc)
  qed
qed simp

lemma ring_sum_all:
  assumes rep: "ring_rep q ps t xss"
  shows "ring_sum (length (q_heap q)) g q (q_frontBlock q) 0 = Some (sum_list (map (\<lambda>p. g (blk_at q p)) ps))"
proof -
  have "length ps = length (q_heap q)"
    using rep distinct_card [of ps] by (simp add: ring_rep_def ring_ok_def)
  then show ?thesis
    using ring_sum_from [OF rep, of 0] ring_rep_ptrs [OF rep] ring_rep_len [OF rep] by simp
qed

lemma size_approx_rep:
  assumes "rwq_rep q xs"
  shows "size_approx q = Some (of_nat (length xs))"
proof -
  obtain ps t xss where rep: "ring_rep q ps t xss" and xs: "xs = concat xss"
    using assms by (auto simp: rwq_rep_def)
  have "list_all2 (\<lambda>p xs. blk_rep (blk_at q p) xs) ps xss"
    using rep by (simp add: ring_rep_def ring_holds_def blk_at_def)
  then have "sum_list (map (\<lambda>p. (b_tail (blk_at q p) - b_front (blk_at q p)) AND b_sizeMask (blk_at q p)) ps)
      = of_nat (length (concat xss))"
    by induction (simp_all add: blk_rep_size)
  then show ?thesis
    using ring_sum_all [OF rep] xs by (simp add: size_approx_def)
qed


text \<open>\<open>peek\<close> returns the first element without removing it.\<close>

lemma rwq_peek_nil: "rwq_rep q [] \<Longrightarrow> \<exists>q'. rwq_peek q = Inr (None, q') \<and> rwq_rep q' []"
  using try_dequeue_nil [of q]
  by (fastforce simp: try_dequeue_def rwq_peek_def Let_def deq_from_def split: if_splits option.splits)

lemma ring_rep_first:
  assumes rep: "ring_rep q ps t xss" and ne: "b_front (blk_at q (ps ! 0)) \<noteq> b_localTail (blk_at q (ps ! 0))"
    and xs: "x # xs = concat xss"
  shows "b_data (blk_at q (ps ! 0)) (unat (b_front (blk_at q (ps ! 0)))) = Some x"
  using deq_result [OF rep xs ne] by (auto simp: deq_from_def Let_def split: option.splits)

lemma rwq_peek_cons:
  assumes "rwq_rep q (x # xs)"
  shows "\<exists>q'. rwq_peek q = Inr (Some x, q') \<and> rwq_rep q' (x # xs)"
proof -
  obtain ps t xss where rep: "ring_rep q ps t xss" and xs: "x # xs = concat xss"
    using assms by (auto simp: rwq_rep_def)
  note len = ring_rep_len [OF rep] and ptr = ring_rep_ptrs [OF rep]
  let ?p = "ps ! 0" and ?q1 = "refresh_tail (ps ! 0) q"
  let ?b = "blk_at q ?p" and ?q2 = "refresh_tail (ps ! 0) (refresh_tail (ps ! 0) q)"
  have rep1: "ring_rep ?q1 ps t xss"
    using ring_rep_refresh_tail [OF rep, of 0] len by blast
  have rep2: "ring_rep ?q2 ps t xss"
    using ring_rep_refresh_tail [OF rep1, of 0] len by blast
  have keeps: "rwq_rep q' (x # xs)" if "ring_rep q' ps t xss" for q'
    using that xs unfolding rwq_rep_def by blast
  have b1: "blk_at ?q1 ?p = ?b\<lparr>b_localTail := b_tail ?b\<rparr>"
    using blk_at_refresh_tail [OF rep] len by blast
  consider (a) "b_front ?b \<noteq> b_localTail ?b" | (b) "b_front ?b = b_localTail ?b" "b_front ?b \<noteq> b_tail ?b"
    | (c) "b_front ?b = b_localTail ?b" "b_front ?b = b_tail ?b"
    by blast
  then show ?thesis
  proof cases
    case a
    then show ?thesis
      using ring_rep_first [OF rep a xs] ptr keeps [OF rep] by (simp add: rwq_peek_def)
  next
    case b
    have "b_data ?b (unat (b_front ?b)) = Some x"
      using ring_rep_first [OF rep1 _ xs] b b1 by simp
    then show ?thesis
      using b ptr keeps [OF rep1] by (simp add: rwq_peek_def)
  next
    case c
    have e: "xss ! 0 = []"
      using c len blk_rep_empty [OF ring_rep_blk [OF rep, of 0]] by simp
    then have t: "0 < t"
      using ring_rep_all_empty [of q ps xss] rep xs by (metis gr0I list.distinct(1))
    have l1: "1 < length ps"
      using t len by simp
    have b2: "blk_at ?q2 ?p = ?b\<lparr>b_localTail := b_tail ?b\<rparr>"
      using blk_at_refresh_tail [OF rep1] len b1 by simp
    have nx: "b_next ?b = ps ! 1"
      using ring_rep_next [OF rep, of 0] l1 len by simp
    let ?q3 = "refresh_tail (ps ! 1) ?q2" and ?n = "blk_at ?q2 (ps ! 1)"
    have rep3: "ring_rep ?q3 ps t xss"
      using ring_rep_refresh_tail [OF rep2 l1] .
    have b3: "blk_at ?q3 (ps ! 1) = ?n\<lparr>b_localTail := b_tail ?n\<rparr>"
      using blk_at_refresh_tail [OF rep2 l1] .
    have ne: "b_front ?n \<noteq> b_tail ?n"
      using blk_rep_empty [OF ring_rep_blk [OF rep2 l1]] rep t by (simp add: ring_rep_def)
    note adv = ring_rep_advance [OF rep3 t e]
    have "b_data ?n (unat (b_front ?n)) = Some x"
      using ring_rep_first [OF adv(1), unfolded adv(2,3), OF _ xs] ne b3 by (simp add: blk_at_def)
    moreover have "?p \<noteq> ps ! t"
      using ring_rep_same_idx [OF rep, of 0 t] len t by simp
    ultimately show ?thesis
      using c ptr b2 nx ne keeps [OF rep2] by (simp add: rwq_peek_def Let_def)
  qed
qed

lemma rwq_pop_rep: "rwq_rep q xs \<Longrightarrow> \<exists>q'. rwq_pop q = Inr (xs \<noteq> [], q') \<and> rwq_rep q' (tl xs)"
  using try_dequeue_nil [of q] try_dequeue_cons [of q] by (cases xs) (fastforce simp: rwq_pop_def)+


section \<open>Construction\<close>

text \<open>The shifts of \<open>ceilToPow2\<close> spread the highest bit of \<open>x - 1\<close> to all lower positions.\<close>

definition smeared :: "nat \<Rightarrow> u64 \<Rightarrow> u64 \<Rightarrow> bool" where
  "smeared s y z \<longleftrightarrow> (\<forall>n. bit z n \<longleftrightarrow> (\<exists>m < s. bit y (n + m)))"

lemma smeared_step:
  assumes "smeared s y z" and "t = s + s"
  shows "smeared t y (z OR drop_bit s z)"
  unfolding smeared_def assms(2)
proof (intro allI iffI)
  fix n
  assume "bit (z OR drop_bit s z) n"
  then obtain m where "m < s" "bit y (n + m) \<or> bit y (n + (s + m))"
    using assms by (auto simp: bit_simps smeared_def ac_simps)
  then show "\<exists>m < s + s. bit y (n + m)"
    by (metis add_strict_left_mono trans_less_add1)
next
  fix n
  assume "\<exists>m < s + s. bit y (n + m)"
  then obtain m where m: "m < s + s" "bit y (n + m)"
    by blast
  show "bit (z OR drop_bit s z) n"
  proof (cases "m < s")
    case True
    then show ?thesis
      using m assms by (auto simp: bit_simps smeared_def)
  next
    case False
    then have "m - s < s" "bit y (n + s + (m - s))"
      using m by auto
    then show ?thesis
      using assms by (auto simp: bit_simps smeared_def ac_simps)
  qed
qed

lemma ceilToPow2_smear: "\<exists>z. ceilToPow2 x = z + 1 \<and> smeared 64 (x - 1) z"
proof -
  have s1: "smeared 1 (x - 1) (x - 1)"
    by (simp add: smeared_def)
  note s2 = smeared_step [OF s1, of 2] and s4 = smeared_step [of 2 _ _ 4]
    and s8 = smeared_step [of 4 _ _ 8] and s16 = smeared_step [of 8 _ _ 16]
    and s32 = smeared_step [of 16 _ _ 32] and s64 = smeared_step [of 32 _ _ 64]
  show ?thesis
    unfolding ceilToPow2_def Let_def by (intro exI conjI, rule refl, intro s64 s32 s16 s8 s4 s2) simp_all
qed

lemma smeared_mask:
  assumes z: "smeared 64 y z" and lt: "unat y < 2 ^ k" and ge: "k = 0 \<or> 2 ^ (k - 1) \<le> unat y" and k: "k < 64"
  shows "z = mask k"
proof (rule bit_word_eqI)
  fix n
  assume "n < LENGTH(64)"
  have above: "\<not> bit y i" if "k \<le> i" for i
  proof
    assume "bit y i"
    then have "bit (unat y) i"
      by (simp add: bit_unsigned_iff)
    then have "2 ^ i \<le> unat y"
      by (metis bit_iff_odd div_less even_zero not_less)
    then show False
      using lt that power_increasing [of k i "2 :: nat"] by linarith
  qed
  have top: "bit y (k - 1)" if "0 < k"
  proof -
    have "(2::nat) ^ k = 2 ^ (k - 1) + 2 ^ (k - 1)"
      using that by (cases k) simp_all
    then have "unat y div 2 ^ (k - 1) = 1"
      using ge lt that by (intro div_nat_eqI) auto
    then show ?thesis
      using k that by (metis bit_iff_odd bit_unsigned_iff odd_one)
  qed
  show "bit z n \<longleftrightarrow> bit (mask k :: u64) n"
  proof (cases "n < k")
    case True
    then have "n + (k - 1 - n) = k - 1" "k - 1 - n < 64"
      using k by auto
    moreover have "bit y (k - 1)"
      using top True by simp
    ultimately have "\<exists>m < 64. bit y (n + m)"
      by (intro exI [of _ "k - 1 - n"]) simp
    then have "bit z n"
      using z by (simp add: smeared_def)
    then show ?thesis
      using True k by (simp add: bit_simps)
  next
    case False
    then show ?thesis
      using z above by (auto simp: smeared_def bit_simps)
  qed
qed

lemma pow2_bracket: "\<exists>k. n < 2 ^ k \<and> (k = 0 \<or> 2 ^ (k - 1) \<le> (n :: nat))"
proof -
  define k where "k = (LEAST k. n < 2 ^ k)"
  have "n < 2 ^ k"
    unfolding k_def by (rule LeastI [of _ n]) (rule less_exp)
  moreover have "2 ^ (k - 1) \<le> n" if "k \<noteq> 0"
    using not_less_Least [of "k - 1" "\<lambda>k. n < 2 ^ k", folded k_def] that by simp
  ultimately show ?thesis
    by (intro exI [of _ k]) auto
qed

lemma ceilToPow2_correct:
  assumes "0 < unat x" and "unat x \<le> 2 ^ 63"
  shows "\<exists>k \<le> 63. ceilToPow2 x = 2 ^ k \<and> unat x \<le> 2 ^ k \<and> (k = 0 \<or> 2 ^ (k - 1) < unat x)"
proof -
  have y: "unat (x - 1) = unat x - 1"
    using assms(1) by (intro unat_minus_one) auto
  obtain k where k: "unat x - 1 < 2 ^ k" "k = 0 \<or> 2 ^ (k - 1) \<le> unat x - 1"
    using pow2_bracket by blast
  have "k \<le> 63"
  proof (rule ccontr)
    assume "\<not> k \<le> 63"
    then have "(2::nat) ^ 63 \<le> 2 ^ (k - 1)"
      by (intro power_increasing) simp_all
    then show False
      using k assms \<open>\<not> k \<le> 63\<close> by linarith
  qed
  obtain z where z: "ceilToPow2 x = z + 1" "smeared 64 (x - 1) z"
    using ceilToPow2_smear by blast
  have "z = mask k"
    using smeared_mask [OF z(2)] k y \<open>k \<le> 63\<close> by simp
  then have "ceilToPow2 x = 2 ^ k"
    using z(1) by (simp add: mask_eq_exp_minus_1)
  then show ?thesis
    using k assms \<open>k \<le> 63\<close> by (intro exI [of _ k]) auto
qed


lemma rwq_rep_one_block:
  assumes "1 \<le> k" and "k < 63"
  shows "rwq_rep \<lparr>q_heap = [make_block (2 ^ k) 0], q_frontBlock = 0, q_tailBlock = 0,
     q_largestBlockSize = 2 ^ k\<rparr> []"
proof -
  have "ring_rep \<lparr>q_heap = [make_block (2 ^ k) 0], q_frontBlock = 0, q_tailBlock = 0,
     q_largestBlockSize = 2 ^ k\<rparr> [0] 0 [[]]"
    using assms blk_rep_make [of k 0]
    by (auto simp: ring_rep_def ring_ok_def ring_holds_def make_block_def)
  then show ?thesis
    unfolding rwq_rep_def by (intro exI conjI) auto
qed

lemma rwq_new_small:
  assumes "1 \<le> unat sz" and "unat sz < 1024"
  shows "\<exists>(q :: 'a rwq) m. rwq_new (\<lambda>_. True) sz = Inr q \<and> rwq_rep q [] \<and> masks q = [m] \<and> unat sz \<le> unat m"
proof -
  have s: "unat (sz + 1) = unat sz + 1"
    using assms by (simp add: unat_word_ariths)
  obtain k where k: "ceilToPow2 (sz + 1) = 2 ^ k" "unat sz + 1 \<le> 2 ^ k" "k = 0 \<or> 2 ^ (k - 1) < unat sz + 1"
    using ceilToPow2_correct [of "sz + 1"] assms s by auto
  have "1 \<le> k"
    using k(2) assms by (cases k) auto
  then have "(2::nat) ^ (k - 1) < 2 ^ 10"
    using k(3) assms by auto
  then have "k - 1 < 10"
    by (simp only: power_strict_increasing_iff one_less_numeral_iff semiring_norm)
  then have k10: "k \<le> 10"
    by simp
  have u: "unat (2 ^ k :: u64) = 2 ^ k"
    using k10 unat_of_nat_u64 [of "2 ^ k"] power_strict_increasing [of k 64 "2 :: nat"] by simp
  have "(2::nat) ^ k \<le> 2 ^ 10"
    using k10 by (intro power_increasing) simp_all
  then have "\<not> 2 ^ k > MAX_BLOCK_SIZE * 2"
    using u by (simp add: MAX_BLOCK_SIZE_def word_less_nat_alt)
  moreover have "unat (2 ^ k - 1 :: u64) = 2 ^ k - 1"
    using u by (subst unat_minus_one) (auto simp: unat_eq_zero [symmetric])
  ultimately show ?thesis
    using k(1,2) \<open>1 \<le> k\<close> k10 rwq_rep_one_block [of k, where ?'a = 'a]
    by (simp add: rwq_new_def Let_def masks_def) (simp add: make_block_def)
qed

text \<open>Larger queues: a ring of blocks of \<open>MAX_BLOCK_SIZE\<close> slots.\<close>

definition ring_of :: "u64 \<Rightarrow> nat \<Rightarrow> 'a rw_block list" where
  "ring_of sz m = map (\<lambda>i. make_block sz (if Suc i = m then 0 else Suc i)) [0..<m]"

lemma length_ring_of [simp]: "length (ring_of sz m) = m"
  by (simp add: ring_of_def)

lemma ring_of_Suc:
  assumes "0 < m"
  shows "(ring_of sz m)[m - 1 := (ring_of sz m ! (m - 1))\<lparr>b_next := m\<rparr>] @ [make_block sz 0] = ring_of sz (Suc m)"
  using assms by (intro nth_equalityI)
    (auto simp: ring_of_def nth_append nth_list_update make_block_def less_Suc_eq)

lemma alloc_ring_of:
  "alloc_ring (\<lambda>_. True) n sz (ring_of sz m :: 'a rw_block list) = Inr (ring_of sz (m + n))"
proof (induction n arbitrary: m)
  case (Suc n)
  show ?case
  proof (cases m)
    case 0
    have "[make_block sz 0] = (ring_of sz 1 :: 'a rw_block list)"
      by (simp add: ring_of_def)
    then show ?thesis
      using 0 Suc [of 1] by simp
  next
    case (Suc m')
    then show ?thesis
      using Suc.IH [of "Suc m"] ring_of_Suc [of m sz, where ?'a = 'a] by (simp add: Let_def)
  qed
qed simp

lemma ring_of_rep:
  assumes "0 < m" and "1 \<le> k" and "k < 63"
  shows "rwq_rep \<lparr>q_heap = ring_of (2 ^ k) m, q_frontBlock = 0, q_tailBlock = 0,
     q_largestBlockSize = 2 ^ k\<rparr> []"
proof -
  have "ring_ok (ring_of (2 ^ k) m) [0..<m]"
    using assms(1) by (auto simp: ring_ok_def ring_of_def make_block_def)
  moreover have "ring_holds (ring_of (2 ^ k) m) [0..<m] (replicate m [])"
    using assms blk_rep_make [of k]
    by (auto simp: ring_holds_def list_all2_conv_all_nth ring_of_def)
  ultimately have "ring_rep \<lparr>q_heap = ring_of (2 ^ k) m, q_frontBlock = 0, q_tailBlock = 0,
     q_largestBlockSize = 2 ^ k\<rparr> [0..<m] 0 (replicate m [])"
    using assms by (auto simp: ring_rep_def)
  then show ?thesis
    unfolding rwq_rep_def by (intro exI conjI) auto
qed

lemma rwq_new_rep:
  assumes "1 \<le> unat sz" and "unat sz < 2 ^ 62"
  shows "\<exists>q :: 'a rwq. rwq_new (\<lambda>_. True) sz = Inr q \<and> rwq_rep q []"
proof (cases "unat sz < 1024")
  case True
  then show ?thesis
    using rwq_new_small assms(1) by blast
next
  case False
  have s: "unat (sz + 1) = unat sz + 1"
    using assms by (simp add: unat_word_ariths)
  obtain k where k: "k \<le> 63" "ceilToPow2 (sz + 1) = 2 ^ k" "unat sz + 1 \<le> 2 ^ k"
    using ceilToPow2_correct [of "sz + 1"] assms s by auto
  have u: "unat (2 ^ k :: u64) = 2 ^ k"
    using k(1) unat_of_nat_u64 [of "2 ^ k"] power_strict_increasing [of k 64 "2 :: nat"] by simp
  then have big: "2 ^ k > MAX_BLOCK_SIZE * 2"
    using k(3) False by (simp add: MAX_BLOCK_SIZE_def word_less_nat_alt)
  define n where "n = unat ((sz + MAX_BLOCK_SIZE * 2 - 3) div (MAX_BLOCK_SIZE - 1))"
  have "unat (sz + 1021) = unat sz + 1021"
    using assms by (simp add: unat_word_ariths)
  then have "n = (unat sz + 1021) div 511"
    by (simp add: n_def MAX_BLOCK_SIZE_def unat_div add_diff_eq [symmetric])
  then have "0 < n"
    using False by simp
  have "alloc_ring (\<lambda>_. True) n MAX_BLOCK_SIZE [] = Inr (ring_of MAX_BLOCK_SIZE n :: 'a rw_block list)"
    using alloc_ring_of [of n MAX_BLOCK_SIZE 0, where ?'a = 'a] by (simp add: ring_of_def)
  moreover have "(2 ^ 9 :: u64) = MAX_BLOCK_SIZE"
    by (simp add: MAX_BLOCK_SIZE_def)
  then have "rwq_rep \<lparr>q_heap = (ring_of MAX_BLOCK_SIZE n :: 'a rw_block list), q_frontBlock = 0, q_tailBlock = 0,
     q_largestBlockSize = MAX_BLOCK_SIZE\<rparr> []"
    using ring_of_rep [OF \<open>0 < n\<close>, of 9, where ?'a = 'a] by simp
  ultimately show ?thesis
    using big k(2) by (simp add: rwq_new_def n_def [symmetric])
qed

section \<open>The interface of a bounded queue\<close>

datatype 'a qop = Put 'a | Get

text \<open>A sequence of operations: the elements accepted and the elements handed out.\<close>

fun run_ops :: "('a \<Rightarrow> 'q \<Rightarrow> (bool \<times> 'q) result) \<Rightarrow> ('q \<Rightarrow> ('a option \<times> 'q) result) \<Rightarrow> 'a qop list \<Rightarrow> 'q
    \<Rightarrow> ('a list \<times> 'a list \<times> 'q) result" where
  "run_ops put get [] q = Inr ([], [], q)"
| "run_ops put get (Put x # ops) q =
     bindR (put x q) (\<lambda>(r, q). bindR (run_ops put get ops q) (\<lambda>(acc, got, q).
       Inr (if r then x # acc else acc, got, q)))"
| "run_ops put get (Get # ops) q =
     bindR (get q) (\<lambda>(r, q). bindR (run_ops put get ops q) (\<lambda>(acc, got, q).
       Inr (acc, (case r of None \<Rightarrow> got | Some x \<Rightarrow> x # got), q)))"

locale bounded_fifo =
  fixes rep :: "'q \<Rightarrow> 'a list \<Rightarrow> bool"
    and cap :: "'q \<Rightarrow> nat"
    and put :: "'a \<Rightarrow> 'q \<Rightarrow> (bool \<times> 'q) result"
    and get :: "'q \<Rightarrow> ('a option \<times> 'q) result"
    and cnt :: "'q \<Rightarrow> u64 option"
  assumes cap_bound: "rep q xs \<Longrightarrow> length xs \<le> cap q"
    and put_law: "rep q xs \<Longrightarrow> \<exists>q'. put x q = Inr (length xs < cap q, q') \<and> cap q' = cap q \<and>
      rep q' (if length xs < cap q then xs @ [x] else xs)"
    and get_nil: "rep q [] \<Longrightarrow> \<exists>q'. get q = Inr (None, q') \<and> cap q' = cap q \<and> rep q' []"
    and get_cons: "rep q (x # xs) \<Longrightarrow> \<exists>q'. get q = Inr (Some x, q') \<and> cap q' = cap q \<and> rep q' xs"
    and cnt_law: "rep q xs \<Longrightarrow> cnt q = Some (of_nat (length xs))"
begin

lemma run_fifo:
  "rep q xs \<Longrightarrow> \<exists>acc got q' ys. run_ops put get ops q = Inr (acc, got, q') \<and> rep q' ys \<and>
     cap q' = cap q \<and> xs @ acc = got @ ys"
proof (induction ops arbitrary: q xs)
  case (Cons op ops)
  show ?case
  proof (cases op)
    case (Put x)
    obtain q1 where q1: "put x q = Inr (length xs < cap q, q1)" "cap q1 = cap q"
        "rep q1 (if length xs < cap q then xs @ [x] else xs)"
      using put_law [OF Cons.prems] by blast
    then show ?thesis
      using Cons.IH [OF q1(3)] Put by (auto split: if_splits)
  next
    case Get
    then show ?thesis
      using Cons.IH Cons.prems get_nil [of q] get_cons [of q] by (cases xs) fastforce+
  qed
qed auto

lemma empty_iff: "rep q xs \<Longrightarrow> length xs < 2 ^ 64 \<Longrightarrow> cnt q = Some 0 \<longleftrightarrow> xs = []"
  by (auto simp: cnt_law word_of_nat_eq_0_iff dest: dvd_imp_le)

end

text \<open>The instance: queues of one block.\<close>

definition rep1 :: "'a rwq \<Rightarrow> 'a list \<Rightarrow> bool" where
  "rep1 q xs \<longleftrightarrow> rwq_rep q xs \<and> length (q_heap q) = 1"

definition cap1 :: "'a rwq \<Rightarrow> nat" where
  "cap1 q = unat (b_sizeMask (q_heap q ! 0))"

lemma one_block_masks: "length (q_heap q) = 1 \<longleftrightarrow> masks q = [b_sizeMask (q_heap q ! 0)]"
  by (cases "q_heap q") (auto simp: masks_def)

lemma masks_cap: "masks q = [m] \<Longrightarrow> length (q_heap q) = 1 \<and> cap1 q = unat m"
  by (cases "q_heap q") (auto simp: masks_def cap1_def)

interpretation rwq1: bounded_fifo rep1 cap1 try_enqueue try_dequeue size_approx
proof
  fix q :: "'a rwq" and x xs
  assume "rep1 q xs"
  then show "\<exists>q'. try_enqueue x q = Inr (length xs < cap1 q, q') \<and> cap1 q' = cap1 q \<and>
      rep1 q' (if length xs < cap1 q then xs @ [x] else xs)"
    using try_enqueue_single [of q xs "b_sizeMask (q_heap q ! 0)" x] masks_cap one_block_masks
    unfolding rep1_def by metis
next
  fix q :: "'a rwq" and x xs
  assume "rep1 q (x # xs)"
  then show "\<exists>q'. try_dequeue q = Inr (Some x, q') \<and> cap1 q' = cap1 q \<and> rep1 q' xs"
    using try_dequeue_cons [of q x xs] masks_try_dequeue [of q "Some x"] masks_cap one_block_masks
    unfolding rep1_def by metis
next
  fix q :: "'a rwq"
  assume "rep1 q []"
  then show "\<exists>q'. try_dequeue q = Inr (None, q') \<and> cap1 q' = cap1 q \<and> rep1 q' []"
    using try_dequeue_nil [of q] masks_try_dequeue [of q None] masks_cap one_block_masks
    unfolding rep1_def by metis
next
  fix q :: "'a rwq" and xs
  assume "rep1 q xs"
  then show "length xs \<le> cap1 q"
    using single_block_bound [of q xs] unfolding rep1_def one_block_masks by (simp add: cap1_def)
next
  fix q :: "'a rwq" and xs
  assume "rep1 q xs"
  then show "size_approx q = Some (of_nat (length xs))"
    by (simp add: rep1_def size_approx_rep)
qed

section \<open>Properties\<close>

text \<open>C9: every operation on a well-formed ring of blocks refines the operation on a list: an allocating
  \<open>enqueue\<close> appends, \<open>try_enqueue\<close> appends or refuses without change, \<open>try_dequeue\<close> removes the first
  element and answers false only on the empty queue, and \<open>size_approx\<close> is the number of elements. No
  assertion of the source fails and no unconstructed slot is read.\<close>

theorem rwq_refines_list:
  assumes "rwq_rep q xs"
  shows "(\<exists>q'. enqueue True x q = Inr (True, q') \<and> rwq_rep q' (xs @ [x])) \<and>
     (\<exists>r q'. try_enqueue x q = Inr (r, q') \<and> rwq_rep q' (if r then xs @ [x] else xs)) \<and>
     (\<exists>q'. try_dequeue q = Inr (case xs of [] \<Rightarrow> None | y # ys \<Rightarrow> Some y, q') \<and> rwq_rep q' (tl xs)) \<and>
     size_approx q = Some (of_nat (length xs))"
proof -
  have "\<exists>q'. try_dequeue q = Inr (case xs of [] \<Rightarrow> None | y # ys \<Rightarrow> Some y, q') \<and> rwq_rep q' (tl xs)"
    using assms try_dequeue_nil [of q] try_dequeue_cons [of q] by (cases xs) auto
  then show ?thesis
    using enqueue_rep [OF assms] try_enqueue_rep [OF assms] size_approx_rep [OF assms] by blast
qed

definition demo_queue :: "nat rwq" where
  "demo_queue = \<lparr>q_heap = [make_block (2 ^ 1) 0], q_frontBlock = 0, q_tailBlock = 0, q_largestBlockSize = 2 ^ 1\<rparr>"

theorem rwq_refines_list_witness:
  "rwq_rep demo_queue [] \<and> (\<exists>q'. enqueue True 7 demo_queue = Inr (True, q') \<and> rwq_rep q' [7])"
proof -
  have "rwq_rep demo_queue []"
    using rwq_rep_one_block [of 1] by (simp add: demo_queue_def)
  then show ?thesis
    using rwq_refines_list [of demo_queue "[]" 7] by simp
qed

text \<open>C19: the queue that \<open>MessageQueue\<close> builds for \<open>CONTAINER_QUEUE_SIZE\<close> elements is first-in first-out
  under every sequence of \<open>try_enqueue\<close> and \<open>try_dequeue\<close> calls: the accepted elements are those
  handed out followed by those still stored, of which there are at most 63.\<close>

theorem container_queue_fifo:
  "\<exists>(q :: 'a rwq) acc got q' ys. rwq_new (\<lambda>_. True) (of_nat CONTAINER_QUEUE_SIZE) = Inr q \<and>
     run_ops try_enqueue try_dequeue ops q = Inr (acc, got, q') \<and> acc = got @ ys \<and>
     rwq_rep q' ys \<and> length ys \<le> 63"
proof -
  have c: "ceilToPow2 33 = 64"
    by (simp add: ceilToPow2_def)
  define q :: "'a rwq" where "q = \<lparr>q_heap = [make_block (2 ^ 6) 0], q_frontBlock = 0, q_tailBlock = 0,
     q_largestBlockSize = 2 ^ 6\<rparr>"
  have new: "rwq_new (\<lambda>_. True) (of_nat CONTAINER_QUEUE_SIZE) = Inr q"
    by (simp add: rwq_new_def CONTAINER_QUEUE_SIZE_def c MAX_BLOCK_SIZE_def q_def Let_def)
  have "rep1 q []" and cap: "cap1 q = 63"
    using rwq_rep_one_block [of 6, where ?'a = 'a] by (simp_all add: rep1_def q_def cap1_def make_block_def)
  then obtain acc got q' ys where "run_ops try_enqueue try_dequeue ops q = Inr (acc, got, q')" "rep1 q' ys"
      "cap1 q' = cap1 q" "acc = got @ ys"
    using rwq1.run_fifo [of q "[]" ops] by auto
  moreover from this have "length ys \<le> 63"
    using rwq1.cap_bound [of q' ys] cap by simp
  ultimately show ?thesis
    using new by (auto simp: rep1_def)
qed

text \<open>C25: \<open>ceilToPow2\<close> rounds up to the next power of two, for every argument from 1 to \<open>2 ^ 63\<close>.\<close>

theorem ceilToPow2_least_power:
  assumes "0 < unat x" and "unat x \<le> 2 ^ 63"
  shows "\<exists>k \<le> 63. ceilToPow2 x = 2 ^ k \<and> unat x \<le> 2 ^ k \<and> (\<forall>j. unat x \<le> 2 ^ j \<longrightarrow> k \<le> j)"
proof -
  obtain k where k: "k \<le> 63" "ceilToPow2 x = 2 ^ k" "unat x \<le> 2 ^ k" "k = 0 \<or> 2 ^ (k - 1) < unat x"
    using ceilToPow2_correct [OF assms] by blast
  have "k \<le> j" if "unat x \<le> 2 ^ j" for j
  proof (rule ccontr)
    assume "\<not> k \<le> j"
    then have "(2::nat) ^ j \<le> 2 ^ (k - 1)"
      by (intro power_increasing) simp_all
    then show False
      using k(4) that \<open>\<not> k \<le> j\<close> by linarith
  qed
  then show ?thesis
    using k by blast
qed

theorem ceilToPow2_least_power_witness:
  "\<exists>k \<le> 63. ceilToPow2 33 = 2 ^ k \<and> unat (33 :: u64) \<le> 2 ^ k"
  using ceilToPow2_least_power [of 33] by auto

end
