(* ===== verification/Message_Queue.thy ===== *)
theory Message_Queue
  imports Rw_Queue
begin

text \<open>
  The class \<open>MessageQueue\<close> (\<open>include/messageQueue.h\<close>) between the data receiver and the data
  writer: a \<open>ReaderWriterQueue\<close> and the atomic flag \<open>done_\<close>. \<open>Push\<close> spins until the queue takes
  the element, so it is a partial function whose value \<open>None\<close> means that it never returns.
\<close>

section \<open>Model\<close>

record 'a MessageQueue =
  mq_lockFreeQueue :: "'a rwq"
  mq_done :: bool

definition MessageQueue_new :: "(nat \<Rightarrow> bool) \<Rightarrow> u32 \<Rightarrow> 'a MessageQueue result" where
  "MessageQueue_new malloc_ok maxQueueSize =
     bindR (rwq_new malloc_ok (ucast maxQueueSize)) (\<lambda>q.
       Inr \<lparr>mq_lockFreeQueue = q, mq_done = False\<rparr>)"

text \<open>One turn of the loop of \<open>Push\<close>, and the loop.\<close>

definition Push_turn :: "'a \<Rightarrow> 'a MessageQueue \<Rightarrow> (bool \<times> 'a MessageQueue) result" where
  "Push_turn x mq =
     bindR (try_enqueue x (mq_lockFreeQueue mq)) (\<lambda>(r, q). Inr (r, mq\<lparr>mq_lockFreeQueue := q\<rparr>))"

partial_function (option) Push :: "'a \<Rightarrow> 'a MessageQueue \<Rightarrow> (bool \<times> 'a MessageQueue) result option" where
  "Push x mq =
     (case Push_turn x mq of
        Inl e \<Rightarrow> Some (Inl e)
      | Inr (r, mq') \<Rightarrow> if r then Some (Inr (True, mq')) else Push x mq')"

definition Pop :: "'a MessageQueue \<Rightarrow> ('a option \<times> 'a MessageQueue) result" where
  "Pop mq = bindR (try_dequeue (mq_lockFreeQueue mq)) (\<lambda>(r, q). Inr (r, mq\<lparr>mq_lockFreeQueue := q\<rparr>))"

definition SetJobDoneFlag :: "'a MessageQueue \<Rightarrow> 'a MessageQueue" where
  "SetJobDoneFlag mq = mq\<lparr>mq_done := True\<rparr>"

definition IsEmpty :: "'a MessageQueue \<Rightarrow> bool option" where
  "IsEmpty mq = map_option (\<lambda>cnt. cnt = 0) (size_approx (mq_lockFreeQueue mq))"

text \<open>The destructor stops the process when elements are left.\<close>

definition MessageQueue_delete :: "'a MessageQueue \<Rightarrow> unit result option" where
  "MessageQueue_delete mq = map_option (\<lambda>flag. if flag then Inr () else Inl ExitFailure) (IsEmpty mq)"

section \<open>Behaviour\<close>

definition mq_rep :: "'a MessageQueue \<Rightarrow> 'a list \<Rightarrow> bool" where
  "mq_rep mq xs \<longleftrightarrow> rep1 (mq_lockFreeQueue mq) xs"

definition mq_cap :: "'a MessageQueue \<Rightarrow> nat" where
  "mq_cap mq = cap1 (mq_lockFreeQueue mq)"

lemma Push_turn_law:
  assumes "mq_rep mq xs"
  shows "\<exists>mq'. Push_turn x mq = Inr (length xs < mq_cap mq, mq') \<and> mq_cap mq' = mq_cap mq \<and>
     mq_done mq' = mq_done mq \<and> mq_rep mq' (if length xs < mq_cap mq then xs @ [x] else xs)"
  using rwq1.put_law [of "mq_lockFreeQueue mq" xs x] assms
  by (auto simp: Push_turn_def mq_rep_def mq_cap_def)

lemma Pop_nil:
  assumes "mq_rep mq []"
  shows "\<exists>mq'. Pop mq = Inr (None, mq') \<and> mq_cap mq' = mq_cap mq \<and> mq_done mq' = mq_done mq \<and> mq_rep mq' []"
  using rwq1.get_nil [of "mq_lockFreeQueue mq"] assms by (auto simp: Pop_def mq_rep_def mq_cap_def)

lemma Pop_cons:
  assumes "mq_rep mq (x # xs)"
  shows "\<exists>mq'. Pop mq = Inr (Some x, mq') \<and> mq_cap mq' = mq_cap mq \<and> mq_done mq' = mq_done mq \<and> mq_rep mq' xs"
  using rwq1.get_cons [of "mq_lockFreeQueue mq" x xs] assms by (auto simp: Pop_def mq_rep_def mq_cap_def)

lemma mq_cap_lt: "mq_cap mq < 2 ^ 64"
  using unat_u64_bound by (simp add: mq_cap_def cap1_def)

lemma mq_rep_bound: "mq_rep mq xs \<Longrightarrow> length xs \<le> mq_cap mq"
  by (simp add: mq_rep_def mq_cap_def rwq1.cap_bound)

lemma IsEmpty_law: "mq_rep mq xs \<Longrightarrow> IsEmpty mq = Some (xs = [])"
proof -
  assume rep: "mq_rep mq xs"
  then have "length xs < 2 ^ 64"
    using mq_rep_bound mq_cap_lt by (metis order_le_less_trans)
  moreover have "rep1 (mq_lockFreeQueue mq) xs"
    using rep by (simp add: mq_rep_def)
  ultimately show ?thesis
    using rwq1.cnt_law rwq1.empty_iff by (fastforce simp: IsEmpty_def)
qed

lemma MessageQueue_new_rep:
  assumes "1 \<le> unat n" and "unat n < 1024"
  shows "\<exists>mq :: 'a MessageQueue. MessageQueue_new (\<lambda>_. True) n = Inr mq \<and> mq_rep mq [] \<and>
     unat n \<le> mq_cap mq \<and> \<not> mq_done mq"
proof -
  have "unat (ucast n :: u64) = unat n"
    using unat_u32_bound [of n] by (simp add: unsigned_ucast_eq take_bit_nat_eq_self_iff)
  then obtain q :: "'a rwq" and m where q: "rwq_new (\<lambda>_. True) (ucast n) = Inr q" "rwq_rep q []" "masks q = [m]"
      "unat n \<le> unat m"
    using rwq_new_small [of "ucast n", where ?'a = 'a] assms by auto
  then have "rep1 q []" "cap1 q = unat m"
    using masks_cap by (auto simp: rep1_def)
  then show ?thesis
    using q by (auto simp: MessageQueue_new_def mq_rep_def mq_cap_def)
qed

text \<open>\<open>Push\<close> returns exactly when there is room; with nobody taking elements out it spins for ever.\<close>

lemma Push_room:
  assumes "mq_rep mq xs" and "length xs < mq_cap mq"
  shows "\<exists>mq'. Push x mq = Some (Inr (True, mq')) \<and> mq_rep mq' (xs @ [x]) \<and> mq_cap mq' = mq_cap mq"
  using Push_turn_law [OF assms(1), of x] assms(2) by (subst Push.simps) auto

lemma Push_returns_room:
  "Push x mq = Some r \<Longrightarrow> \<forall>xs. mq_rep mq xs \<longrightarrow> length xs < mq_cap mq"
proof (rule Push.raw_induct [where P = "\<lambda>x mq r. \<forall>xs. mq_rep mq xs \<longrightarrow> length xs < mq_cap mq"
      and xa = "(x, mq)", unfolded prod.case])
  fix P :: "'a \<Rightarrow> 'a MessageQueue \<Rightarrow> (bool \<times> 'a MessageQueue) result option" and x mq r
  assume IH: "\<And>x mq r. P x mq = Some r \<Longrightarrow> \<forall>xs. mq_rep mq xs \<longrightarrow> length xs < mq_cap mq"
    and turn: "(case Push_turn x mq of Inl e \<Rightarrow> Some (Inl e)
      | Inr (r, mq') \<Rightarrow> if r then Some (Inr (True, mq')) else P x mq') = Some r"
  show "\<forall>xs. mq_rep mq xs \<longrightarrow> length xs < mq_cap mq"
  proof (intro allI impI, rule ccontr)
    fix xs
    assume rep: "mq_rep mq xs" and full: "\<not> length xs < mq_cap mq"
    then obtain mq' where mq': "Push_turn x mq = Inr (False, mq')" "mq_cap mq' = mq_cap mq" "mq_rep mq' xs"
      using Push_turn_law [OF rep, of x] by auto
    then have "P x mq' = Some r"
      using turn by simp
    then show False
      using IH full mq' by metis
  qed
qed

lemma Push_spins: "mq_rep mq xs \<Longrightarrow> length xs = mq_cap mq \<Longrightarrow> Push x mq = None"
  using Push_returns_room [of x mq] by (cases "Push x mq") auto

section \<open>Properties\<close>

text \<open>C22: on a queue that nobody else touches, \<open>Push\<close> returns exactly when the queue has room, and then
  it has appended its element; a \<open>Push\<close> on a full queue never returns.\<close>

theorem Push_returns_iff_room:
  assumes "mq_rep mq xs"
  shows "if length xs < mq_cap mq
     then \<exists>mq'. Push x mq = Some (Inr (True, mq')) \<and> mq_rep mq' (xs @ [x])
     else Push x mq = None"
proof (cases "length xs < mq_cap mq")
  case True
  then show ?thesis
    using Push_room [OF assms] by auto
next
  case False
  then have "length xs = mq_cap mq"
    using mq_rep_bound [OF assms] by simp
  then show ?thesis
    using Push_spins [OF assms] by simp
qed

definition demo_mq :: "nat MessageQueue" where
  "demo_mq = \<lparr>mq_lockFreeQueue = demo_queue, mq_done = False\<rparr>"

theorem Push_returns_iff_room_witness:
  "mq_rep demo_mq [] \<and> (\<exists>mq'. Push 7 demo_mq = Some (Inr (True, mq')) \<and> mq_rep mq' [7])"
proof -
  have "mq_rep demo_mq []" and "mq_cap demo_mq = 1"
    using rwq_rep_one_block [of 1]
    by (simp_all add: mq_rep_def mq_cap_def rep1_def cap1_def demo_mq_def demo_queue_def make_block_def)
  then show ?thesis
    using Push_returns_iff_room [of demo_mq "[]" 7] by simp
qed

end
