(* ===== verification/File_Stream.thy ===== *)
theory File_Stream
  imports Chunk_Structure
begin

text \<open>
  The part of the C++ stream library and of the file system that the sources use: regular files
  by path, \<open>ofstream\<close> and \<open>ifstream\<close> handles with their position and state bits,
  \<open>fopen\<close>/\<open>fwrite\<close> of a whole file. A write is visible in the file at once (the stream buffer
  is flushed by \<open>close\<close> before another component reads the file).
\<close>

record filesys =
  files :: "bytes \<rightharpoonup> bytes"
  openable :: "bytes \<Rightarrow> bool"

text \<open>\<open>openable p\<close>: the operating system lets this process create or truncate \<open>p\<close>.\<close>

definition FileExist :: "filesys \<Rightarrow> bytes \<Rightarrow> bool" where
  "FileExist fs p \<longleftrightarrow> files fs (c_path p) \<noteq> None"

definition file_splice :: "bytes \<Rightarrow> nat \<Rightarrow> bytes \<Rightarrow> bytes" where
  "file_splice c pos bs = take pos (c @ replicate (pos - length c) 0) @ bs @ drop (pos + length bs) c"

section \<open>Output streams\<close>

record ofstream =
  os_path :: bytes
  os_pos :: nat
  os_is_open :: bool

definition os_closed :: ofstream where
  "os_closed = \<lparr>os_path = [], os_pos = 0, os_is_open = False\<rparr>"

text \<open>\<open>open\<close> with \<open>trunc\<close>: an openable file becomes empty; otherwise the stream stays closed.\<close>

definition os_open_trunc :: "bytes \<Rightarrow> filesys \<Rightarrow> ofstream \<times> filesys" where
  "os_open_trunc p fs =
     (if openable fs (c_path p)
      then (\<lparr>os_path = c_path p, os_pos = 0, os_is_open = True\<rparr>,
            fs\<lparr>files := (files fs)(c_path p \<mapsto> [])\<rparr>)
      else (os_closed, fs))"

text \<open>\<open>open\<close> with \<open>app\<close>: the file is kept, or created empty, and the writer stands at its end.\<close>

definition os_open_app :: "bytes \<Rightarrow> filesys \<Rightarrow> ofstream \<times> filesys" where
  "os_open_app p fs =
     (if openable fs (c_path p)
      then let c = (case files fs (c_path p) of None \<Rightarrow> [] | Some c \<Rightarrow> c) in
        (\<lparr>os_path = c_path p, os_pos = length c, os_is_open = True\<rparr>, fs\<lparr>files := (files fs)(c_path p \<mapsto> c)\<rparr>)
      else (os_closed, fs))"

definition os_write :: "ofstream \<Rightarrow> bytes \<Rightarrow> filesys \<Rightarrow> ofstream \<times> filesys" where
  "os_write h bs fs =
     (if os_is_open h
      then (h\<lparr>os_pos := os_pos h + length bs\<rparr>,
            fs\<lparr>files := (files fs)(os_path h \<mapsto>
              file_splice (case files fs (os_path h) of None \<Rightarrow> [] | Some c \<Rightarrow> c) (os_pos h) bs)\<rparr>)
      else (h, fs))"

definition os_seekp_beg :: "ofstream \<Rightarrow> ofstream" where
  "os_seekp_beg h = h\<lparr>os_pos := 0\<rparr>"

definition os_close :: "ofstream \<Rightarrow> ofstream" where
  "os_close h = h\<lparr>os_is_open := False\<rparr>"

text \<open>The stream is at the end of its file: the next write appends.\<close>

definition os_at_end :: "ofstream \<Rightarrow> filesys \<Rightarrow> bool" where
  "os_at_end h fs \<longleftrightarrow>
     os_is_open h \<and> (\<exists>c. files fs (os_path h) = Some c \<and> length c = os_pos h)"

lemma file_splice_at_end [simp]: "pos = length c \<Longrightarrow> file_splice c pos bs = c @ bs"
  by (simp add: file_splice_def)

lemma file_splice_beg: "file_splice c 0 bs = bs @ drop (length bs) c"
  by (simp add: file_splice_def)

lemma os_open_trunc_at_end:
  "openable fs (c_path p) \<Longrightarrow> os_open_trunc p fs = (h, fs') \<Longrightarrow>
   os_at_end h fs' \<and> os_path h = c_path p \<and> files fs' = (files fs)(c_path p \<mapsto> [])
     \<and> openable fs' = openable fs"
  by (auto simp: os_open_trunc_def os_at_end_def)

lemma os_write_appends:
  assumes "os_at_end h fs" and "os_write h bs fs = (h', fs')"
  shows "os_at_end h' fs'" and "os_path h' = os_path h"
    and "files fs' = (files fs)(os_path h \<mapsto> the (files fs (os_path h)) @ bs)"
    and "openable fs' = openable fs"
  using assms by (auto simp: os_write_def os_at_end_def split: if_splits)

section \<open>Input streams\<close>

record ifstream =
  is_path :: bytes
  is_pos :: nat
  is_is_open :: bool
  is_eof :: bool
  is_fail :: bool

text \<open>Opening a file that does not exist sets the fail bit.\<close>

definition is_open_read :: "bytes \<Rightarrow> filesys \<Rightarrow> ifstream" where
  "is_open_read p fs =
     (if FileExist fs p
      then \<lparr>is_path = c_path p, is_pos = 0, is_is_open = True, is_eof = False, is_fail = False\<rparr>
      else \<lparr>is_path = c_path p, is_pos = 0, is_is_open = False, is_eof = False, is_fail = True\<rparr>)"

definition is_content :: "ifstream \<Rightarrow> filesys \<Rightarrow> bytes" where
  "is_content h fs = (case files fs (is_path h) of None \<Rightarrow> [] | Some c \<Rightarrow> c)"

text \<open>
  \<open>read(buf, n)\<close> yields the bytes stored in \<open>buf\<close> (their number is \<open>gcount()\<close>). A stream that
  is not good extracts nothing; a short read sets both the end-of-file and the fail bit.
\<close>

definition is_read :: "ifstream \<Rightarrow> nat \<Rightarrow> filesys \<Rightarrow> bytes \<times> ifstream" where
  "is_read h n fs =
     (if is_eof h \<or> is_fail h \<or> \<not> is_is_open h then ([], h\<lparr>is_fail := True\<rparr>)
      else let got = take n (drop (is_pos h) (is_content h fs)) in
        (got, h\<lparr>is_pos := is_pos h + length got,
                is_eof := (length got < n), is_fail := (length got < n)\<rparr>))"

text \<open>\<open>tellg\<close> is \<open>-1\<close> on a failed stream; \<open>seekg\<close> does nothing there.\<close>

definition is_tellg :: "ifstream \<Rightarrow> u64" where
  "is_tellg h = (if is_fail h then - 1 else of_nat (is_pos h))"

definition is_seekg_end :: "ifstream \<Rightarrow> filesys \<Rightarrow> ifstream" where
  "is_seekg_end h fs =
     (if is_fail h then h else h\<lparr>is_pos := length (is_content h fs), is_eof := False\<rparr>)"

definition is_seekg_beg :: "ifstream \<Rightarrow> ifstream" where
  "is_seekg_beg h = (if is_fail h then h else h\<lparr>is_pos := 0, is_eof := False\<rparr>)"

definition is_close :: "ifstream \<Rightarrow> ifstream" where
  "is_close h = h\<lparr>is_is_open := False\<rparr>"

text \<open>A good stream positioned at \<open>pos\<close>.\<close>

definition is_good_at :: "ifstream \<Rightarrow> bytes \<Rightarrow> nat \<Rightarrow> bool" where
  "is_good_at h p pos \<longleftrightarrow> is_path h = p \<and> is_pos h = pos \<and> is_is_open h \<and> \<not> is_eof h \<and> \<not> is_fail h"

lemma is_open_read_good: "FileExist fs p \<Longrightarrow> is_good_at (is_open_read p fs) (c_path p) 0"
  by (simp add: is_open_read_def is_good_at_def)

lemma is_read_full:
  assumes "is_good_at h p pos" and "files fs p = Some c" and "pos + n \<le> length c"
    and "is_read h n fs = (bs, h')"
  shows "bs = take n (drop pos c)" and "is_good_at h' p (pos + n)"
  using assms by (auto simp: is_read_def is_good_at_def is_content_def Let_def)

lemma is_read_at_end:
  assumes "is_good_at h p pos" and "files fs p = Some c" and "pos = length c" and "0 < n"
  shows "is_read h n fs = ([], h\<lparr>is_eof := True, is_fail := True\<rparr>)"
  using assms by (simp add: is_read_def is_good_at_def is_content_def)

end
