(* ===== verification/Databases.thy ===== *)
theory Databases
  imports File_Stream
begin

text \<open>
  The key/value stores: the abstract class \<open>AbsDatabase\<close> as a table of operations, the in-memory
  store with its database file (\<open>src/Database/inMemoryDatabase.cc\<close>), the LevelDB adapter, where the
  library calls are parameters, and the factory. The lemmas show that the in-memory store is a
  map and that the file written by the destructor loads back as the same map, whatever order
  the hash table is walked in.
\<close>

section \<open>The abstract interface\<close>

text \<open>
  The virtual functions; \<open>'d\<close> is the object. A query takes the old content of the output string
  and yields the status with the new content.
\<close>

record 'd AbsDatabase =
  vt_Query :: "'d \<Rightarrow> bytes \<Rightarrow> bytes \<Rightarrow> bool \<times> bytes"
  vt_Insert :: "'d \<Rightarrow> bytes \<Rightarrow> bytes \<Rightarrow> bool \<times> 'd"
  vt_InsertBuffer :: "'d \<Rightarrow> bytes \<Rightarrow> bytes \<Rightarrow> bool \<times> 'd"
  vt_InsertBothBuffer :: "'d \<Rightarrow> bytes \<Rightarrow> bytes \<Rightarrow> bool \<times> 'd"
  vt_QueryBuffer :: "'d \<Rightarrow> bytes \<Rightarrow> bytes \<Rightarrow> bool \<times> bytes"

section \<open>The in-memory store\<close>

record InMemoryDatabase =
  db_name :: bytes
  indexObj :: "(bytes \<times> bytes) list"

definition Query :: "InMemoryDatabase \<Rightarrow> bytes \<Rightarrow> bytes \<Rightarrow> bool \<times> bytes" where
  "Query db key value =
     (case map_of (indexObj db) key of Some v \<Rightarrow> (True, v) | None \<Rightarrow> (False, value))"

definition Insert :: "InMemoryDatabase \<Rightarrow> bytes \<Rightarrow> bytes \<Rightarrow> bool \<times> InMemoryDatabase" where
  "Insert db key value = (True, db\<lparr>indexObj := AList.update key value (indexObj db)\<rparr>)"

text \<open>\<open>buffer\<close> and \<open>key\<close> stand for the bytes at the pointers, as many as the size arguments say.\<close>

definition InsertBuffer :: "InMemoryDatabase \<Rightarrow> bytes \<Rightarrow> bytes \<Rightarrow> bool \<times> InMemoryDatabase" where
  "InsertBuffer db key buffer =
     (let valueStr = buffer in (True, db\<lparr>indexObj := AList.update key valueStr (indexObj db)\<rparr>))"

definition InsertBothBuffer :: "InMemoryDatabase \<Rightarrow> bytes \<Rightarrow> bytes \<Rightarrow> bool \<times> InMemoryDatabase" where
  "InsertBothBuffer db key buffer =
     (let keyStr = key; valueStr = buffer in
      (True, db\<lparr>indexObj := AList.update keyStr valueStr (indexObj db)\<rparr>))"

definition QueryBuffer :: "InMemoryDatabase \<Rightarrow> bytes \<Rightarrow> bytes \<Rightarrow> bool \<times> bytes" where
  "QueryBuffer db key value =
     (let keyStr = key in
      case map_of (indexObj db) keyStr of Some v \<Rightarrow> (True, v) | None \<Rightarrow> (False, value))"

definition inmem_vtable :: "InMemoryDatabase AbsDatabase" where
  "inmem_vtable = \<lparr>vt_Query = Query, vt_Insert = Insert, vt_InsertBuffer = InsertBuffer,
     vt_InsertBothBuffer = InsertBothBuffer, vt_QueryBuffer = QueryBuffer\<rparr>"

subsection \<open>The database file\<close>

text \<open>
  \<open>read\<close> into an \<open>int\<close> and into a string: a short read leaves the bytes it does not reach.
  An \<open>int\<close> of \<open>2 ^ 31\<close> or more is negative: \<open>resize\<close> with it asks for more than \<open>max_size()\<close> and throws.
\<close>

definition read_int :: "u32 \<Rightarrow> ifstream \<Rightarrow> filesys \<Rightarrow> u32 \<times> ifstream" where
  "read_int old h fs =
     (let (got, h') = is_read h 4 fs in (le_dec (got @ drop (length got) (le_enc 4 old)), h'))"

definition resize_str :: "bytes \<Rightarrow> nat \<Rightarrow> bytes" where
  "resize_str s n = take n s @ replicate (n - length s) 0"

definition read_string :: "bytes \<Rightarrow> u32 \<Rightarrow> ifstream \<Rightarrow> filesys \<Rightarrow> (bytes \<times> ifstream) result" where
  "read_string old n h fs =
     bindR (guardR (unat n < 2 ^ 31) Uncaught) (\<lambda>_.
       let s = resize_str old (unat n); (got, h') = is_read h (unat n) fs in
       Inr (got @ drop (length got) s, h'))"

text \<open>The loading loop; \<open>insert\<close> of an unordered map keeps an entry that is already there.\<close>

definition map_insert :: "bytes \<Rightarrow> bytes \<Rightarrow> (bytes \<times> bytes) list \<Rightarrow> (bytes \<times> bytes) list" where
  "map_insert k v xs = (if map_of xs k = None then AList.update k v xs else xs)"

definition remaining :: "ifstream \<Rightarrow> filesys \<Rightarrow> nat" where
  "remaining h fs = length (is_content h fs) - is_pos h"

lemma is_read_path: "is_path (snd (is_read h n fs)) = is_path h"
  by (simp add: is_read_def Let_def)

lemma remaining_read:
  assumes "is_read h n fs = (got, h')"
  shows "remaining h' fs \<le> remaining h fs" and "got \<noteq> [] \<Longrightarrow> remaining h' fs < remaining h fs"
  using assms by (auto simp: is_read_def remaining_def is_content_def Let_def split: if_splits)

function load_loop :: "filesys \<Rightarrow> bytes \<Rightarrow> bytes \<Rightarrow> (bytes \<times> bytes) list \<Rightarrow> ifstream \<Rightarrow>
    (bytes \<times> bytes) list result" where
  "load_loop fs key value index h =
     (case read_int 0 h fs of (itemSize, h1) \<Rightarrow>
      if itemSize = 0 then Inr index
      else case read_string key itemSize h1 fs of
        Inl e \<Rightarrow> Inl e
      | Inr (key', h2) \<Rightarrow>
        (case read_int itemSize h2 fs of (itemSize', h3) \<Rightarrow>
         (case read_string value itemSize' h3 fs of
            Inl e \<Rightarrow> Inl e
          | Inr (value', h4) \<Rightarrow>
             let index' = map_insert key' value' index in
             if is_eof h4 then Inr index' else load_loop fs key' value' index' h4)))"
  by pat_completeness auto

lemma read_int_progress:
  assumes "read_int 0 h fs = (n, h')" and "n \<noteq> 0"
  shows "remaining h' fs < remaining h fs"
proof -
  obtain got where got: "is_read h 4 fs = (got, h')"
    using assms(1) by (auto simp: read_int_def Let_def split: prod.splits)
  have "got \<noteq> []"
  proof
    assume "got = []"
    then have "n = le_dec (le_enc 4 (0 :: u32))"
      using assms(1) got by (simp add: read_int_def)
    then show False
      using assms(2) by (simp del: le_enc.simps)
  qed
  then show ?thesis
    using remaining_read(2) [OF got] by blast
qed

lemma read_string_progress:
  "read_string old n h fs = Inr (s, h') \<Longrightarrow> remaining h' fs \<le> remaining h fs"
  by (auto simp: read_string_def bindR_eq_Inr Let_def split: prod.splits dest: remaining_read(1))

lemma read_int_mono: "read_int old h fs = (n, h') \<Longrightarrow> remaining h' fs \<le> remaining h fs"
  by (auto simp: read_int_def Let_def split: prod.splits dest: remaining_read(1))

lemma load_progress:
  assumes "(n, h1) = read_int 0 h fs" and "n \<noteq> 0" and "read_string key n h1 fs = Inr (k', h2)"
    and "(n', h3) = read_int n h2 fs" and "read_string val n' h3 fs = Inr (v', h4)"
  shows "remaining h4 fs < remaining h fs"
  using read_int_progress [OF assms(1) [symmetric] assms(2)] read_string_progress [OF assms(3)]
    read_int_mono [OF assms(4) [symmetric]] read_string_progress [OF assms(5)] by linarith

termination load_loop
  by (relation "measure (\<lambda>(fs, _, _, _, h). remaining h fs)") (auto intro: load_progress)

declare load_loop.simps [simp del]

definition OpenDB :: "bytes \<Rightarrow> filesys \<Rightarrow> InMemoryDatabase \<Rightarrow> InMemoryDatabase result" where
  "OpenDB dbName fs db =
     (let db1 = db\<lparr>db_name := dbName\<rparr>;
          h = is_open_read dbName fs;
          beginSize = is_tellg h;
          h1 = is_seekg_end h fs;
          fileSize = is_tellg h1 - beginSize in
      if fileSize = 0 then Inr db1
      else bindR (load_loop fs [] [] (indexObj db1) (is_seekg_beg h1)) (\<lambda>index.
             Inr (db1\<lparr>indexObj := index\<rparr>)))"

definition InMemoryDatabase_new :: "bytes \<Rightarrow> filesys \<Rightarrow> InMemoryDatabase result" where
  "InMemoryDatabase_new dbName fs = OpenDB dbName fs \<lparr>db_name = [], indexObj = []\<rparr>"

text \<open>
  The destructor. \<open>order\<close> is the iteration order of the unordered map. A size that does not fit an
  \<open>int\<close> would make the byte count of \<open>write\<close> negative.
\<close>

definition write_item :: "bytes \<Rightarrow> ofstream \<times> filesys \<Rightarrow> (ofstream \<times> filesys) result" where
  "write_item s hfs =
     (let itemSize = of_nat (length s) :: u32 in
      bindR (guardR (length s < 2 ^ 31) Undefined) (\<lambda>_.
        let (h1, fs1) = os_write (fst hfs) (le_enc 4 itemSize) (snd hfs) in
        Inr (os_write h1 s fs1)))"

fun write_items :: "(bytes \<times> bytes) list \<Rightarrow> ofstream \<times> filesys \<Rightarrow> (ofstream \<times> filesys) result" where
  "write_items [] hfs = Inr hfs"
| "write_items ((k, v) # xs) hfs =
     bindR (write_item k hfs) (\<lambda>hfs1. bindR (write_item v hfs1) (\<lambda>hfs2. write_items xs hfs2))"

definition InMemoryDatabase_delete ::
    "((bytes \<times> bytes) list \<Rightarrow> (bytes \<times> bytes) list) \<Rightarrow> InMemoryDatabase \<Rightarrow> filesys \<Rightarrow> filesys result" where
  "InMemoryDatabase_delete order db fs =
     bindR (write_items (order (indexObj db)) (os_open_trunc (db_name db) fs)) (\<lambda>(h, fs'). Inr fs')"

section \<open>The in-memory store is a map\<close>

definition inmem_inv :: "InMemoryDatabase \<Rightarrow> bool" where
  "inmem_inv db \<longleftrightarrow> distinct (map fst (indexObj db))"

definition inmem_abs :: "InMemoryDatabase \<Rightarrow> bytes \<rightharpoonup> bytes" where
  "inmem_abs db = map_of (indexObj db)"

text \<open>What the index relies on: the contract of \<open>AbsDatabase\<close>.\<close>

locale key_value_store =
  fixes vt :: "'d AbsDatabase"
    and inv :: "'d \<Rightarrow> bool"
    and abs :: "'d \<Rightarrow> bytes \<rightharpoonup> bytes"
  assumes query_law: "inv d \<Longrightarrow>
      vt_Query vt d k old = (case abs d k of Some v \<Rightarrow> (True, v) | None \<Rightarrow> (False, old))"
    and insert_law: "inv d \<Longrightarrow>
      \<exists>d'. vt_Insert vt d k v = (True, d') \<and> inv d' \<and> abs d' = (abs d)(k \<mapsto> v)"
    and buffers_law: "inv d \<Longrightarrow> vt_InsertBuffer vt d k v = vt_Insert vt d k v \<and>
      vt_InsertBothBuffer vt d k v = vt_Insert vt d k v \<and> vt_QueryBuffer vt d k old = vt_Query vt d k old"
begin

lemma query_after_insert:
  assumes "inv d"
  shows "\<exists>d'. vt_Insert vt d k v = (True, d') \<and> inv d' \<and> vt_Query vt d' k old = (True, v) \<and>
     (\<forall>k'. k' \<noteq> k \<longrightarrow> vt_Query vt d' k' old = vt_Query vt d k' old)"
proof -
  obtain d' where d': "vt_Insert vt d k v = (True, d')" "inv d'" "abs d' = (abs d)(k \<mapsto> v)"
    using insert_law [OF assms] by blast
  then show ?thesis
    using query_law [OF d'(2)] query_law [OF assms] by simp
qed

lemma query_hit_iff: "inv d \<Longrightarrow> fst (vt_Query vt d k old) \<longleftrightarrow> k \<in> dom (abs d)"
  by (auto simp: query_law dom_def split: option.splits)

end

interpretation inmem: key_value_store inmem_vtable inmem_inv inmem_abs
  by unfold_locales
    (auto simp: inmem_vtable_def inmem_inv_def inmem_abs_def Query_def Insert_def InsertBuffer_def
      InsertBothBuffer_def QueryBuffer_def distinct_update update_conv' Let_def)

section \<open>The database file loads back\<close>

definition enc_item :: "bytes \<Rightarrow> bytes" where
  "enc_item s = le_enc 4 (of_nat (length s) :: u32) @ s"

definition enc_items :: "(bytes \<times> bytes) list \<Rightarrow> bytes" where
  "enc_items xs = concat (map (\<lambda>(k, v). enc_item k @ enc_item v) xs)"

definition storable :: "bytes \<times> bytes \<Rightarrow> bool" where
  "storable kv \<longleftrightarrow> fst kv \<noteq> [] \<and> length (fst kv) < 2 ^ 31 \<and> length (snd kv) < 2 ^ 31"

lemma enc_items_simps [simp]:
  "enc_items [] = []" "enc_items ((k, v) # xs) = enc_item k @ enc_item v @ enc_items xs"
  by (simp_all add: enc_items_def)

lemma length_enc_item [simp]: "length (enc_item s) = 4 + length s"
  by (simp add: enc_item_def)

lemma enc_item_nonempty [simp]: "enc_item s \<noteq> []"
  using length_enc_item [of s] by fastforce

lemma write_item_at_end:
  assumes "os_at_end h fs" and "length s < 2 ^ 31"
  shows "\<exists>h' fs'. write_item s (h, fs) = Inr (h', fs') \<and> os_at_end h' fs' \<and> os_path h' = os_path h \<and>
     files fs' = (files fs)(os_path h \<mapsto> the (files fs (os_path h)) @ enc_item s)"
proof -
  obtain h1 fs1 where w1: "os_write h (le_enc 4 (of_nat (length s) :: u32)) fs = (h1, fs1)"
    by fastforce
  obtain h2 fs2 where w2: "os_write h1 s fs1 = (h2, fs2)"
    by fastforce
  show ?thesis
    using os_write_appends [OF assms(1) w1] os_write_appends [OF _ w2] w1 w2 assms(2)
    by (simp add: write_item_def enc_item_def)
qed

lemma write_items_at_end:
  assumes "os_at_end h fs" and "list_all storable xs"
  shows "\<exists>h' fs'. write_items xs (h, fs) = Inr (h', fs') \<and>
     files fs' = (files fs)(os_path h \<mapsto> the (files fs (os_path h)) @ enc_items xs)"
  using assms
proof (induction xs arbitrary: h fs)
  case Nil
  then show ?case
    by (auto simp: os_at_end_def)
next
  case (Cons kv xs)
  obtain k v where kv: "kv = (k, v)"
    by (cases kv)
  obtain h1 fs1 where 1: "write_item k (h, fs) = Inr (h1, fs1)" "os_at_end h1 fs1" "os_path h1 = os_path h"
      "files fs1 = (files fs)(os_path h \<mapsto> the (files fs (os_path h)) @ enc_item k)"
    using write_item_at_end [of h fs k] Cons.prems kv by (auto simp: storable_def)
  obtain h2 fs2 where 2: "write_item v (h1, fs1) = Inr (h2, fs2)" "os_at_end h2 fs2" "os_path h2 = os_path h"
      "files fs2 = (files fs)(os_path h \<mapsto> the (files fs (os_path h)) @ enc_item k @ enc_item v)"
    using write_item_at_end [OF 1(2), of v] 1 Cons.prems kv by (auto simp: storable_def)
  show ?case
    using Cons.IH [OF 2(2)] 1(1) 2 Cons.prems kv by (auto simp: fun_eq_iff)
qed

text \<open>Reading one item written by \<open>write_item\<close>.\<close>

lemma read_item:
  assumes good: "is_good_at h p pos" and fl: "files fs p = Some c"
    and rest: "drop pos c = enc_item s @ r" and len: "length s < 2 ^ 31"
  shows "\<exists>h1 h2. read_int n h fs = (of_nat (length s), h1) \<and>
     read_string old (of_nat (length s)) h1 fs = Inr (s, h2) \<and> is_good_at h2 p (pos + length (enc_item s))"
proof -
  have "length (drop pos c) = 4 + length s + length r"
    by (simp add: rest)
  then have l: "pos + 4 + length s \<le> length c"
    by simp
  have un: "unat (of_nat (length s) :: u32) = length s"
    using len by (simp add: unat_of_nat_u32)
  obtain g1 h1 where r1: "is_read h 4 fs = (g1, h1)"
    by fastforce
  have g1: "g1 = le_enc 4 (of_nat (length s) :: u32)" "is_good_at h1 p (pos + 4)"
    using is_read_full [OF good fl _ r1] l rest by (simp_all add: enc_item_def)
  obtain g2 h2 where r2: "is_read h1 (length s) fs = (g2, h2)"
    by fastforce
  have "drop (pos + 4) c = s @ r"
    using arg_cong [OF rest, of "drop 4"] by (simp add: enc_item_def add.commute)
  then have g2: "g2 = s" "is_good_at h2 p (pos + 4 + length s)"
    using is_read_full [OF g1(2) fl _ r2] l by simp_all
  show ?thesis
    using r1 r2 g1 g2 un len
    by (auto simp: read_int_def read_string_def resize_str_def add.assoc simp del: le_enc.simps)
qed

lemma map_insert_new: "k \<notin> fst ` set xs \<Longrightarrow> map_insert k v xs = xs @ [(k, v)]"
  by (simp add: map_insert_def map_of_eq_None_iff alist_update_new)

lemma load_loop_items:
  assumes "is_good_at h p pos" and "files fs p = Some c" and "drop pos c = enc_items xs" and "pos \<le> length c"
    and "list_all storable xs" and "distinct (map fst (index @ xs))"
  shows "load_loop fs key val index h = Inr (index @ xs)"
  using assms
proof (induction xs arbitrary: pos h key val index)
  case Nil
  then have "pos = length c"
    by simp
  then have "is_read h 4 fs = ([], h\<lparr>is_eof := True, is_fail := True\<rparr>)"
    using Nil.prems(1,2) by (intro is_read_at_end) simp_all
  then have "read_int 0 h fs = (0, h\<lparr>is_eof := True, is_fail := True\<rparr>)"
    by (simp add: read_int_def del: le_enc.simps)
  then show ?case
    by (subst load_loop.simps) simp
next
  case (Cons kv xs)
  obtain k v where kv: "kv = (k, v)"
    by (cases kv)
  have st: "k \<noteq> []" "length k < 2 ^ 31" "length v < 2 ^ 31"
    using Cons.prems kv by (simp_all add: storable_def)
  have d: "drop pos c = enc_item k @ enc_item v @ enc_items xs"
    using Cons.prems kv by simp
  obtain h1 h2 where 1: "read_int 0 h fs = (of_nat (length k), h1)"
      "read_string key (of_nat (length k)) h1 fs = Inr (k, h2)" "is_good_at h2 p (pos + length (enc_item k))"
    using read_item [OF Cons.prems(1,2) d st(2)] by blast
  have d2: "drop (pos + length (enc_item k)) c = enc_item v @ enc_items xs"
    using arg_cong [OF d, of "drop (length (enc_item k))"] by (simp add: add.commute)
  obtain h3 h4 where 2: "read_int (of_nat (length k)) h2 fs = (of_nat (length v), h3)"
      "read_string val (of_nat (length v)) h3 fs = Inr (v, h4)"
      "is_good_at h4 p (pos + length (enc_item k) + length (enc_item v))"
    using read_item [OF 1(3) Cons.prems(2) d2 st(3)] by blast
  have d4: "drop (pos + length (enc_item k) + length (enc_item v)) c = enc_items xs"
    using arg_cong [OF d2, of "drop (length (enc_item v))"] by (simp add: add.commute)
  have "length (drop pos c) = length (enc_item k) + length (enc_item v) + length (enc_items xs)"
    by (simp only: d length_append)
  then have le: "pos + length (enc_item k) + length (enc_item v) \<le> length c"
    using Cons.prems(4) by simp
  have nz: "(of_nat (length k) :: u32) \<noteq> 0"
    using st unat_of_nat_u32 [of "length k"] by auto
  have ins: "map_insert k v index = index @ [(k, v)]"
    using Cons.prems kv by (intro map_insert_new) auto
  have "load_loop fs k v (index @ [(k, v)]) h4 = Inr ((index @ [(k, v)]) @ xs)"
    using Cons.prems kv by (intro Cons.IH [OF 2(3) Cons.prems(2) d4 le]) auto
  moreover have "\<not> is_eof h4"
    using 2(3) by (simp add: is_good_at_def)
  ultimately show ?case
    using 1 2 nz ins kv by (subst load_loop.simps) (simp add: Let_def)
qed

lemma OpenDB_file:
  assumes "files fs (c_path name) = Some (enc_items xs)" and "list_all storable xs"
    and "distinct (map fst xs)" and "length (enc_items xs) < 2 ^ 64"
  shows "InMemoryDatabase_new name fs = Inr \<lparr>db_name = name, indexObj = xs\<rparr>"
proof -
  have ex: "FileExist fs name"
    using assms(1) by (simp add: FileExist_def)
  note good = is_open_read_good [OF ex]
  let ?h = "is_open_read name fs"
  have c: "is_content ?h fs = enc_items xs"
    using good assms(1) by (simp add: is_content_def is_good_at_def)
  have sz: "is_tellg (is_seekg_end ?h fs) - is_tellg ?h = of_nat (length (enc_items xs))"
    using good c by (simp add: is_tellg_def is_seekg_end_def is_good_at_def)
  have "is_good_at (is_seekg_beg (is_seekg_end ?h fs)) (c_path name) 0"
    using good by (simp add: is_good_at_def is_seekg_beg_def is_seekg_end_def)
  then have load: "load_loop fs [] [] [] (is_seekg_beg (is_seekg_end ?h fs)) = Inr xs"
    using load_loop_items [of _ _ 0 fs "enc_items xs" xs "[]"] assms by simp
  have "xs = []" if "of_nat (length (enc_items xs)) = (0 :: u64)"
  proof -
    have "length (enc_items xs) = 0"
      using that assms(4) unat_of_nat_u64 [OF assms(4)] by simp
    then show ?thesis
      by (cases xs) auto
  qed
  then show ?thesis
    using load sz by (auto simp: InMemoryDatabase_new_def OpenDB_def Let_def)
qed

lemma InMemoryDatabase_delete_file:
  assumes "openable fs (c_path (db_name db))" and "list_all storable (order (indexObj db))"
  shows "\<exists>fs'. InMemoryDatabase_delete order db fs = Inr fs' \<and>
     files fs' = (files fs)(c_path (db_name db) \<mapsto> enc_items (order (indexObj db)))"
proof -
  obtain h fs1 where o: "os_open_trunc (db_name db) fs = (h, fs1)"
    by fastforce
  note at = os_open_trunc_at_end [OF assms(1) o]
  show ?thesis
    using write_items_at_end [of h fs1 "order (indexObj db)"] at assms(2) o
    by (auto simp: InMemoryDatabase_delete_def fun_eq_iff)
qed

lemma OpenDB_missing:
  "files fs (c_path name) = None \<Longrightarrow> InMemoryDatabase_new name fs = Inr \<lparr>db_name = name, indexObj = []\<rparr>"
  by (simp add: InMemoryDatabase_new_def OpenDB_def is_open_read_def FileExist_def is_tellg_def is_seekg_end_def)

section \<open>The LevelDB store\<close>

text \<open>
  \<open>get\<close> and \<open>put\<close> stand for \<open>leveldb::DB::Get\<close> and \<open>Put\<close> on an open database: the status and the
  value found, the status and the new database. \<open>openDB\<close> stands for \<open>leveldb::DB::Open\<close>.
\<close>

record 'l LeveldbDatabase =
  ldb_name :: bytes
  levelDBObj :: "'l option"

definition Level_OpenDB :: "(bytes \<Rightarrow> 'l option) \<Rightarrow> bytes \<Rightarrow> filesys \<Rightarrow> 'l LeveldbDatabase
    \<Rightarrow> (bool \<times> 'l LeveldbDatabase) result" where
  "Level_OpenDB openDB dbName fs db =
     (if FileExist fs (str ''.'' @ dbName @ str ''.lock'') then Inr (False, db)
      else case openDB dbName of
             None \<Rightarrow> Inl AssertFailed
           | Some l \<Rightarrow> Inr (True, db\<lparr>ldb_name := dbName, levelDBObj := Some l\<rparr>))"

definition LeveldbDatabase_new :: "(bytes \<Rightarrow> 'l option) \<Rightarrow> bytes \<Rightarrow> filesys \<Rightarrow> 'l LeveldbDatabase result" where
  "LeveldbDatabase_new openDB dbName fs =
     bindR (Level_OpenDB openDB dbName fs \<lparr>ldb_name = [], levelDBObj = None\<rparr>) (\<lambda>(_, db). Inr db)"

definition Level_Query :: "('l \<Rightarrow> bytes \<Rightarrow> bytes \<Rightarrow> bool \<times> bytes) \<Rightarrow> 'l LeveldbDatabase \<Rightarrow> bytes \<Rightarrow> bytes
    \<Rightarrow> (bool \<times> bytes) result" where
  "Level_Query get db key val =
     (case levelDBObj db of None \<Rightarrow> Inl Undefined | Some l \<Rightarrow> Inr (get l key val))"

definition Level_Insert :: "('l \<Rightarrow> bytes \<Rightarrow> bytes \<Rightarrow> bool \<times> 'l) \<Rightarrow> 'l LeveldbDatabase \<Rightarrow> bytes \<Rightarrow> bytes
    \<Rightarrow> (bool \<times> 'l LeveldbDatabase) result" where
  "Level_Insert put db key val =
     (case levelDBObj db of
        None \<Rightarrow> Inl Undefined
      | Some l \<Rightarrow> (let (ok, l') = put l key val in Inr (ok, db\<lparr>levelDBObj := Some l'\<rparr>)))"

text \<open>The variants on buffers make the same calls of the library, with the buffers as slices.\<close>

definition Level_InsertBuffer :: "('l \<Rightarrow> bytes \<Rightarrow> bytes \<Rightarrow> bool \<times> 'l) \<Rightarrow> 'l LeveldbDatabase \<Rightarrow> bytes \<Rightarrow> bytes
    \<Rightarrow> (bool \<times> 'l LeveldbDatabase) result" where
  "Level_InsertBuffer put db key buffer =
     (case levelDBObj db of
        None \<Rightarrow> Inl Undefined
      | Some l \<Rightarrow> (let (ok, l') = put l key buffer in Inr (ok, db\<lparr>levelDBObj := Some l'\<rparr>)))"

definition Level_InsertBothBuffer :: "('l \<Rightarrow> bytes \<Rightarrow> bytes \<Rightarrow> bool \<times> 'l) \<Rightarrow> 'l LeveldbDatabase \<Rightarrow> bytes \<Rightarrow> bytes
    \<Rightarrow> (bool \<times> 'l LeveldbDatabase) result" where
  "Level_InsertBothBuffer put db key buffer =
     (case levelDBObj db of
        None \<Rightarrow> Inl Undefined
      | Some l \<Rightarrow> (let (ok, l') = put l key buffer in Inr (ok, db\<lparr>levelDBObj := Some l'\<rparr>)))"

definition Level_QueryBuffer :: "('l \<Rightarrow> bytes \<Rightarrow> bytes \<Rightarrow> bool \<times> bytes) \<Rightarrow> 'l LeveldbDatabase \<Rightarrow> bytes \<Rightarrow> bytes
    \<Rightarrow> (bool \<times> bytes) result" where
  "Level_QueryBuffer get db key val =
     (case levelDBObj db of None \<Rightarrow> Inl Undefined | Some l \<Rightarrow> Inr (get l key val))"

text \<open>The destructor removes the lock file.\<close>

definition LeveldbDatabase_delete :: "'l LeveldbDatabase \<Rightarrow> filesys \<Rightarrow> filesys" where
  "LeveldbDatabase_delete db fs =
     fs\<lparr>files := (files fs)(c_path (str ''.'' @ ldb_name db @ str ''.lock'') := None)\<rparr>"

section \<open>The factory\<close>

definition LEVEL_DB :: int where "LEVEL_DB = 1"
definition IN_MEMORY :: int where "IN_MEMORY = 3"

datatype 'l created = Leveldb "'l LeveldbDatabase" | InMemory InMemoryDatabase | NullDatabase

definition CreateDatabase :: "(bytes \<Rightarrow> 'l option) \<Rightarrow> int \<Rightarrow> bytes \<Rightarrow> filesys \<Rightarrow> 'l created result" where
  "CreateDatabase openDB ty path fs =
     (if ty = LEVEL_DB then bindR (LeveldbDatabase_new openDB path fs) (\<lambda>db. Inr (Leveldb db))
      else if ty = IN_MEMORY then bindR (InMemoryDatabase_new path fs) (\<lambda>db. Inr (InMemory db))
      else Inr NullDatabase)"

section \<open>Properties\<close>

text \<open>What the destructor writes, and what every constructor makes of a file with these bytes.\<close>

lemma database_reload:
  assumes inv: "inmem_inv db" and keys: "list_all storable (indexObj db)"
    and order: "mset (order (indexObj db)) = mset (indexObj db)"
    and open_ok: "openable fs (c_path (db_name db))" and small: "length (enc_items (order (indexObj db))) < 2 ^ 64"
  shows "\<exists>fs' db'. InMemoryDatabase_delete order db fs = Inr fs' \<and>
     files fs' = (files fs)(c_path (db_name db) \<mapsto> enc_items (order (indexObj db))) \<and>
     (\<forall>g. files g (c_path (db_name db)) = Some (enc_items (order (indexObj db))) \<longrightarrow> InMemoryDatabase_new (db_name db) g = Inr db') \<and>
     inmem_inv db' \<and> inmem_abs db' = inmem_abs db"
proof -
  let ?xs = "order (indexObj db)"
  have st: "list_all storable ?xs"
    using keys mset_eq_setD [OF order] by (simp add: list_all_iff)
  have "mset (map fst ?xs) = mset (map fst (indexObj db))"
    using order by simp
  then have d: "distinct (map fst ?xs)"
    using inv by (metis inmem_inv_def mset_eq_imp_distinct_iff)
  obtain fs' where fs': "InMemoryDatabase_delete order db fs = Inr fs'"
      "files fs' = (files fs)(c_path (db_name db) \<mapsto> enc_items ?xs)"
    using InMemoryDatabase_delete_file [of fs db order] open_ok st by blast
  have "InMemoryDatabase_new (db_name db) g = Inr \<lparr>db_name = db_name db, indexObj = ?xs\<rparr>" if "files g (c_path (db_name db)) = Some (enc_items ?xs)" for g
    using OpenDB_file [OF that st d small] .
  moreover have "map_of ?xs = map_of (indexObj db)"
    using d inv mset_eq_setD [OF order] by (simp add: inmem_inv_def map_of_inject_set)
  ultimately show ?thesis
    using fs' d by (intro exI [of _ fs'] exI [of _ "\<lparr>db_name = db_name db, indexObj = ?xs\<rparr>"]) (simp add: inmem_inv_def inmem_abs_def)
qed

text \<open>C27: a store with non-empty keys survives a restart: the file that the destructor writes, in whatever
  order the hash table is walked, loads back as a store with the same map from keys to values.\<close>

theorem database_file_roundtrip:
  assumes inv: "inmem_inv db" and keys: "list_all storable (indexObj db)"
    and order: "mset (order (indexObj db)) = mset (indexObj db)"
    and open_ok: "openable fs (c_path (db_name db))" and small: "length (enc_items (order (indexObj db))) < 2 ^ 64"
  shows "\<exists>fs' db'. InMemoryDatabase_delete order db fs = Inr fs' \<and>
     InMemoryDatabase_new (db_name db) fs' = Inr db' \<and> inmem_inv db' \<and> inmem_abs db' = inmem_abs db"
  using database_reload [of db order, OF assms] by fastforce

definition demo_fs :: filesys where
  "demo_fs = \<lparr>files = (\<lambda>_. None), openable = (\<lambda>_. True)\<rparr>"

definition demo_db :: InMemoryDatabase where
  "demo_db = \<lparr>db_name = [100], indexObj = [([1], [2]), ([3, 4], [])]\<rparr>"

theorem database_file_roundtrip_witness:
  "\<exists>fs' db'. InMemoryDatabase_delete rev demo_db demo_fs = Inr fs' \<and>
     InMemoryDatabase_new [100] fs' = Inr db' \<and> inmem_abs db' [3, 4] = Some []"
proof -
  have "inmem_inv demo_db" "list_all storable (indexObj demo_db)" "openable demo_fs (c_path (db_name demo_db))"
    by (simp_all add: inmem_inv_def demo_db_def storable_def demo_fs_def)
  moreover have "length (enc_items (rev (indexObj demo_db))) < 2 ^ 64" "mset (rev (indexObj demo_db)) = mset (indexObj demo_db)"
    by (simp_all add: demo_db_def)
  ultimately obtain fs' db' where "InMemoryDatabase_delete rev demo_db demo_fs = Inr fs'"
      "InMemoryDatabase_new (db_name demo_db) fs' = Inr db'" "inmem_abs db' = inmem_abs demo_db"
    using database_file_roundtrip [of demo_db rev demo_fs] by blast
  then show ?thesis
    by (auto simp: demo_db_def inmem_abs_def)
qed

text \<open>The in-memory store behind the virtual interface behaves as a map: a query after an insert returns
  the inserted value and no other key changes; both insert variants and both query variants agree.\<close>

theorem inmem_insert_query:
  assumes "inmem_inv db"
  shows "\<exists>db'. vt_Insert inmem_vtable db k v = (True, db') \<and> inmem_inv db' \<and>
     vt_Query inmem_vtable db' k old = (True, v) \<and> vt_QueryBuffer inmem_vtable db' k old = (True, v) \<and>
     (\<forall>k'. k' \<noteq> k \<longrightarrow> vt_Query inmem_vtable db' k' old = vt_Query inmem_vtable db k' old) \<and>
     vt_InsertBuffer inmem_vtable db k v = (True, db') \<and> vt_InsertBothBuffer inmem_vtable db k v = (True, db')"
proof -
  obtain db' where db': "vt_Insert inmem_vtable db k v = (True, db')" "inmem_inv db'"
      "vt_Query inmem_vtable db' k old = (True, v)"
      "\<forall>k'. k' \<noteq> k \<longrightarrow> vt_Query inmem_vtable db' k' old = vt_Query inmem_vtable db k' old"
    using inmem.query_after_insert [OF assms] by blast
  then show ?thesis
    using inmem.buffers_law [OF assms, of k v old] inmem.buffers_law [OF db'(2), of k v old] by auto
qed

theorem inmem_insert_query_witness:
  "inmem_inv demo_db \<and> (\<exists>db'. vt_Insert inmem_vtable demo_db [9] [7] = (True, db') \<and>
     vt_Query inmem_vtable db' [9] [] = (True, [7]))"
proof -
  have "inmem_inv demo_db"
    by (simp add: inmem_inv_def demo_db_def)
  then show ?thesis
    using inmem_insert_query [of demo_db "[9]" "[7]" "[]"] by blast
qed

end
