(* ===== verification/Crypto_Primitive.thy ===== *)
theory Crypto_Primitive
  imports Chunk_Structure
begin

text \<open>
  \<open>CryptoPrimitive\<close> (\<open>src/Util/cryptoPrimitive.cc\<close>). OpenSSL is a parameter: \<open>evp_api\<close> holds the
  digest and the two cipher directions as functions, \<open>None\<close> where an \<open>EVP_\<close> call that the source checks
  reports an error. The model is what the source adds: the choice of algorithm, the fixed
  initialisation vector and associated data, and the size checks.
\<close>

record evp_api =
  evp_digest :: "HASH_SET \<Rightarrow> bytes \<Rightarrow> bytes option"
  evp_encrypt :: "ENCRYPT_SET \<Rightarrow> bytes \<Rightarrow> bytes \<Rightarrow> bytes \<Rightarrow> bytes \<Rightarrow> bytes option"
  evp_decrypt :: "ENCRYPT_SET \<Rightarrow> bytes \<Rightarrow> bytes \<Rightarrow> bytes \<Rightarrow> bytes \<Rightarrow> bytes option"

record CryptoPrimitive =
  cp_cipherType :: ENCRYPT_SET
  cp_hashType :: HASH_SET
  cp_iv :: bytes

definition gcm_aad :: bytes where
  "gcm_aad = [0x4d, 0x23, 0xc3, 0xce, 0xc3, 0x34, 0xb4, 0x9b, 0xdb, 0x37, 0x0c, 0x43,
     0x7f, 0xec, 0x78, 0xde]"

definition CryptoPrimitive_new :: "ENCRYPT_SET \<Rightarrow> HASH_SET \<Rightarrow> CryptoPrimitive" where
  "CryptoPrimitive_new cipherType hashType =
     \<lparr>cp_cipherType = cipherType, cp_hashType = hashType, cp_iv = replicate CRYPTO_BLOCK_SIZE 0\<rparr>"

definition expectedHashSize :: "HASH_SET \<Rightarrow> nat" where
  "expectedHashSize t = (case t of SHA_1 \<Rightarrow> 20 | SHA_256 \<Rightarrow> 32 | MD5 \<Rightarrow> 16)"

definition GenerateHash :: "evp_api \<Rightarrow> CryptoPrimitive \<Rightarrow> bytes \<Rightarrow> bytes result" where
  "GenerateHash evp cp data =
     (case evp_digest evp (cp_hashType cp) data of
        None \<Rightarrow> Inl ExitFailure
      | Some h \<Rightarrow> if length h \<noteq> expectedHashSize (cp_hashType cp) then Inl ExitFailure else Inr h)"

text \<open>The associated data of a mode: only the GCM modes pass \<open>gcm_aad\<close>.\<close>

definition aad_of :: "ENCRYPT_SET \<Rightarrow> bytes" where
  "aad_of t = (case t of AES_256_GCM \<Rightarrow> gcm_aad | AES_128_GCM \<Rightarrow> gcm_aad | AES_256_CFB \<Rightarrow> [] | AES_128_CFB \<Rightarrow> [])"

definition EncryptWithKey :: "evp_api \<Rightarrow> CryptoPrimitive \<Rightarrow> bytes \<Rightarrow> bytes \<Rightarrow> bytes result" where
  "EncryptWithKey evp cp data key =
     (case evp_encrypt evp (cp_cipherType cp) key (cp_iv cp) (aad_of (cp_cipherType cp)) data of
        None \<Rightarrow> Inl ExitFailure
      | Some c \<Rightarrow> if length c \<noteq> length data then Inl ExitFailure else Inr c)"

definition DecryptWithKey :: "evp_api \<Rightarrow> CryptoPrimitive \<Rightarrow> bytes \<Rightarrow> bytes \<Rightarrow> bytes result" where
  "DecryptWithKey evp cp ciphertext key =
     (case evp_decrypt evp (cp_cipherType cp) key (cp_iv cp) (aad_of (cp_cipherType cp)) ciphertext of
        None \<Rightarrow> Inl ExitFailure
      | Some p \<Rightarrow> if length p \<noteq> length ciphertext then Inl ExitFailure else Inr p)"

definition SessionKeyEnc :: "evp_api \<Rightarrow> CryptoPrimitive \<Rightarrow> bytes \<Rightarrow> bytes \<Rightarrow> bytes result" where
  "SessionKeyEnc evp cp data sessionKey =
     (case evp_encrypt evp AES_128_GCM sessionKey (cp_iv cp) gcm_aad data of
        None \<Rightarrow> Inl ExitFailure
      | Some c \<Rightarrow> if length c \<noteq> length data then Inl ExitFailure else Inr c)"

definition SessionKeyDec :: "evp_api \<Rightarrow> CryptoPrimitive \<Rightarrow> bytes \<Rightarrow> bytes \<Rightarrow> bytes result" where
  "SessionKeyDec evp cp ciphertext sessionKey =
     (case evp_decrypt evp AES_128_GCM sessionKey (cp_iv cp) gcm_aad ciphertext of
        None \<Rightarrow> Inl ExitFailure
      | Some p \<Rightarrow> if length p \<noteq> length ciphertext then Inl ExitFailure else Inr p)"

lemma GenerateHash_length:
  "GenerateHash evp cp data = Inr h \<Longrightarrow> length h = expectedHashSize (cp_hashType cp)"
  by (auto simp: GenerateHash_def split: option.splits if_splits)

lemma GenerateHash_default:
  "GenerateHash evp (CryptoPrimitive_new CIPHER_TYPE HASH_TYPE) data = Inr h \<Longrightarrow> length h = CHUNK_HASH_SIZE"
  by (drule GenerateHash_length)
    (simp add: CryptoPrimitive_new_def expectedHashSize_def HASH_TYPE_def CHUNK_HASH_SIZE_def)

end
