(* ===== verification/Client_Var.thy ===== *)
theory Client_Var
  imports File_Stream Tool_Lib Read_Cache
begin

text \<open>
  The per-connection state \<open>ClientVar\<close> (\<open>include/clientVar.h\<close>, \<open>src/Util/clientVar.cc\<close>): stream
  handles, message buffers, the container being filled, and the restore buffers. The queue
  \<open>_inputMQ\<close> appears here as the sequence of containers pushed so far; the theory of the data
  writer connects that sequence with the real queue. OpenSSL handles carry no state of the model.
\<close>

section \<open>The world around a connection\<close>

text \<open>
  The file system, the generator behind \<open>rand()\<close>, and the contents of the memory that \<open>malloc\<close>
  and the stack hand out uninitialised, one buffer per use.
\<close>

record world =
  w_fs :: filesys
  w_rng :: rng
  w_mem :: "nat \<Rightarrow> buf"

definition fresh_mem :: "world \<Rightarrow> buf \<times> world" where
  "fresh_mem w = (w_mem w 0, w\<lparr>w_mem := (\<lambda>n. w_mem w (Suc n))\<rparr>)"

definition new_uuid :: "world \<Rightarrow> bytes \<times> world" where
  "new_uuid w = (let (i, r) = CreateUUID CONTAINER_ID_LENGTH (w_rng w) in (i, w\<lparr>w_rng := r\<rparr>))"

lemma fresh_mem_fs [simp]: "w_fs (snd (fresh_mem w)) = w_fs w" "w_rng (snd (fresh_mem w)) = w_rng w"
  by (simp_all add: fresh_mem_def)

lemma new_uuid_fs [simp]: "w_fs (snd (new_uuid w)) = w_fs w" "length (fst (new_uuid w)) = CONTAINER_ID_LENGTH"
  by (simp_all add: new_uuid_def Let_def split_beta)

section \<open>State\<close>

record ReqContainer_t =
  rq_idBuffer :: buf
  rq_containerArray :: "nat \<Rightarrow> buf"
  rq_idNum :: u32

text \<open>The private members \<open>optType_\<close> to \<open>keyRecipePath_\<close> come first, as in the class; \<open>cv_pushed\<close> and \<open>cv_done\<close> are what the
  connection has handed to \<open>_inputMQ\<close>. The crypto contexts and the connection are arguments of the operations.\<close>

record ClientVar =
  cv_optType :: int
  cv_sendChunkBatchSize :: u64
  cv_sendRecipeBatchSize :: u64
  cv_recipePath :: bytes
  cv_secureRecipePath :: bytes
  cv_keyRecipePath :: bytes
  cv_clientID :: u32
  cv_recipeW :: ofstream
  cv_recipeR :: ifstream
  cv_secureRecipeW :: ofstream
  cv_secureRecipeR :: ifstream
  cv_keyRecipeW :: ofstream
  cv_keyRecipeR :: ifstream
  cv_curContainer :: InmemoryContainer_t
  cv_pushed :: "Container_t list"
  cv_done :: bool
  cv_recvChunkBuf :: SendMsgBuffer_t
  cv_fileSize :: u64
  cv_totalChunkNum :: u64
  cv_sendRecipeBuf :: SendMsgBuffer_t
  cv_reqContainer :: ReqContainer_t
  cv_containerCache :: ReadCache
  cv_sendChunkBuf :: SendMsgBuffer_t
  cv_downloadChunkBase :: "nat \<Rightarrow> DownloadChunkEntry_t"
  cv_uploadDataSize :: u64

definition opt_code :: "OPT_TYPE \<Rightarrow> int" where
  "opt_code t = (case t of UPLOAD_OPT \<Rightarrow> 0 | DOWNLOAD_RECIPE_OPT \<Rightarrow> 1 | DOWNLOAD_CHUNK_OPT \<Rightarrow> 2)"

section \<open>Recipe files\<close>

text \<open>Opening one recipe file for writing and putting the head in front.\<close>

definition init_recipe :: "bytes \<Rightarrow> FileRecipeHead_t \<Rightarrow> filesys \<Rightarrow> (ofstream \<times> filesys) result" where
  "init_recipe path head fs =
     (let (h, fs1) = os_open_trunc path fs in
      bindR (guardR (os_is_open h) ExitFailure) (\<lambda>_. Inr (os_write h (frh_enc head) fs1)))"

definition init_recipes :: "ClientVar \<Rightarrow> world \<Rightarrow> (ClientVar \<times> world) result" where
  "init_recipes cv w =
     (let virtualRecipeEnd = \<lparr>fileSize = cv_fileSize cv, totalChunkNum = cv_totalChunkNum cv\<rparr> in
      bindR (init_recipe (cv_recipePath cv) virtualRecipeEnd (w_fs w)) (\<lambda>(h1, fs1).
      bindR (init_recipe (cv_keyRecipePath cv) virtualRecipeEnd fs1) (\<lambda>(h2, fs2).
      bindR (init_recipe (cv_secureRecipePath cv) virtualRecipeEnd fs2) (\<lambda>(h3, fs3).
        Inr (cv\<lparr>cv_recipeW := h1, cv_keyRecipeW := h2, cv_secureRecipeW := h3\<rparr>, w\<lparr>w_fs := fs3\<rparr>)))))"

definition open_recipes :: "ClientVar \<Rightarrow> world \<Rightarrow> ClientVar result" where
  "open_recipes cv w =
     (let h1 = is_open_read (cv_recipePath cv) (w_fs w);
          h2 = is_open_read (cv_secureRecipePath cv) (w_fs w);
          h3 = is_open_read (cv_keyRecipePath cv) (w_fs w) in
      bindR (guardR (is_is_open h1) ExitFailure) (\<lambda>_.
      bindR (guardR (is_is_open h2) ExitFailure) (\<lambda>_.
      bindR (guardR (is_is_open h3) ExitFailure) (\<lambda>_.
        Inr (cv\<lparr>cv_recipeR := h1, cv_secureRecipeR := h2, cv_keyRecipeR := h3\<rparr>)))))"

section \<open>Construction\<close>

text \<open>A message buffer of \<open>n\<close> data bytes in fresh memory, its header partly set; \<open>messageType\<close>
  keeps what the memory held.\<close>

definition init_msg_buf :: "u32 \<Rightarrow> nat \<Rightarrow> buf \<Rightarrow> SendMsgBuffer_t" where
  "init_msg_buf cid n mem =
     (let b = \<lparr>sendBuffer = mem, sb_size = sizeof_NetworkHead + n\<rparr> in
      set_header ((header b)\<lparr>clientID := cid, currentItemNum := 0, dataSize := 0\<rparr>) b)"

text \<open>\<open>_curContainer.chunkNum\<close> is not set here: it keeps the value of the uninitialised object.\<close>

definition InitUploadBuffer :: "ClientVar \<Rightarrow> world \<Rightarrow> (ClientVar \<times> world) result" where
  "InitUploadBuffer cv w =
     (let (cid, w1) = new_uuid w;
          cv1 = cv\<lparr>cv_curContainer := (cv_curContainer cv)
                 \<lparr>ic_containerID := cid, ic_currentBodySize := 0, ic_currentHeaderSize := 0\<rparr>\<rparr>;
          (mem, w2) = fresh_mem w1;
          cv2 = cv1\<lparr>cv_recvChunkBuf := init_msg_buf (cv_clientID cv)
                  (unat (cv_sendChunkBatchSize cv) * (4 + MAX_CHUNK_SIZE)) mem,
                  cv_pushed := [], cv_done := False\<rparr>
      in init_recipes cv2 w2)"

definition InitDownloadRecipeBuffer :: "ClientVar \<Rightarrow> world \<Rightarrow> (ClientVar \<times> world) result" where
  "InitDownloadRecipeBuffer cv w =
     bindR (open_recipes cv w) (\<lambda>cv1.
       let (mem, w1) = fresh_mem w;
           entry = (if sizeof_RecipeEntry > sizeof_KeyRecipeEntry then sizeof_RecipeEntry
                    else sizeof_KeyRecipeEntry) in
       Inr (cv1\<lparr>cv_sendRecipeBuf := init_msg_buf (cv_clientID cv)
              (unat (cv_sendRecipeBatchSize cv) * entry) mem\<rparr>, w1))"

definition InitDownloadChunkBuffer :: "Configure \<Rightarrow> (nat \<Rightarrow> buf) \<Rightarrow> ClientVar \<Rightarrow> world \<Rightarrow> (ClientVar \<times> world) result" where
  "InitDownloadChunkBuffer cfg pool cv w =
     (let (ids, w1) = fresh_mem w;
          (mem, w2) = fresh_mem w1 in
      Inr (cv\<lparr>cv_reqContainer := (cv_reqContainer cv)\<lparr>rq_idBuffer := ids, rq_idNum := 0\<rparr>,
              cv_sendChunkBuf := init_msg_buf (cv_clientID cv)
                (unat (cv_sendChunkBatchSize cv) * (4 + MAX_CHUNK_SIZE)) mem,
              cv_containerCache := ReadCache_new cfg pool\<rparr>, w2))"

text \<open>
  The constructor on uninitialised storage \<open>raw\<close>; \<open>pool\<close> is the memory of the container cache.
\<close>

definition ClientVar_new :: "Configure \<Rightarrow> (nat \<Rightarrow> buf) \<Rightarrow> ClientVar \<Rightarrow> u32 \<Rightarrow> int \<Rightarrow> bytes \<Rightarrow> bytes \<Rightarrow> bytes
    \<Rightarrow> u64 \<Rightarrow> u64 \<Rightarrow> world \<Rightarrow> (ClientVar \<times> world) result" where
  "ClientVar_new cfg pool raw cid optType recipePath secureRecipePath keyRecipePath fsize tot w =
     (let cv = raw\<lparr>cv_clientID := cid, cv_optType := optType, cv_recipePath := recipePath,
            cv_secureRecipePath := secureRecipePath, cv_keyRecipePath := keyRecipePath,
            cv_fileSize := fsize, cv_totalChunkNum := tot,
            cv_sendChunkBatchSize := GetSendChunkBatchSize cfg,
            cv_sendRecipeBatchSize := GetSendRecipeBatchSize cfg,
            cv_recipeW := os_closed, cv_secureRecipeW := os_closed, cv_keyRecipeW := os_closed,
            cv_uploadDataSize := 0\<rparr> in
      if optType = opt_code UPLOAD_OPT then InitUploadBuffer cv w
      else if optType = opt_code DOWNLOAD_RECIPE_OPT then InitDownloadRecipeBuffer cv w
      else if optType = opt_code DOWNLOAD_CHUNK_OPT then InitDownloadChunkBuffer cfg pool cv w
      else Inl ExitFailure)"

section \<open>Destruction and change of file\<close>

text \<open>The third branch closes the key stream again; the secure stream is closed by its own destructor
  afterwards. \<open>delete _inputMQ\<close> stops the process when a container is still queued.\<close>

definition DestoryUploadBuffer :: "bool \<Rightarrow> ClientVar \<Rightarrow> ClientVar result" where
  "DestoryUploadBuffer queue_empty cv =
     (let cv1 = (if os_is_open (cv_recipeW cv) then cv\<lparr>cv_recipeW := os_close (cv_recipeW cv)\<rparr> else cv);
          cv2 = (if os_is_open (cv_keyRecipeW cv1) then cv1\<lparr>cv_keyRecipeW := os_close (cv_keyRecipeW cv1)\<rparr> else cv1);
          cv3 = (if os_is_open (cv_secureRecipeW cv2) then cv2\<lparr>cv_keyRecipeW := os_close (cv_keyRecipeW cv2)\<rparr> else cv2)
      in bindR (guardR queue_empty ExitFailure) (\<lambda>_. Inr cv3))"

definition DestoryDownloadRecipeBuffer :: "ClientVar \<Rightarrow> ClientVar" where
  "DestoryDownloadRecipeBuffer cv =
     (let cv1 = (if is_is_open (cv_recipeR cv) then cv\<lparr>cv_recipeR := is_close (cv_recipeR cv)\<rparr> else cv);
          cv2 = (if is_is_open (cv_keyRecipeR cv1) then cv1\<lparr>cv_keyRecipeR := is_close (cv_keyRecipeR cv1)\<rparr> else cv1)
      in if is_is_open (cv_secureRecipeR cv2) then cv2\<lparr>cv_secureRecipeR := is_close (cv_secureRecipeR cv2)\<rparr> else cv2)"

definition recipe_path :: "Configure \<Rightarrow> bytes \<Rightarrow> bytes" where
  "recipe_path cfg name = GetRecipeRootPath cfg @ name @ GetRecipeSuffix cfg"

definition secure_recipe_path :: "Configure \<Rightarrow> bytes \<Rightarrow> bytes" where
  "secure_recipe_path cfg name = GetRecipeRootPath cfg @ name @ GetSecureRecipeSuffix cfg"

definition key_recipe_path :: "Configure \<Rightarrow> bytes \<Rightarrow> bytes" where
  "key_recipe_path cfg name = GetRecipeRootPath cfg @ name @ GetKeyRecipeSuffix cfg"

definition ChangeFile :: "Configure \<Rightarrow> bytes \<Rightarrow> u64 \<Rightarrow> u64 \<Rightarrow> ClientVar \<Rightarrow> world \<Rightarrow> (ClientVar \<times> world) result" where
  "ChangeFile cfg newFileName fsize tot cv w =
     (let cv1 = cv\<lparr>cv_recipePath := recipe_path cfg newFileName,
                   cv_secureRecipePath := secure_recipe_path cfg newFileName,
                   cv_keyRecipePath := key_recipe_path cfg newFileName,
                   cv_fileSize := fsize, cv_totalChunkNum := tot\<rparr> in
      if cv_optType cv = opt_code UPLOAD_OPT
      then init_recipes (cv1\<lparr>cv_recipeW := os_close (cv_recipeW cv1),
                             cv_keyRecipeW := os_close (cv_keyRecipeW cv1),
                             cv_secureRecipeW := os_close (cv_secureRecipeW cv1)\<rparr>) w
      else if cv_optType cv = opt_code DOWNLOAD_RECIPE_OPT
      then bindR (open_recipes (cv1\<lparr>cv_recipeR := is_close (cv_recipeR cv1),
                             cv_keyRecipeR := is_close (cv_keyRecipeR cv1),
                             cv_secureRecipeR := is_close (cv_secureRecipeR cv1)\<rparr>) w) (\<lambda>cv2. Inr (cv2, w))
      else Inr (cv1, w))"

section \<open>Recipe files after the set-up\<close>

lemma init_recipe_ok:
  assumes "openable fs (c_path path)"
  shows "\<exists>h fs'. init_recipe path head fs = Inr (h, fs') \<and> os_path h = c_path path \<and> os_is_open h \<and>
     os_pos h = sizeof_FileRecipeHead \<and> files fs' = (files fs)(c_path path \<mapsto> frh_enc head) \<and> openable fs' = openable fs"
  using assms by (simp add: init_recipe_def os_open_trunc_def os_write_def sizeof_FileRecipeHead_def)

lemma init_recipe_fails: "\<not> openable fs (c_path path) \<Longrightarrow> init_recipe path head fs = Inl ExitFailure"
  by (simp add: init_recipe_def os_open_trunc_def os_closed_def)

text \<open>The three recipe files of a connection as the writers see them: each holds \<open>head\<close> and entries, and
  each writer stands at the end of its file.\<close>

definition writer_at :: "ofstream \<Rightarrow> bytes \<Rightarrow> bytes \<Rightarrow> filesys \<Rightarrow> bool" where
  "writer_at h path content fs \<longleftrightarrow>
     os_is_open h \<and> os_path h = c_path path \<and> os_pos h = length content \<and> files fs (c_path path) = Some content"

definition paths_distinct :: "ClientVar \<Rightarrow> bool" where
  "paths_distinct cv \<longleftrightarrow>
     distinct [c_path (cv_recipePath cv), c_path (cv_keyRecipePath cv), c_path (cv_secureRecipePath cv)]"

definition recipes_open :: "ClientVar \<Rightarrow> bytes \<Rightarrow> bytes \<Rightarrow> bytes \<Rightarrow> filesys \<Rightarrow> bool" where
  "recipes_open cv r k s fs \<longleftrightarrow> writer_at (cv_recipeW cv) (cv_recipePath cv) r fs \<and>
     writer_at (cv_keyRecipeW cv) (cv_keyRecipePath cv) k fs \<and>
     writer_at (cv_secureRecipeW cv) (cv_secureRecipePath cv) s fs"

definition recipe_head :: "ClientVar \<Rightarrow> bytes" where
  "recipe_head cv = frh_enc \<lparr>fileSize = cv_fileSize cv, totalChunkNum = cv_totalChunkNum cv\<rparr>"

lemma init_recipes_ok:
  assumes d: "paths_distinct cv"
    and o: "openable (w_fs w) (c_path (cv_recipePath cv))" "openable (w_fs w) (c_path (cv_keyRecipePath cv))"
      "openable (w_fs w) (c_path (cv_secureRecipePath cv))"
  shows "\<exists>h1 h2 h3 fs. init_recipes cv w =
       Inr (cv\<lparr>cv_recipeW := h1, cv_keyRecipeW := h2, cv_secureRecipeW := h3\<rparr>, w\<lparr>w_fs := fs\<rparr>) \<and>
     recipes_open (cv\<lparr>cv_recipeW := h1, cv_keyRecipeW := h2, cv_secureRecipeW := h3\<rparr>)
       (recipe_head cv) (recipe_head cv) (recipe_head cv) fs \<and>
     files fs = (files (w_fs w))(c_path (cv_recipePath cv) \<mapsto> recipe_head cv,
        c_path (cv_keyRecipePath cv) \<mapsto> recipe_head cv, c_path (cv_secureRecipePath cv) \<mapsto> recipe_head cv) \<and>
     openable fs = openable (w_fs w)"
proof -
  let ?hd = "\<lparr>fileSize = cv_fileSize cv, totalChunkNum = cv_totalChunkNum cv\<rparr>"
  obtain h1 fs1 where 1: "init_recipe (cv_recipePath cv) ?hd (w_fs w) = Inr (h1, fs1)"
      "os_path h1 = c_path (cv_recipePath cv)" "os_is_open h1" "os_pos h1 = sizeof_FileRecipeHead"
      "files fs1 = (files (w_fs w))(c_path (cv_recipePath cv) \<mapsto> recipe_head cv)" "openable fs1 = openable (w_fs w)"
    using init_recipe_ok [OF o(1)] unfolding recipe_head_def by blast
  obtain h2 fs2 where 2: "init_recipe (cv_keyRecipePath cv) ?hd fs1 = Inr (h2, fs2)"
      "os_path h2 = c_path (cv_keyRecipePath cv)" "os_is_open h2" "os_pos h2 = sizeof_FileRecipeHead"
      "files fs2 = (files fs1)(c_path (cv_keyRecipePath cv) \<mapsto> recipe_head cv)" "openable fs2 = openable fs1"
    using init_recipe_ok [of fs1 "cv_keyRecipePath cv" ?hd] o(2) 1(6) unfolding recipe_head_def by auto
  obtain h3 fs3 where 3: "init_recipe (cv_secureRecipePath cv) ?hd fs2 = Inr (h3, fs3)"
      "os_path h3 = c_path (cv_secureRecipePath cv)" "os_is_open h3" "os_pos h3 = sizeof_FileRecipeHead"
      "files fs3 = (files fs2)(c_path (cv_secureRecipePath cv) \<mapsto> recipe_head cv)" "openable fs3 = openable fs2"
    using init_recipe_ok [of fs2 "cv_secureRecipePath cv" ?hd] o(3) 1(6) 2(6) unfolding recipe_head_def by auto
  have "length (recipe_head cv) = sizeof_FileRecipeHead"
    by (simp add: recipe_head_def sizeof_FileRecipeHead_def)
  then show ?thesis
    using 1 2 3 d by (intro exI [of _ h1] exI [of _ h2] exI [of _ h3] exI [of _ fs3])
      (simp add: init_recipes_def recipes_open_def writer_at_def paths_distinct_def)
qed

lemma init_recipes_fails:
  assumes "\<not> (openable (w_fs w) (c_path (cv_recipePath cv)) \<and> openable (w_fs w) (c_path (cv_keyRecipePath cv)) \<and>
     openable (w_fs w) (c_path (cv_secureRecipePath cv)))"
  shows "init_recipes cv w = Inl ExitFailure"
proof -
  have other: "init_recipe p hd fs = Inl ExitFailure \<or> (\<exists>h fs'. init_recipe p hd fs = Inr (h, fs') \<and> openable fs' = openable fs)"
    for p hd fs
    using init_recipe_ok [of fs p hd] init_recipe_fails [of fs p hd] by blast
  let ?hd = "\<lparr>fileSize = cv_fileSize cv, totalChunkNum = cv_totalChunkNum cv\<rparr>"
  show ?thesis
  proof (cases "openable (w_fs w) (c_path (cv_recipePath cv))")
    case True
    then obtain h1 fs1 where 1: "init_recipe (cv_recipePath cv) ?hd (w_fs w) = Inr (h1, fs1)" "openable fs1 = openable (w_fs w)"
      using init_recipe_ok [OF True] by blast
    show ?thesis
    proof (cases "openable (w_fs w) (c_path (cv_keyRecipePath cv))")
      case key: True
      then obtain h2 fs2 where 2: "init_recipe (cv_keyRecipePath cv) ?hd fs1 = Inr (h2, fs2)" "openable fs2 = openable (w_fs w)"
        using init_recipe_ok [of fs1 "cv_keyRecipePath cv" ?hd] 1(2) by auto
      show ?thesis
        using assms True key 1 2 by (simp add: init_recipes_def init_recipe_fails)
    qed (use 1 in \<open>simp add: init_recipes_def init_recipe_fails\<close>)
  qed (simp add: init_recipes_def init_recipe_fails)
qed

section \<open>Set-up of an upload connection\<close>

lemma init_msg_buf_simps [simp]:
  "data_size (init_msg_buf cid n mem) = n" "clientID (header (init_msg_buf cid n mem)) = cid"
  "currentItemNum (header (init_msg_buf cid n mem)) = 0" "dataSize (header (init_msg_buf cid n mem)) = 0"
  by (simp_all add: init_msg_buf_def data_size_def Let_def)

text \<open>Both outcomes of the constructor.\<close>

lemma upload_new_cases:
  fixes w :: world and fsz tot :: u64
  assumes "distinct [c_path rp, c_path kp, c_path sp]"
  defines "ok \<equiv> openable (w_fs w) (c_path rp) \<and> openable (w_fs w) (c_path kp) \<and> openable (w_fs w) (c_path sp)"
    and "head \<equiv> frh_enc \<lparr>fileSize = fsz, totalChunkNum = tot\<rparr>"
  shows "case ClientVar_new cfg pool raw cid (opt_code UPLOAD_OPT) rp sp kp fsz tot w of
     Inl e \<Rightarrow> \<not> ok \<and> e = ExitFailure
   | Inr (cv, w') \<Rightarrow> ok \<and> recipes_open cv head head head (w_fs w') \<and>
       files (w_fs w') = (files (w_fs w))(c_path rp \<mapsto> head, c_path kp \<mapsto> head, c_path sp \<mapsto> head) \<and>
       ic_currentBodySize (cv_curContainer cv) = 0 \<and> ic_currentHeaderSize (cv_curContainer cv) = 0 \<and>
       length (ic_containerID (cv_curContainer cv)) = CONTAINER_ID_LENGTH \<and> cv_pushed cv = [] \<and> \<not> cv_done cv \<and>
       data_size (cv_recvChunkBuf cv) = 256 * sizeof_Chunk \<and>
       header (cv_recvChunkBuf cv) = (header (cv_recvChunkBuf cv))\<lparr>clientID := cid, currentItemNum := 0, dataSize := 0\<rparr>"
proof -
  define cv where "cv = raw\<lparr>cv_clientID := cid, cv_optType := opt_code UPLOAD_OPT, cv_recipePath := rp,
            cv_secureRecipePath := sp, cv_keyRecipePath := kp,
            cv_fileSize := fsz, cv_totalChunkNum := tot,
            cv_sendChunkBatchSize := GetSendChunkBatchSize cfg,
            cv_sendRecipeBatchSize := GetSendRecipeBatchSize cfg,
            cv_recipeW := os_closed, cv_secureRecipeW := os_closed, cv_keyRecipeW := os_closed,
            cv_uploadDataSize := 0,
            cv_curContainer := (cv_curContainer raw)
                 \<lparr>ic_containerID := fst (new_uuid w), ic_currentBodySize := 0, ic_currentHeaderSize := 0\<rparr>,
            cv_recvChunkBuf := init_msg_buf cid (256 * sizeof_Chunk) (fst (fresh_mem (snd (new_uuid w)))),
            cv_pushed := [], cv_done := False\<rparr>"
  define w2 where "w2 = snd (fresh_mem (snd (new_uuid w)))"
  have fs: "w_fs w2 = w_fs w"
    by (simp add: w2_def)
  define r where "r = ClientVar_new cfg pool raw cid (opt_code UPLOAD_OPT) rp sp kp fsz tot w"
  have init: "r = init_recipes cv w2"
    by (simp add: r_def ClientVar_new_def InitUploadBuffer_def split_beta Let_def cv_def w2_def
        GetSendChunkBatchSize_def sizeof_Chunk_def)
  show ?thesis
  proof (cases ok)
    case True
    have "paths_distinct cv"
      using assms(1) by (simp add: paths_distinct_def cv_def)
    moreover have "openable (w_fs w2) (c_path (cv_recipePath cv))" "openable (w_fs w2) (c_path (cv_keyRecipePath cv))"
      "openable (w_fs w2) (c_path (cv_secureRecipePath cv))"
      using True fs by (simp_all add: ok_def cv_def)
    ultimately obtain h1 h2 h3 fs' where q: "r = Inr (cv\<lparr>cv_recipeW := h1, cv_keyRecipeW := h2, cv_secureRecipeW := h3\<rparr>, w2\<lparr>w_fs := fs'\<rparr>)"
        "recipes_open (cv\<lparr>cv_recipeW := h1, cv_keyRecipeW := h2, cv_secureRecipeW := h3\<rparr>) (recipe_head cv) (recipe_head cv) (recipe_head cv) fs'"
        "files fs' = (files (w_fs w2))(c_path (cv_recipePath cv) \<mapsto> recipe_head cv,
          c_path (cv_keyRecipePath cv) \<mapsto> recipe_head cv, c_path (cv_secureRecipePath cv) \<mapsto> recipe_head cv)"
      using init_recipes_ok init by metis
    moreover have "recipe_head cv = head"
      by (simp add: recipe_head_def head_def cv_def)
    moreover have "cv_recipePath cv = rp" "cv_keyRecipePath cv = kp" "cv_secureRecipePath cv = sp"
        "cv_curContainer cv = (cv_curContainer raw)
                 \<lparr>ic_containerID := fst (new_uuid w), ic_currentBodySize := 0, ic_currentHeaderSize := 0\<rparr>"
        "cv_recvChunkBuf cv = init_msg_buf cid (256 * sizeof_Chunk) (fst (fresh_mem (snd (new_uuid w))))"
        "cv_pushed cv = []" "\<not> cv_done cv"
      by (simp_all add: cv_def)
    ultimately show ?thesis
      using True fs by (simp flip: r_def)
  next
    case False
    then show ?thesis
      using init init_recipes_fails [of w2 cv] fs by (simp flip: r_def) (simp add: ok_def cv_def)
  qed
qed

text \<open>C28: The constructor of an upload connection either stops the process, exactly when one of the three
  recipe files cannot be created, or leaves the three files (whose paths differ) with the head of
  \<open>fileSize\<close> and \<open>totalChunkNum\<close> and their writers behind it, touches no other file, starts with
  an empty container with an 8-character name, nothing pushed, and a receive buffer with room for a full batch of
  chunks and a clean header.\<close>

theorem upload_setup:
  fixes w :: world and fsz tot :: u64
  assumes "distinct [c_path rp, c_path kp, c_path sp]"
  defines "ok \<equiv> openable (w_fs w) (c_path rp) \<and> openable (w_fs w) (c_path kp) \<and> openable (w_fs w) (c_path sp)"
    and "head \<equiv> frh_enc \<lparr>fileSize = fsz, totalChunkNum = tot\<rparr>"
  shows "case ClientVar_new cfg pool raw cid (opt_code UPLOAD_OPT) rp sp kp fsz tot w of
     Inl e \<Rightarrow> \<not> ok \<and> e = ExitFailure
   | Inr (cv, w') \<Rightarrow> ok \<and> recipes_open cv head head head (w_fs w') \<and>
       files (w_fs w') = (files (w_fs w))(c_path rp \<mapsto> head, c_path kp \<mapsto> head, c_path sp \<mapsto> head) \<and>
       ic_currentBodySize (cv_curContainer cv) = 0 \<and> ic_currentHeaderSize (cv_curContainer cv) = 0 \<and>
       length (ic_containerID (cv_curContainer cv)) = CONTAINER_ID_LENGTH \<and> cv_pushed cv = [] \<and> \<not> cv_done cv \<and>
       data_size (cv_recvChunkBuf cv) = 256 * sizeof_Chunk \<and>
       header (cv_recvChunkBuf cv) = (header (cv_recvChunkBuf cv))\<lparr>clientID := cid, currentItemNum := 0, dataSize := 0\<rparr>"
  unfolding assms(2,3) by (rule upload_new_cases) fact

definition demo_cfg :: Configure where
  "demo_cfg = \<lparr>cf_chunkingType = 1, cf_maxChunkSize = 16384, cf_avgChunkSize = 8192, cf_minChunkSize = 4096,
     cf_slidingWinSize = 128, cf_readSize = 128, cf_recipeRootPath = str ''Recipes/'', cf_recipeSuffix = str ''-recipe'',
     cf_secureRecipeSuffix = str ''-secureRecipe'', cf_keyRecipeSuffix = str ''-keyRecipe'',
     cf_containerRootPath = str ''Containers/'', cf_containerSuffix = str ''-container'', cf_fp2ChunkDBName = str ''db1'',
     cf_readCacheSize = 64, cf_storageServerIp = [], cf_storageServerPort = 16666, cf_clientID = 1,
     cf_sendChunkBatchSize = 128, cf_sendRecipeBatchSize = 1024, cf_localSecret = [], cf_keyServerIp = [],
     cf_keyServerPort = 1\<rparr>"

definition demo_world :: world where
  "demo_world = \<lparr>w_fs = \<lparr>files = (\<lambda>_. None), openable = (\<lambda>_. True)\<rparr>, w_rng = (\<lambda>n. n), w_mem = (\<lambda>_ _. 170)\<rparr>"

text \<open>Storage as the allocator may hand it out, with a message buffer.\<close>

definition demo_client :: "SendMsgBuffer_t \<Rightarrow> ClientVar" where
  "demo_client b = \<lparr>cv_optType = 0, cv_sendChunkBatchSize = 256, cv_sendRecipeBatchSize = 512, cv_recipePath = [],
     cv_secureRecipePath = [], cv_keyRecipePath = [], cv_clientID = 1, cv_recipeW = os_closed,
     cv_recipeR = is_open_read [] (w_fs demo_world), cv_secureRecipeW = os_closed,
     cv_secureRecipeR = is_open_read [] (w_fs demo_world), cv_keyRecipeW = os_closed,
     cv_keyRecipeR = is_open_read [] (w_fs demo_world),
     cv_curContainer = \<lparr>ic_containerID = str ''abcdefgh'', ic_chunkNum = 0, ic_body = (\<lambda>_. 0), ic_currentBodySize = 0,
        ic_header = (\<lambda>_. 0), ic_currentHeaderSize = 0\<rparr>,
     cv_pushed = [], cv_done = False, cv_recvChunkBuf = b, cv_fileSize = 0, cv_totalChunkNum = 0, cv_sendRecipeBuf = b,
     cv_reqContainer = \<lparr>rq_idBuffer = (\<lambda>_. 0), rq_containerArray = (\<lambda>_ _. 0), rq_idNum = 0\<rparr>,
     cv_containerCache = ReadCache_new demo_cfg (\<lambda>_ _. 0), cv_sendChunkBuf = b,
     cv_downloadChunkBase = (\<lambda>_. \<lparr>de_chunkHash = [], de_containerName = [], de_chunkOffset = 0, de_chunkSize = 0, de_containerID = 0\<rparr>),
     cv_uploadDataSize = 0\<rparr>"

theorem upload_setup_witness:
  "\<exists>cv w'. ClientVar_new demo_cfg (\<lambda>_ _. 0) (demo_client \<lparr>sendBuffer = (\<lambda>_. 0), sb_size = 16\<rparr>) 3
       (opt_code UPLOAD_OPT) [1] [2] [3] 100 1 demo_world = Inr (cv, w') \<and>
     files (w_fs w') [2] = Some (frh_enc \<lparr>fileSize = 100, totalChunkNum = 1\<rparr>)"
proof -
  have "distinct [c_path [1], c_path [3], c_path [2]]"
    by (simp add: c_path_def)
  then show ?thesis
    using upload_setup [where rp = "[1]" and kp = "[3]" and sp = "[2]" and cfg = demo_cfg and pool = "\<lambda>_ _. 0"
        and raw = "demo_client \<lparr>sendBuffer = (\<lambda>_. 0), sb_size = 16\<rparr>" and cid = 3 and fsz = 100 and tot = 1
        and w = demo_world]
    by (auto simp: demo_world_def c_path_def split: sum.splits)
qed

section \<open>Recipe paths\<close>

lemma c_path_id: "0 \<notin> set p \<Longrightarrow> c_path p = p"
  by (auto simp: c_path_def takeWhile_eq_all_conv)

datatype recipe_kind = Plain | Secure | Key

fun path_of :: "Configure \<Rightarrow> recipe_kind \<Rightarrow> bytes \<Rightarrow> bytes" where
  "path_of cfg Plain n = recipe_path cfg n"
| "path_of cfg Secure n = secure_recipe_path cfg n"
| "path_of cfg Key n = key_recipe_path cfg n"

lemma suffix_end: "n @ s = n' @ s' \<Longrightarrow> k \<le> length s \<Longrightarrow> k \<le> length s' \<Longrightarrow> take k (rev s) = take k (rev s')"
  by (drule arg_cong [of _ _ "\<lambda>l. take k (rev l)"]) simp

text \<open>With the suffixes that \<open>ReadConf\<close> sets, and when neither the recipe directory nor the names contain a
  NUL byte, no recipe file of one kind and one file name is the recipe file of another kind or another name.\<close>

theorem recipe_paths_injective:
  assumes cfg: "ReadConf root = Inr cfg" and "0 \<notin> set (cf_recipeRootPath cfg)" "0 \<notin> set n" "0 \<notin> set n'"
    and eq: "c_path (path_of cfg k n) = c_path (path_of cfg k' n')"
  shows "k = k' \<and> n = n'"
proof -
  note suf = ReadConf_suffixes [OF cfg]
  have cp: "c_path (path_of cfg k n) = path_of cfg k n" if "0 \<notin> set n" for k n
    using that assms(2) suf
    by (cases k) (simp_all add: c_path_id recipe_path_def secure_recipe_path_def key_recipe_path_def get_defs str_def)
  have "path_of cfg k n = path_of cfg k' n'"
    using eq cp assms(3,4) by simp
  then show ?thesis
    using suf
    by (cases k; cases k')
      (auto simp: recipe_path_def secure_recipe_path_def key_recipe_path_def get_defs str_def dest!: suffix_end [where k = 7])
qed

definition demo_ptree :: ptree where
  "demo_ptree = \<lparr>get_u64 = (\<lambda>_. Some 128), get_u32 = (\<lambda>_. Some 1), get_int = (\<lambda>_. Some 16666),
     get_str = (\<lambda>_. Some (str ''Recipes/''))\<rparr>"

theorem recipe_paths_injective_witness:
  "\<exists>cfg. ReadConf demo_ptree = Inr cfg \<and> cf_recipeRootPath cfg = str ''Recipes/'' \<and>
     c_path (path_of cfg Plain [97]) \<noteq> c_path (path_of cfg Key [97])"
proof -
  obtain cfg where cfg: "ReadConf demo_ptree = Inr cfg" "cf_recipeRootPath cfg = str ''Recipes/''"
    by (simp add: ReadConf_def demo_ptree_def throwing_def)
  moreover have "0 \<notin> set (str ''Recipes/'')" "0 \<notin> set [97 :: u8]"
    by (simp_all add: str_def)
  ultimately have "c_path (path_of cfg Plain [97]) \<noteq> c_path (path_of cfg Key [97])"
    using recipe_paths_injective [of demo_ptree cfg "[97]" "[97]" Plain Key] by auto
  then show ?thesis
    using cfg by blast
qed

end
