(* ===== verification/Storage_Core.thy ===== *)
theory Storage_Core
  imports Client_Var
begin

text \<open>
  \<open>StorageCore\<close> (\<open>src/Server/storageCore.cc\<close>) and \<open>Ocall_WriteContainer\<close>
  (\<open>src/Server/storeOCall.cc\<close>): chunks are appended to the container in memory, whose header lists
  hash, body offset and length of each chunk; a container that has no room is pushed to the data
  writer. All sizes are \<open>uint32_t\<close>. The main lemma describes the container as a list of
  hash/data pairs.
\<close>

section \<open>Model\<close>

record StorageCore =
  sc_writtenDataSize :: u64
  sc_writtenChunkNum :: u64

text \<open>\<open>writeContainer.body\<close> is a local array: its bytes behind \<open>currentSize\<close> are indeterminate.\<close>

definition Ocall_WriteContainer :: "ClientVar \<Rightarrow> world \<Rightarrow> (ClientVar \<times> world) result" where
  "Ocall_WriteContainer cv w =
     (let curContainer = cv_curContainer cv;
          (mem, w1) = fresh_mem w;
          curNumChar = be32_enc (ic_chunkNum curContainer);
          hs = ic_currentHeaderSize curContainer;
          bs = ic_currentBodySize curContainer in
      bindR (guardR (4 + unat hs + unat bs \<le> MAX_CONTAINER_SIZE) OutOfBounds) (\<lambda>_.
        let body1 = mem_write mem 0 curNumChar;
            body2 = mem_write body1 4 (mem_read (ic_header curContainer) 0 (unat hs));
            body3 = mem_write body2 (unat (4 + hs)) (mem_read (ic_body curContainer) 0 (unat bs));
            writeContainer = \<lparr>ct_containerID = ic_containerID curContainer, ct_body = body3,
                              ct_currentSize = 4 + hs + bs\<rparr> in
        Inr (cv\<lparr>cv_pushed := cv_pushed cv @ [writeContainer]\<rparr>, w1)))"

text \<open>The part of \<open>WriteContainer\<close> behind the size test.\<close>

definition append_chunk :: "bytes \<Rightarrow> bytes \<Rightarrow> ClientVar \<Rightarrow> (bytes \<times> ClientVar) result" where
  "append_chunk data chunkHash cv =
     (let c = cv_curContainer cv;
          dataSize = of_nat (length data) :: u32;
          writeBodyOffset = ic_currentBodySize c;
          writeHeaderOffset = ic_currentHeaderSize c;
          offsetChar = be32_enc writeBodyOffset;
          lengthChar = be32_enc dataSize in
      bindR (guardR (unat writeBodyOffset + length data \<le> MAX_CONTAINER_SIZE \<and>
                     unat writeHeaderOffset + CHUNK_HASH_SIZE + 8 \<le> MAX_CONTAINER_SIZE \<and>
                     CHUNK_HASH_SIZE \<le> length chunkHash) OutOfBounds) (\<lambda>_.
        let body = mem_write (ic_body c) (unat writeBodyOffset) data;
            header1 = mem_write (ic_header c) (unat writeHeaderOffset) (take CHUNK_HASH_SIZE chunkHash);
            header2 = mem_write header1 (unat writeHeaderOffset + CHUNK_HASH_SIZE) offsetChar;
            header3 = mem_write header2 (unat writeHeaderOffset + CHUNK_HASH_SIZE + 4) lengthChar;
            c' = c\<lparr>ic_body := body, ic_header := header3,
                   ic_currentHeaderSize := writeHeaderOffset + (of_nat CHUNK_HASH_SIZE + 8),
                   ic_currentBodySize := writeBodyOffset + dataSize,
                   ic_chunkNum := ic_chunkNum c + 1\<rparr> in
        Inr (ic_containerID c', cv\<lparr>cv_curContainer := c'\<rparr>)))"

definition WriteContainer :: "bytes \<Rightarrow> bytes \<Rightarrow> ClientVar \<Rightarrow> world \<Rightarrow> (bytes \<times> ClientVar \<times> world) result" where
  "WriteContainer data chunkHash cv w =
     (let dataSize = of_nat (length data) :: u32;
          writeSize = dataSize + of_nat CHUNK_HASH_SIZE + 4 * 2;
          currentBodyOffset = ic_currentBodySize (cv_curContainer cv);
          currentHeaderOffset = ic_currentHeaderSize (cv_curContainer cv) in
      bindR (if writeSize + currentBodyOffset + currentHeaderOffset + 4 \<ge> of_nat MAX_CONTAINER_SIZE
             then bindR (Ocall_WriteContainer cv w) (\<lambda>(cv1, w1).
                    let (cid, w2) = new_uuid w1 in
                    Inr (cv1\<lparr>cv_curContainer := (cv_curContainer cv1)\<lparr>ic_containerID := cid,
                           ic_currentBodySize := 0, ic_currentHeaderSize := 0, ic_chunkNum := 0\<rparr>\<rparr>, w2))
             else Inr (cv, w)) (\<lambda>(cv2, w2).
      bindR (append_chunk data chunkHash cv2) (\<lambda>(containerName, cv3). Inr (containerName, cv3, w2))))"

definition SaveChunk :: "bytes \<Rightarrow> bytes \<Rightarrow> StorageCore \<Rightarrow> ClientVar \<Rightarrow> world
    \<Rightarrow> (bytes \<times> StorageCore \<times> ClientVar \<times> world) result" where
  "SaveChunk chunkData chunkHash sc cv w =
     bindR (WriteContainer chunkData chunkHash cv w) (\<lambda>(containerName, cv', w').
       Inr (containerName, sc\<lparr>sc_writtenDataSize := sc_writtenDataSize sc + of_nat (length chunkData),
                              sc_writtenChunkNum := sc_writtenChunkNum sc + 1\<rparr>, cv', w'))"

definition UpdateRecipeToFile :: "bytes \<Rightarrow> nat \<Rightarrow> ofstream \<Rightarrow> filesys \<Rightarrow> (ofstream \<times> filesys) result" where
  "UpdateRecipeToFile recipeBuffer recipeEntryNum h fs =
     bindR (guardR (os_is_open h) ExitFailure) (\<lambda>_.
     bindR (guardR (recipeEntryNum * sizeof_RecipeEntry \<le> length recipeBuffer) OutOfBounds) (\<lambda>_.
       Inr (os_write h (take (recipeEntryNum * sizeof_RecipeEntry) recipeBuffer) fs)))"

definition FinalizeRecipe :: "FileRecipeHead_t \<Rightarrow> ofstream \<Rightarrow> filesys \<Rightarrow> (ofstream \<times> filesys) result" where
  "FinalizeRecipe recipeHead h fs =
     bindR (guardR (os_is_open h) ExitFailure) (\<lambda>_.
       let (h1, fs1) = os_write (os_seekp_beg h) (frh_enc recipeHead) fs in Inr (os_close h1, fs1))"

section \<open>Containers as lists of chunks\<close>

fun hdr_enc :: "nat \<Rightarrow> (bytes \<times> bytes) list \<Rightarrow> bytes" where
  "hdr_enc off [] = []"
| "hdr_enc off ((h, d) # es) =
     h @ be32_enc (of_nat off) @ be32_enc (of_nat (length d)) @ hdr_enc (off + length d) es"

definition body_enc :: "(bytes \<times> bytes) list \<Rightarrow> bytes" where
  "body_enc es = concat (map snd es)"

text \<open>The bytes of a container file with \<open>n\<close> in its number field.\<close>

definition file_enc :: "u32 \<Rightarrow> (bytes \<times> bytes) list \<Rightarrow> bytes" where
  "file_enc n es = be32_enc n @ hdr_enc 0 es @ body_enc es"

definition hashes_ok :: "(bytes \<times> bytes) list \<Rightarrow> bool" where
  "hashes_ok es \<longleftrightarrow> (\<forall>(h, d) \<in> set es. length h = CHUNK_HASH_SIZE)"

definition file_size :: "(bytes \<times> bytes) list \<Rightarrow> nat" where
  "file_size es = 4 + 40 * length es + length (body_enc es)"

text \<open>\<open>cont_rep base c es\<close>: the container in memory holds the chunks \<open>es\<close>; its counter started at
  \<open>base\<close>.\<close>

definition cont_rep :: "u32 \<Rightarrow> InmemoryContainer_t \<Rightarrow> (bytes \<times> bytes) list \<Rightarrow> bool" where
  "cont_rep base c es \<longleftrightarrow>
     hashes_ok es \<and> file_size es < MAX_CONTAINER_SIZE \<and>
     ic_chunkNum c = base + of_nat (length es) \<and>
     unat (ic_currentHeaderSize c) = 40 * length es \<and>
     unat (ic_currentBodySize c) = length (body_enc es) \<and>
     mem_read (ic_header c) 0 (40 * length es) = hdr_enc 0 es \<and>
     mem_read (ic_body c) 0 (length (body_enc es)) = body_enc es"

definition ct_bytes :: "Container_t \<Rightarrow> bytes" where
  "ct_bytes k = mem_read (ct_body k) 0 (unat (ct_currentSize k))"

lemma hdr_enc_append: "hdr_enc off (es @ fs) = hdr_enc off es @ hdr_enc (off + length (body_enc es)) fs"
  by (induction off es rule: hdr_enc.induct) (auto simp: body_enc_def add.assoc)

lemma body_enc_simps [simp]:
  "body_enc [] = []" "body_enc ((h, d) # es) = d @ body_enc es" "body_enc (es @ fs) = body_enc es @ body_enc fs"
  by (simp_all add: body_enc_def)

lemma length_hdr_enc: "hashes_ok es \<Longrightarrow> length (hdr_enc off es) = 40 * length es"
  by (induction off es rule: hdr_enc.induct) (auto simp: hashes_ok_def CHUNK_HASH_SIZE_def)

lemma length_file_enc: "hashes_ok es \<Longrightarrow> length (file_enc n es) = file_size es"
  by (simp add: file_enc_def file_size_def length_hdr_enc)

lemma hashes_ok_snoc [simp]:
  "hashes_ok [] " "hashes_ok (es @ [(h, d)]) \<longleftrightarrow> hashes_ok es \<and> length h = CHUNK_HASH_SIZE"
  by (auto simp: hashes_ok_def)

lemma file_size_simps [simp]:
  "file_size [] = 4" "file_size (es @ [(h, d)]) = file_size es + 40 + length d"
  by (simp_all add: file_size_def)

text \<open>Flushing a container pushes exactly its file bytes.\<close>

lemma Ocall_WriteContainer_spec:
  assumes rep: "cont_rep base (cv_curContainer cv) es"
  shows "\<exists>k w'. Ocall_WriteContainer cv w = Inr (cv\<lparr>cv_pushed := cv_pushed cv @ [k]\<rparr>, w') \<and>
     ct_containerID k = ic_containerID (cv_curContainer cv) \<and>
     ct_bytes k = file_enc (base + of_nat (length es)) es \<and>
     w_fs w' = w_fs w \<and> w_rng w' = w_rng w"
proof -
  let ?c = "cv_curContainer cv"
  let ?hs = "ic_currentHeaderSize ?c" and ?bs = "ic_currentBodySize ?c"
  have ok: "hashes_ok es" and fit: "4 + unat ?hs + unat ?bs < MAX_CONTAINER_SIZE"
    and hs: "unat ?hs = 40 * length es" and bs: "unat ?bs = length (body_enc es)"
    and n: "ic_chunkNum ?c = base + of_nat (length es)"
    using rep by (simp_all add: cont_rep_def file_size_def)
  have u4: "unat (4 + ?hs) = 4 + unat ?hs"
    using fit by (simp add: unat_word_ariths MAX_CONTAINER_SIZE_def)
  have sz: "unat (4 + ?hs + ?bs) = 4 + unat ?hs + unat ?bs"
    using fit u4 by (simp add: unat_word_ariths MAX_CONTAINER_SIZE_def)
  let ?num = "be32_enc (ic_chunkNum ?c)" and ?h = "mem_read (ic_header ?c) 0 (unat ?hs)"
    and ?b = "mem_read (ic_body ?c) 0 (unat ?bs)"
  have "mem_write (mem_write (mem_write m 0 ?num) 4 ?h) (4 + unat ?hs) ?b
      = mem_write m 0 (?num @ ?h @ ?b)" for m
    by (simp add: mem_write_append add.commute)
  moreover have "?num @ ?h @ ?b = file_enc (base + of_nat (length es)) es"
    using rep by (simp add: file_enc_def hs bs n cont_rep_def)
  ultimately have "mem_read (mem_write (mem_write (mem_write m 0 ?num) 4 ?h) (4 + unat ?hs) ?b) 0
      (4 + unat ?hs + unat ?bs) = file_enc (base + of_nat (length es)) es" for m
    using length_file_enc [OF ok] by (simp add: mem_read_write_same' hs bs file_size_def)
  then have bytes: "ct_bytes \<lparr>ct_containerID = ic_containerID ?c,
      ct_body = mem_write (mem_write (mem_write m 0 ?num) 4 ?h) (4 + unat ?hs) ?b,
      ct_currentSize = 4 + ?hs + ?bs\<rparr> = file_enc (base + of_nat (length es)) es" for m
    by (simp add: ct_bytes_def sz)
  have "Ocall_WriteContainer cv w = Inr (cv\<lparr>cv_pushed := cv_pushed cv @
      [\<lparr>ct_containerID = ic_containerID ?c,
        ct_body = mem_write (mem_write (mem_write (fst (fresh_mem w)) 0 ?num) 4 ?h) (4 + unat ?hs) ?b,
        ct_currentSize = 4 + ?hs + ?bs\<rparr>]\<rparr>, snd (fresh_mem w))"
    using fit by (simp add: Ocall_WriteContainer_def Let_def split_beta u4)
  then show ?thesis
    using bytes by (intro exI conjI) (assumption | simp)+
qed

lemma append_chunk_spec:
  assumes rep: "cont_rep base (cv_curContainer cv) es" and h: "length h = CHUNK_HASH_SIZE"
    and room: "file_size es + 40 + length d < MAX_CONTAINER_SIZE"
  shows "\<exists>c'. append_chunk d h cv = Inr (ic_containerID (cv_curContainer cv), cv\<lparr>cv_curContainer := c'\<rparr>) \<and>
     cont_rep base c' (es @ [(h, d)]) \<and> ic_containerID c' = ic_containerID (cv_curContainer cv)"
proof -
  let ?c = "cv_curContainer cv"
  let ?hs = "ic_currentHeaderSize ?c" and ?bs = "ic_currentBodySize ?c"
  have ok: "hashes_ok es" and hs: "unat ?hs = 40 * length es" and bs: "unat ?bs = length (body_enc es)"
    using rep by (simp_all add: cont_rep_def)
  have lim: "4 + 40 * length es + length (body_enc es) + 40 + length d < 4194304"
    using room by (simp add: file_size_def MAX_CONTAINER_SIZE_def)
  have d: "unat (of_nat (length d) :: u32) = length d"
    using lim by (simp add: unat_of_nat_u32)
  have hs': "unat (?hs + 40) = 40 * length es + 40"
    using lim hs by (simp add: unat_word_ariths)
  have bs': "unat (?bs + of_nat (length d)) = length (body_enc es) + length d"
    using lim bs d by (simp add: unat_word_ariths)
  have off: "of_nat (length (body_enc es)) = ?bs"
    by (simp flip: bs)
  let ?entry = "h @ be32_enc ?bs @ be32_enc (of_nat (length d))"
  let ?hm = "mem_write (mem_write (mem_write (ic_header ?c) (unat ?hs) h) (unat ?hs + CHUNK_HASH_SIZE)
      (be32_enc ?bs)) (unat ?hs + CHUNK_HASH_SIZE + 4) (be32_enc (of_nat (length d)))"
  have "?hm = mem_write (ic_header ?c) (unat ?hs) ?entry"
    using h by (simp add: mem_write_append add.assoc)
  then have "mem_read ?hm 0 (40 * length es + 40) = hdr_enc 0 es @ ?entry"
    using mem_read_extend [of "ic_header ?c" "unat ?hs" ?entry] rep h
    by (simp add: hs cont_rep_def CHUNK_HASH_SIZE_def)
  moreover have "40 * length (es @ [(h, d)]) = 40 * length es + 40"
    by simp
  ultimately have hdr: "mem_read ?hm 0 (40 * length (es @ [(h, d)])) = hdr_enc 0 (es @ [(h, d)])"
    by (simp only: hdr_enc_append) (simp add: off)
  have "mem_read (mem_write (ic_body ?c) (unat ?bs) d) 0 (length (body_enc es) + length d) = body_enc es @ d"
    using mem_read_extend [of "ic_body ?c" "unat ?bs" d] rep by (simp add: bs cont_rep_def)
  then have bod: "mem_read (mem_write (ic_body ?c) (unat ?bs) d) 0 (length (body_enc (es @ [(h, d)])))
      = body_enc (es @ [(h, d)])"
    by simp
  have g: "unat ?bs + length d \<le> MAX_CONTAINER_SIZE" "unat ?hs + CHUNK_HASH_SIZE + 8 \<le> MAX_CONTAINER_SIZE"
    using lim hs bs by (simp_all add: MAX_CONTAINER_SIZE_def CHUNK_HASH_SIZE_def)
  define c' where "c' = ?c\<lparr>ic_body := mem_write (ic_body ?c) (unat ?bs) d, ic_header := ?hm,
     ic_currentHeaderSize := ?hs + 40, ic_currentBodySize := ?bs + of_nat (length d),
     ic_chunkNum := ic_chunkNum ?c + 1\<rparr>"
  have "append_chunk d h cv = Inr (ic_containerID ?c, cv\<lparr>cv_curContainer := c'\<rparr>)"
    using g h by (simp add: append_chunk_def c'_def Let_def) (simp add: CHUNK_HASH_SIZE_def)
  moreover have "cont_rep base c' (es @ [(h, d)])"
    using rep h room hs' bs' hdr bod unfolding cont_rep_def c'_def by (simp add: add.assoc)
  ultimately show ?thesis
    by (auto simp: c'_def)
qed

text \<open>The size test of \<open>WriteContainer\<close>, on chunks that fit a container at all.\<close>

lemma WriteContainer_test:
  assumes rep: "cont_rep base (cv_curContainer cv) es" and fits: "length d + 44 < MAX_CONTAINER_SIZE"
  shows "of_nat (length d) + of_nat CHUNK_HASH_SIZE + 4 * 2 + ic_currentBodySize (cv_curContainer cv)
      + ic_currentHeaderSize (cv_curContainer cv) + 4 \<ge> (of_nat MAX_CONTAINER_SIZE :: u32)
     \<longleftrightarrow> file_size es + 40 + length d \<ge> MAX_CONTAINER_SIZE"
proof -
  let ?c = "cv_curContainer cv"
  have lim: "file_size es < 4194304" "length d + 44 < 4194304"
    using rep fits by (simp_all add: cont_rep_def MAX_CONTAINER_SIZE_def)
  have hs: "unat (ic_currentHeaderSize ?c) + unat (ic_currentBodySize ?c) + 4 = file_size es"
    using rep by (simp add: cont_rep_def file_size_def)
  have d: "unat (of_nat (length d) :: u32) = length d"
    using lim by (simp add: unat_of_nat_u32)
  have "unat (of_nat (length d) + 40 + ic_currentBodySize ?c + ic_currentHeaderSize ?c + 4)
      = file_size es + 40 + length d"
    using lim hs d by (simp add: unat_word_ariths)
  then show ?thesis
    by (simp add: word_le_nat_alt MAX_CONTAINER_SIZE_def CHUNK_HASH_SIZE_def add.assoc)
qed

lemma WriteContainer_room:
  assumes rep: "cont_rep base (cv_curContainer cv) es" and h: "length h = CHUNK_HASH_SIZE"
    and room: "file_size es + 40 + length d < MAX_CONTAINER_SIZE"
  shows "\<exists>c'. WriteContainer d h cv w = Inr (ic_containerID (cv_curContainer cv), cv\<lparr>cv_curContainer := c'\<rparr>, w) \<and>
     cont_rep base c' (es @ [(h, d)]) \<and> ic_containerID c' = ic_containerID (cv_curContainer cv)"
proof -
  have "length d + 44 < MAX_CONTAINER_SIZE"
    using room by (simp add: file_size_def)
  note test = WriteContainer_test [OF rep this]
  obtain c' where "append_chunk d h cv = Inr (ic_containerID (cv_curContainer cv), cv\<lparr>cv_curContainer := c'\<rparr>)"
      "cont_rep base c' (es @ [(h, d)])" "ic_containerID c' = ic_containerID (cv_curContainer cv)"
    using append_chunk_spec [OF rep h room] by blast
  then show ?thesis
    using test room unfolding WriteContainer_def Let_def by auto
qed

lemma WriteContainer_flush:
  assumes rep: "cont_rep base (cv_curContainer cv) es" and h: "length h = CHUNK_HASH_SIZE"
    and full: "MAX_CONTAINER_SIZE \<le> file_size es + 40 + length d" and fits: "length d + 44 < MAX_CONTAINER_SIZE"
  shows "\<exists>k c' w'. WriteContainer d h cv w =
       Inr (fst (CreateUUID CONTAINER_ID_LENGTH (w_rng w)),
            cv\<lparr>cv_pushed := cv_pushed cv @ [k], cv_curContainer := c'\<rparr>, w') \<and>
     ct_containerID k = ic_containerID (cv_curContainer cv) \<and>
     ct_bytes k = file_enc (base + of_nat (length es)) es \<and>
     cont_rep 0 c' [(h, d)] \<and> ic_containerID c' = fst (CreateUUID CONTAINER_ID_LENGTH (w_rng w)) \<and>
     w_fs w' = w_fs w \<and> w_rng w' = snd (CreateUUID CONTAINER_ID_LENGTH (w_rng w))"
proof -
  note test = WriteContainer_test [OF rep fits]
  obtain k w1 where k: "Ocall_WriteContainer cv w = Inr (cv\<lparr>cv_pushed := cv_pushed cv @ [k]\<rparr>, w1)"
      "ct_containerID k = ic_containerID (cv_curContainer cv)"
      "ct_bytes k = file_enc (base + of_nat (length es)) es" "w_fs w1 = w_fs w" "w_rng w1 = w_rng w"
    using Ocall_WriteContainer_spec [OF rep] by blast
  let ?u = "CreateUUID CONTAINER_ID_LENGTH (w_rng w)"
  define cv1 where "cv1 = cv\<lparr>cv_pushed := cv_pushed cv @ [k], cv_curContainer :=
    (cv_curContainer cv)\<lparr>ic_containerID := fst ?u, ic_currentBodySize := 0, ic_currentHeaderSize := 0,
       ic_chunkNum := 0\<rparr>\<rparr>"
  have "cont_rep 0 (cv_curContainer cv1) []"
    by (simp add: cv1_def cont_rep_def MAX_CONTAINER_SIZE_def)
  moreover have "file_size [] + 40 + length d < MAX_CONTAINER_SIZE"
    using fits by simp
  ultimately obtain c' where c': "append_chunk d h cv1 = Inr (fst ?u, cv1\<lparr>cv_curContainer := c'\<rparr>)"
      "cont_rep 0 c' [(h, d)]" "ic_containerID c' = fst ?u"
    using append_chunk_spec [of 0 cv1 "[]" h d] h by (auto simp: cv1_def)
  have "WriteContainer d h cv w = Inr (fst ?u, cv1\<lparr>cv_curContainer := c'\<rparr>, w1\<lparr>w_rng := snd ?u\<rparr>)"
    using test full k c'(1) unfolding WriteContainer_def Let_def
    by (simp add: new_uuid_def split_beta cv1_def)
  then show ?thesis
    using k c'(2,3) by (intro exI [of _ k] exI [of _ c'] exI [of _ "w1\<lparr>w_rng := snd ?u\<rparr>"])
      (simp add: cv1_def)
qed

section \<open>Chunks that no container can hold\<close>

text \<open>The lengths behind which the size test always asks for a new container.\<close>

lemma oversized_test:
  assumes rep: "cont_rep base (cv_curContainer cv) es"
    and big: "MAX_CONTAINER_SIZE \<le> length d + 44" "length d \<le> MAX_CONTAINER_SIZE"
  shows "of_nat (length d) + of_nat CHUNK_HASH_SIZE + 4 * 2 + ic_currentBodySize (cv_curContainer cv)
      + ic_currentHeaderSize (cv_curContainer cv) + 4 \<ge> (of_nat MAX_CONTAINER_SIZE :: u32)"
proof -
  let ?c = "cv_curContainer cv"
  have lim: "file_size es < 4194304" "length d \<le> 4194304" "4194304 \<le> length d + 44"
    using rep big by (simp_all add: cont_rep_def MAX_CONTAINER_SIZE_def)
  have hs: "unat (ic_currentHeaderSize ?c) + unat (ic_currentBodySize ?c) + 4 = file_size es"
    using rep by (simp add: cont_rep_def file_size_def)
  have d: "unat (of_nat (length d) :: u32) = length d"
    using lim by (simp add: unat_of_nat_u32)
  have "unat (of_nat (length d) + 40 + ic_currentBodySize ?c + ic_currentHeaderSize ?c + 4)
      = file_size es + 40 + length d"
    using lim hs d by (simp add: unat_word_ariths)
  then show ?thesis
    using lim hs by (simp add: word_le_nat_alt MAX_CONTAINER_SIZE_def CHUNK_HASH_SIZE_def add.assoc)
qed

text \<open>C30: \<open>WriteContainer\<close> does not check that a chunk fits a container. A chunk that is longer than a container less
  its number field and one header entry, and not longer than the body array, is accepted and named; the next time the
  container has to be written, \<open>Ocall_WriteContainer\<close> copies more than \<open>MAX_CONTAINER_SIZE\<close> bytes into the local
  body array.\<close>

theorem oversized_chunk_overflows:
  assumes rep: "cont_rep base (cv_curContainer cv) es" and h: "length h = CHUNK_HASH_SIZE"
    and big: "MAX_CONTAINER_SIZE < length d + 44" "length d \<le> MAX_CONTAINER_SIZE"
  shows "\<exists>name cv' w'. WriteContainer d h cv w = Inr (name, cv', w') \<and>
     (\<forall>d' h' w''. length d' \<le> MAX_CHUNK_SIZE \<longrightarrow> WriteContainer d' h' cv' w'' = Inl OutOfBounds)"
proof -
  obtain k w1 where k: "Ocall_WriteContainer cv w = Inr (cv\<lparr>cv_pushed := cv_pushed cv @ [k]\<rparr>, w1)"
    using Ocall_WriteContainer_spec [OF rep] by blast
  let ?u = "CreateUUID CONTAINER_ID_LENGTH (w_rng w1)"
  define c' where "c' = (cv_curContainer cv)\<lparr>ic_containerID := fst ?u,
     ic_body := mem_write (ic_body (cv_curContainer cv)) 0 d,
     ic_header := mem_write (mem_write (mem_write (ic_header (cv_curContainer cv)) 0 h) 32 (be32_enc 0)) 36
        (be32_enc (of_nat (length d))),
     ic_currentBodySize := of_nat (length d), ic_currentHeaderSize := 40, ic_chunkNum := 1\<rparr>"
  define cv' where "cv' = cv\<lparr>cv_pushed := cv_pushed cv @ [k], cv_curContainer := c'\<rparr>"
  have d: "unat (of_nat (length d) :: u32) = length d"
    using big by (simp add: unat_of_nat_u32 MAX_CONTAINER_SIZE_def)
  have "of_nat (length d) + of_nat CHUNK_HASH_SIZE + 4 * 2 + ic_currentBodySize (cv_curContainer cv)
      + ic_currentHeaderSize (cv_curContainer cv) + 4 \<ge> (of_nat MAX_CONTAINER_SIZE :: u32)"
    by (rule oversized_test [OF rep]) (use big in simp_all)
  then have "WriteContainer d h cv w = Inr (fst ?u, cv', w1\<lparr>w_rng := snd ?u\<rparr>)"
    using k h big
    by (simp add: WriteContainer_def Let_def new_uuid_def split_beta append_chunk_def cv'_def c'_def
        CHUNK_HASH_SIZE_def MAX_CONTAINER_SIZE_def)
  moreover have "WriteContainer d' h' cv' w'' = Inl OutOfBounds" if "length d' \<le> MAX_CHUNK_SIZE" for d' h' w''
  proof -
    have "unat (of_nat (length d') :: u32) = length d'"
      using that by (simp add: unat_of_nat_u32 MAX_CHUNK_SIZE_def)
    then have "unat (of_nat (length d') + 40 + of_nat (length d) + 40 + 4 :: u32) = length d' + 84 + length d"
      using d that big by (simp add: unat_word_ariths MAX_CHUNK_SIZE_def MAX_CONTAINER_SIZE_def)
    then have "of_nat (length d') + of_nat CHUNK_HASH_SIZE + 4 * 2 + of_nat (length d) + 40 + 4 \<ge> (of_nat MAX_CONTAINER_SIZE :: u32)"
      using big by (simp add: word_le_nat_alt MAX_CONTAINER_SIZE_def CHUNK_HASH_SIZE_def add.assoc)
    moreover have "Ocall_WriteContainer cv' w'' = Inl OutOfBounds"
      using big d by (simp add: Ocall_WriteContainer_def Let_def split_beta cv'_def c'_def MAX_CONTAINER_SIZE_def)
    ultimately show ?thesis
      by (simp add: WriteContainer_def Let_def cv'_def c'_def)
  qed
  ultimately show ?thesis
    by blast
qed

theorem oversized_chunk_overflows_witness:
  "\<exists>name cv' w'. WriteContainer (replicate 4194280 7) (replicate 32 0)
       (demo_client \<lparr>sendBuffer = (\<lambda>_. 0), sb_size = 16\<rparr>) demo_world = Inr (name, cv', w') \<and>
     WriteContainer [1] (replicate 32 1) cv' w' = Inl OutOfBounds"
proof -
  have "cont_rep 0 (cv_curContainer (demo_client \<lparr>sendBuffer = (\<lambda>_. 0), sb_size = 16\<rparr>)) []"
    by (simp add: cont_rep_def demo_client_def MAX_CONTAINER_SIZE_def)
  then obtain name cv' w' where "WriteContainer (replicate 4194280 7) (replicate 32 0)
       (demo_client \<lparr>sendBuffer = (\<lambda>_. 0), sb_size = 16\<rparr>) demo_world = Inr (name, cv', w')"
      "WriteContainer [1] (replicate 32 1) cv' w' = Inl OutOfBounds"
    using oversized_chunk_overflows [of 0 _ "[]" "replicate 32 0" "replicate 4194280 7" demo_world]
    by (force simp: CHUNK_HASH_SIZE_def MAX_CONTAINER_SIZE_def MAX_CHUNK_SIZE_def)
  then show ?thesis
    by blast
qed

section \<open>Recipe files\<close>

text \<open>C29: Appending entries to an open recipe file and finalising it leaves the file with the final head in place of the
  provisional one, all entries in order behind it, and the stream closed; no other file changes.\<close>

theorem recipe_update_finalize:
  assumes "writer_at h path (frh_enc hd0 @ es) fs" and "n * sizeof_RecipeEntry \<le> length buffer"
  shows "\<exists>h1 fs1 h2 fs2. UpdateRecipeToFile buffer n h fs = Inr (h1, fs1) \<and> FinalizeRecipe hd1 h1 fs1 = Inr (h2, fs2) \<and>
     files fs2 = (files fs)(c_path path \<mapsto> frh_enc hd1 @ es @ take (n * sizeof_RecipeEntry) buffer) \<and> \<not> os_is_open h2"
  using assms
  by (simp add: UpdateRecipeToFile_def FinalizeRecipe_def writer_at_def os_write_def os_seekp_beg_def os_close_def
      file_splice_beg)

theorem recipe_update_finalize_witness:
  "\<exists>h1 fs1 h2 fs2. UpdateRecipeToFile (replicate 64 5) 1 \<lparr>os_path = [114], os_pos = 16, os_is_open = True\<rparr>
      \<lparr>files = [[114] \<mapsto> frh_enc \<lparr>fileSize = 0, totalChunkNum = 0\<rparr>], openable = (\<lambda>_. True)\<rparr> = Inr (h1, fs1) \<and>
     FinalizeRecipe \<lparr>fileSize = 7, totalChunkNum = 1\<rparr> h1 fs1 = Inr (h2, fs2) \<and>
     files fs2 [114] = Some (frh_enc \<lparr>fileSize = 7, totalChunkNum = 1\<rparr> @ replicate 32 5)"
proof -
  let ?fs = "\<lparr>files = [[114] \<mapsto> frh_enc \<lparr>fileSize = 0, totalChunkNum = 0\<rparr>], openable = (\<lambda>_. True)\<rparr>"
  let ?h = "\<lparr>os_path = [114], os_pos = 16, os_is_open = True\<rparr>"
  have "writer_at ?h [114] (frh_enc \<lparr>fileSize = 0, totalChunkNum = 0\<rparr> @ []) ?fs"
    by (simp add: writer_at_def c_path_def)
  moreover have "1 * sizeof_RecipeEntry \<le> length (replicate 64 (5 :: u8))"
    by (simp add: const_simps)
  ultimately show ?thesis
    using recipe_update_finalize [of ?h "[114]" "\<lparr>fileSize = 0, totalChunkNum = 0\<rparr>" "[]" ?fs 1 "replicate 64 5"
        "\<lparr>fileSize = 7, totalChunkNum = 1\<rparr>"]
    by (fastforce simp: c_path_def const_simps)
qed

end
