(* ===== verification/Plain_Index.thy ===== *)
theory Plain_Index
  imports Storage_Core Databases Crypto_Primitive
begin

text \<open>
  The deduplication index: \<open>AbsIndex\<close> with its statistics file (\<open>src/Index/absIndex.cc\<close>) and
  \<open>PlainIndex\<close> (\<open>src/Index/plainIndex.cc\<close>). The store behind it is any implementation of
  \<open>AbsDatabase\<close>, given by its table of operations. The lemmas show that a batch stores exactly
  the chunks whose hash is new, each once, and that the index then names the container that
  holds the chunk.
\<close>

section \<open>AbsIndex\<close>

record 'd PlainIndex =
  ix_indexStore :: 'd
  ix_storageCore :: StorageCore
  ix_crypto :: CryptoPrimitive
  ix_sendChunkBatchSize :: u64
  ix_sendRecipeBatchSize :: u64
  ix_totalRecvDataSize :: u64
  ix_totalBatchNum :: u64
  ix_logicalChunkNum :: u64
  ix_logicalDataSize :: u64
  ix_uniqueChunkNum :: u64
  ix_uniqueDataSize :: u64
  ix_compressedDataSize :: u64

definition persistentFileName :: bytes where
  "persistentFileName = str ''previous-stat''"

definition read_u64 :: "u64 \<Rightarrow> ifstream \<Rightarrow> filesys \<Rightarrow> u64 \<times> ifstream" where
  "read_u64 old h fs =
     (let (got, h') = is_read h 8 fs in (le_dec (got @ drop (length got) (le_enc 8 old)), h'))"

definition AbsIndex_new :: "Configure \<Rightarrow> 'd \<Rightarrow> StorageCore \<Rightarrow> filesys \<Rightarrow> 'd PlainIndex result" where
  "AbsIndex_new cfg store sc fs =
     (let ix = \<lparr>ix_indexStore = store, ix_storageCore = sc,
            ix_crypto = CryptoPrimitive_new CIPHER_TYPE HASH_TYPE,
            ix_sendChunkBatchSize = GetSendChunkBatchSize cfg,
            ix_sendRecipeBatchSize = GetSendRecipeBatchSize cfg,
            ix_totalRecvDataSize = 0, ix_totalBatchNum = 0, ix_logicalChunkNum = 0,
            ix_logicalDataSize = 0, ix_uniqueChunkNum = 0, ix_uniqueDataSize = 0,
            ix_compressedDataSize = 0\<rparr> in
      if FileExist fs persistentFileName
      then let h = is_open_read persistentFileName fs in
        bindR (guardR (is_is_open h) ExitFailure) (\<lambda>_.
          let (a, h1) = read_u64 0 h fs;
              (b, h2) = read_u64 0 h1 fs;
              (c, h3) = read_u64 0 h2 fs;
              (d, h4) = read_u64 0 h3 fs;
              (e, h5) = read_u64 0 h4 fs in
          Inr (ix\<lparr>ix_logicalDataSize := a, ix_logicalChunkNum := b, ix_uniqueDataSize := c,
                  ix_uniqueChunkNum := d, ix_compressedDataSize := e\<rparr>))
      else Inr ix)"

definition AbsIndex_delete :: "'d PlainIndex \<Rightarrow> filesys \<Rightarrow> filesys" where
  "AbsIndex_delete ix fs =
     (let (h0, fs0) = os_open_trunc persistentFileName fs in
      if \<not> os_is_open h0 then fs0
      else let (h1, fs1) = os_write h0 (le_enc 8 (ix_logicalDataSize ix)) fs0;
               (h2, fs2) = os_write h1 (le_enc 8 (ix_logicalChunkNum ix)) fs1;
               (h3, fs3) = os_write h2 (le_enc 8 (ix_uniqueDataSize ix)) fs2;
               (h4, fs4) = os_write h3 (le_enc 8 (ix_uniqueChunkNum ix)) fs3;
               (h5, fs5) = os_write h4 (le_enc 8 (ix_compressedDataSize ix)) fs4 in fs5)"

definition ReadIndexStore :: "'d AbsDatabase \<Rightarrow> 'd PlainIndex \<Rightarrow> bytes \<Rightarrow> bytes \<Rightarrow> bool \<times> bytes" where
  "ReadIndexStore vt ix key val = vt_Query vt (ix_indexStore ix) key val"

definition UpdateIndexStore :: "'d AbsDatabase \<Rightarrow> 'd PlainIndex \<Rightarrow> bytes \<Rightarrow> bytes \<Rightarrow> bool \<times> 'd PlainIndex" where
  "UpdateIndexStore vt ix key val =
     (let (ok, s) = vt_Insert vt (ix_indexStore ix) key val in (ok, ix\<lparr>ix_indexStore := s\<rparr>))"

definition UpdateIndexStoreBuffer :: "'d AbsDatabase \<Rightarrow> 'd PlainIndex \<Rightarrow> bytes \<Rightarrow> bytes \<Rightarrow> bool \<times> 'd PlainIndex" where
  "UpdateIndexStoreBuffer vt ix key buffer =
     (let (ok, s) = vt_InsertBuffer vt (ix_indexStore ix) key buffer in (ok, ix\<lparr>ix_indexStore := s\<rparr>))"

section \<open>Processing a batch of chunks\<close>

text \<open>
  One turn of the loop at data offset \<open>off\<close>: the chunk is its size, four bytes, and its bytes. The
  lock around the index makes the turn atomic.
\<close>

definition process_chunk :: "'d AbsDatabase \<Rightarrow> evp_api \<Rightarrow> nat \<Rightarrow> bytes \<Rightarrow> 'd PlainIndex \<Rightarrow> ClientVar \<Rightarrow> world
    \<Rightarrow> (nat \<times> bytes \<times> 'd PlainIndex \<times> ClientVar \<times> world) result" where
  "process_chunk vt evp off containerNameStr ix cv w =
     (let b = cv_recvChunkBuf cv in
      bindR (guardR (off + 4 \<le> data_size b) OutOfBounds) (\<lambda>_.
        let tmpChunkSize = le_dec (data_read b off 4) :: u32;
            off1 = off + 4 in
        bindR (guardR (off1 + unat tmpChunkSize \<le> data_size b) OutOfBounds) (\<lambda>_.
          let chunk = data_read b off1 (unat tmpChunkSize) in
          bindR (GenerateHash evp (ix_crypto ix) chunk) (\<lambda>tmpHashStr.
            let (status, name) = ReadIndexStore vt ix tmpHashStr containerNameStr in
            if \<not> status
            then bindR (SaveChunk chunk tmpHashStr (ix_storageCore ix) cv w) (\<lambda>(name', sc', cv', w').
                   let (_, ix1) = UpdateIndexStore vt (ix\<lparr>ix_storageCore := sc'\<rparr>) tmpHashStr name' in
                   Inr (off1 + unat tmpChunkSize, name',
                        ix1\<lparr>ix_uniqueChunkNum := ix_uniqueChunkNum ix1 + 1,
                            ix_uniqueDataSize := ix_uniqueDataSize ix1 + ucast tmpChunkSize\<rparr>, cv', w'))
            else Inr (off1 + unat tmpChunkSize, name, ix, cv, w)))))"

fun process_chunks :: "'d AbsDatabase \<Rightarrow> evp_api \<Rightarrow> nat \<Rightarrow> nat \<Rightarrow> bytes \<Rightarrow> 'd PlainIndex \<Rightarrow> ClientVar \<Rightarrow> world
    \<Rightarrow> ('d PlainIndex \<times> ClientVar \<times> world) result" where
  "process_chunks vt evp 0 off name ix cv w = Inr (ix, cv, w)"
| "process_chunks vt evp (Suc n) off name ix cv w =
     bindR (process_chunk vt evp off name ix cv w) (\<lambda>(off', name', ix', cv', w').
       process_chunks vt evp n off' name' ix' cv' w')"

definition ProcessOneBatch :: "'d AbsDatabase \<Rightarrow> evp_api \<Rightarrow> 'd PlainIndex \<Rightarrow> ClientVar \<Rightarrow> world
    \<Rightarrow> ('d PlainIndex \<times> ClientVar \<times> world) result" where
  "ProcessOneBatch vt evp ix cv w =
     (let hd = header (cv_recvChunkBuf cv);
          ix1 = ix\<lparr>ix_totalRecvDataSize := ix_totalRecvDataSize ix + ucast (dataSize hd),
                   ix_totalBatchNum := ix_totalBatchNum ix + 1\<rparr>;
          chunkNum = currentItemNum hd in
      bindR (process_chunks vt evp (unat chunkNum) 0 (replicate CONTAINER_ID_LENGTH 0) ix1 cv w) (\<lambda>(ix2, cv2, w2).
        let n = unat (ix_sendChunkBatchSize ix2) * sizeof_Chunk in
        bindR (guardR (n \<le> data_size (cv_recvChunkBuf cv2)) OutOfBounds) (\<lambda>_.
          Inr (ix2, cv2\<lparr>cv_recvChunkBuf := data_write (cv_recvChunkBuf cv2) 0 (replicate n 0)\<rparr>, w2))))"

section \<open>Processing a batch of recipe entries\<close>

fun query_entries :: "'d AbsDatabase \<Rightarrow> 'd PlainIndex \<Rightarrow> bytes list \<Rightarrow> bytes \<Rightarrow> u8 list" where
  "query_entries vt ix [] name = []"
| "query_entries vt ix (h # hs) name =
     (let (status, name') = ReadIndexStore vt ix h name in
      (if status then 0 else 1) # query_entries vt ix hs name')"

definition ProcessRecipeBatch :: "'d AbsDatabase \<Rightarrow> 'd PlainIndex \<Rightarrow> ClientVar \<Rightarrow> world \<Rightarrow> (ClientVar \<times> world) result" where
  "ProcessRecipeBatch vt ix cv w =
     (let b = cv_recvChunkBuf cv;
          hd = header b;
          entryNum = unat (currentItemNum hd) in
      bindR (guardR (unat (dataSize hd) \<le> data_size b \<and> entryNum * CHUNK_HASH_SIZE \<le> data_size b) OutOfBounds) (\<lambda>_.
        let (h, fs) = os_write (cv_secureRecipeW cv) (data_read b 0 (unat (dataSize hd))) (w_fs w);
            entries = map (\<lambda>i. data_read b (i * CHUNK_HASH_SIZE) CHUNK_HASH_SIZE) [0..<entryNum];
            statusList = query_entries vt ix entries (replicate CONTAINER_ID_LENGTH 0);
            b1 = data_write b 0 statusList;
            b2 = set_header (hd\<lparr>messageType := CLOUD_QUERY_RETURN, dataSize := currentItemNum hd\<rparr>) b1 in
        Inr (cv\<lparr>cv_secureRecipeW := h, cv_recvChunkBuf := b2\<rparr>, w\<lparr>w_fs := fs\<rparr>)))"

section \<open>What a connection has stored\<close>

text \<open>
  \<open>fl\<close> lists name and chunks of the containers pushed so far, \<open>es\<close> the chunks of the container in
  memory. \<open>b0\<close> is the value that \<open>chunkNum\<close> had when the connection was set up.
\<close>

definition base_at :: "u32 \<Rightarrow> nat \<Rightarrow> u32" where
  "base_at b0 i = (if i = 0 then b0 else 0)"

definition file_rep :: "u32 \<Rightarrow> Container_t \<Rightarrow> bytes \<times> (bytes \<times> bytes) list \<Rightarrow> bool" where
  "file_rep b k f \<longleftrightarrow> ct_containerID k = fst f \<and> snd f \<noteq> [] \<and> hashes_ok (snd f) \<and> file_size (snd f) < MAX_CONTAINER_SIZE \<and>
     ct_bytes k = file_enc (b + of_nat (length (snd f))) (snd f)"

definition client_rep :: "u32 \<Rightarrow> ClientVar \<Rightarrow> (bytes \<times> (bytes \<times> bytes) list) list \<Rightarrow> (bytes \<times> bytes) list \<Rightarrow> bool" where
  "client_rep b0 cv fl es \<longleftrightarrow>
     length (cv_pushed cv) = length fl \<and>
     (\<forall>i < length fl. file_rep (base_at b0 i) (cv_pushed cv ! i) (fl ! i)) \<and>
     cont_rep (base_at b0 (length fl)) (cv_curContainer cv) es"

text \<open>The chunks in the order they were stored, each with the name of its container.\<close>

definition file_log :: "bytes \<times> (bytes \<times> bytes) list \<Rightarrow> (bytes \<times> bytes \<times> bytes) list" where
  "file_log f = map (\<lambda>(h, d). (fst f, h, d)) (snd f)"

definition store_log :: "ClientVar \<Rightarrow> (bytes \<times> (bytes \<times> bytes) list) list \<Rightarrow> (bytes \<times> bytes) list \<Rightarrow> (bytes \<times> bytes \<times> bytes) list" where
  "store_log cv fl es = concat (map file_log fl) @ file_log (ic_containerID (cv_curContainer cv), es)"

definition client_holds :: "u32 \<Rightarrow> ClientVar \<Rightarrow> (bytes \<times> bytes \<times> bytes) list \<Rightarrow> bool" where
  "client_holds b0 cv L \<longleftrightarrow> (\<exists>fl es. client_rep b0 cv fl es \<and> L = store_log cv fl es)"

text \<open>The fields that saving chunks does not touch.\<close>

definition same_frame :: "ClientVar \<Rightarrow> ClientVar \<Rightarrow> bool" where
  "same_frame cv cv' \<longleftrightarrow> cv' = cv\<lparr>cv_curContainer := cv_curContainer cv', cv_pushed := cv_pushed cv'\<rparr>"

lemma same_frame_refl [simp]: "same_frame cv cv"
  by (simp add: same_frame_def)

lemma same_frame_trans: "same_frame a b \<Longrightarrow> same_frame b c \<Longrightarrow> same_frame a c"
  unfolding same_frame_def by (cases a, cases b, cases c) simp

lemma same_frame_recv: "same_frame cv cv' \<Longrightarrow> cv_recvChunkBuf cv' = cv_recvChunkBuf cv"
  unfolding same_frame_def by (cases cv, cases cv') simp

lemma client_rep_flush:
  assumes "client_rep b0 cv fl es" and "ct_containerID k = ic_containerID (cv_curContainer cv)"
    and "ct_bytes k = file_enc (base_at b0 (length fl) + of_nat (length es)) es"
    and "cont_rep 0 c' es'" and "es \<noteq> []"
  shows "client_rep b0 (cv\<lparr>cv_pushed := cv_pushed cv @ [k], cv_curContainer := c'\<rparr>)
     (fl @ [(ic_containerID (cv_curContainer cv), es)]) es'"
proof -
  have "hashes_ok es" "file_size es < MAX_CONTAINER_SIZE"
    using assms(1) by (simp_all add: client_rep_def cont_rep_def)
  then show ?thesis
    using assms by (auto simp: client_rep_def file_rep_def nth_append base_at_def less_Suc_eq)
qed

lemma SaveChunk_holds:
  assumes holds: "client_holds b0 cv L" and h: "length h = CHUNK_HASH_SIZE"
    and fits: "length d + 44 < MAX_CONTAINER_SIZE"
  shows "\<exists>name sc' cv' w'. SaveChunk d h sc cv w = Inr (name, sc', cv', w') \<and>
     client_holds b0 cv' (L @ [(name, h, d)]) \<and> same_frame cv cv' \<and> w_fs w' = w_fs w"
proof -
  obtain fl es where rep: "client_rep b0 cv fl es" and L: "L = store_log cv fl es"
    using holds by (auto simp: client_holds_def)
  have cont: "cont_rep (base_at b0 (length fl)) (cv_curContainer cv) es"
    using rep by (simp add: client_rep_def)
  show ?thesis
  proof (cases "file_size es + 40 + length d < MAX_CONTAINER_SIZE")
    case True
    obtain c' where c': "WriteContainer d h cv w
          = Inr (ic_containerID (cv_curContainer cv), cv\<lparr>cv_curContainer := c'\<rparr>, w)"
        "cont_rep (base_at b0 (length fl)) c' (es @ [(h, d)])"
        "ic_containerID c' = ic_containerID (cv_curContainer cv)"
      using WriteContainer_room [OF cont h True] by blast
    have "client_rep b0 (cv\<lparr>cv_curContainer := c'\<rparr>) fl (es @ [(h, d)])"
      using rep c'(2) by (simp add: client_rep_def)
    then have "client_holds b0 (cv\<lparr>cv_curContainer := c'\<rparr>) (L @ [(ic_containerID (cv_curContainer cv), h, d)])"
      unfolding client_holds_def L using c'(3) by (intro exI conjI) (auto simp: store_log_def file_log_def)
    then show ?thesis
      using c'(1) by (auto simp: SaveChunk_def same_frame_def)
  next
    case False
    obtain k c' w' where c': "WriteContainer d h cv w = Inr (ic_containerID c',
            cv\<lparr>cv_pushed := cv_pushed cv @ [k], cv_curContainer := c'\<rparr>, w')"
        "ct_containerID k = ic_containerID (cv_curContainer cv)"
        "ct_bytes k = file_enc (base_at b0 (length fl) + of_nat (length es)) es"
        "cont_rep 0 c' [(h, d)]" "w_fs w' = w_fs w"
      using WriteContainer_flush [OF cont h _ fits, of w] False by (metis not_less)
    let ?cv = "cv\<lparr>cv_pushed := cv_pushed cv @ [k], cv_curContainer := c'\<rparr>"
    have "es \<noteq> []"
      using False fits by (auto simp: file_size_simps)
    then have "client_holds b0 ?cv (L @ [(ic_containerID c', h, d)])"
      unfolding client_holds_def L using client_rep_flush [OF rep c'(2-4)]
      by (intro exI conjI) (auto simp: store_log_def file_log_def)
    then show ?thesis
      using c' by (auto simp: SaveChunk_def same_frame_def)
  qed
qed

section \<open>Deduplication\<close>

text \<open>The specification: a chunk is stored when its hash is neither in the index nor that of an earlier
  stored chunk.\<close>

fun dedup :: "(bytes \<Rightarrow> bytes) \<Rightarrow> bytes set \<Rightarrow> bytes list \<Rightarrow> bytes list" where
  "dedup H known [] = []"
| "dedup H known (c # cs) =
     (if H c \<in> known then dedup H known cs else c # dedup H (insert (H c) known) cs)"

lemma set_dedup: "H ` set (dedup H K cs) = H ` set cs - K"
  by (induction H K cs rule: dedup.induct) auto

lemma set_dedup_subset: "set (dedup H K cs) \<subseteq> set cs"
  by (induction H K cs rule: dedup.induct) auto

lemma distinct_dedup: "distinct (map H (dedup H K cs))"
proof (induction H K cs rule: dedup.induct)
  case (2 H K c cs)
  have "H c \<notin> H ` set (dedup H (insert (H c) K) cs)"
    by (simp add: set_dedup)
  then show ?case
    using 2 by auto
qed simp

text \<open>A message whose data part is a sequence of chunks, each behind its size.\<close>

fun chunks_enc :: "bytes list \<Rightarrow> bytes" where
  "chunks_enc [] = []"
| "chunks_enc (c # cs) = le_enc 4 (of_nat (length c) :: u32) @ c @ chunks_enc cs"

definition chunk_fits :: "bytes \<Rightarrow> bool" where
  "chunk_fits c \<longleftrightarrow> length c + 44 < MAX_CONTAINER_SIZE"

text \<open>The index names, for each stored chunk, the container that holds it.\<close>

definition names_ok :: "(bytes \<times> bytes \<times> bytes) list \<Rightarrow> (bytes \<rightharpoonup> bytes) \<Rightarrow> (bytes \<rightharpoonup> bytes) \<Rightarrow> bool" where
  "names_ok N m m' \<longleftrightarrow> m' = (\<lambda>h. case map_of (map (\<lambda>(n, h, d). (h, n)) N) h of Some n \<Rightarrow> Some n | None \<Rightarrow> m h)"

definition hashes_with :: "evp_api \<Rightarrow> CryptoPrimitive \<Rightarrow> (bytes \<Rightarrow> bytes) \<Rightarrow> bool" where
  "hashes_with evp cp H \<longleftrightarrow>
     (\<forall>c. evp_digest evp HASH_TYPE c = Some (H c) \<and> length (H c) = CHUNK_HASH_SIZE) \<and>
     cp_hashType cp = HASH_TYPE"

lemma hashes_with_gen: "hashes_with evp cp H \<Longrightarrow> GenerateHash evp cp c = Inr (H c) \<and> length (H c) = CHUNK_HASH_SIZE"
  by (simp add: hashes_with_def GenerateHash_def expectedHashSize_def HASH_TYPE_def CHUNK_HASH_SIZE_def)

text \<open>Reading the first chunk of a message.\<close>

lemma read_first_chunk:
  assumes msg: "data_read b off (length (chunks_enc (c # cs))) = chunks_enc (c # cs)" and fits: "chunk_fits c"
  shows "(le_dec (data_read b off 4) :: u32) = of_nat (length c)"
    and "unat (of_nat (length c) :: u32) = length c"
    and "data_read b (off + 4) (length c) = c"
    and "data_read b (off + 4 + length c) (length (chunks_enc cs)) = chunks_enc cs"
proof -
  let ?m = "data_read b off (4 + (length c + length (chunks_enc cs)))"
  have split: "data_read b off (x + y) = data_read b off x @ data_read b (off + x) y" for off x y
    by (simp add: data_read_def mem_read_add add.assoc)
  have m: "?m = le_enc 4 (of_nat (length c) :: u32) @ c @ chunks_enc cs"
    using msg by (simp add: add.assoc)
  have len: "length (data_read b o' n) = n" for o' n
    by (simp add: data_read_def)
  have e4: "data_read b off 4 = le_enc 4 (of_nat (length c) :: u32)"
    and rest: "data_read b (off + 4) (length c + length (chunks_enc cs)) = c @ chunks_enc cs"
    using m unfolding split by (simp_all add: append_eq_append_conv len del: le_enc.simps)
  show "(le_dec (data_read b off 4) :: u32) = of_nat (length c)"
    unfolding e4 by simp
  show "unat (of_nat (length c) :: u32) = length c"
    using fits by (simp add: chunk_fits_def MAX_CONTAINER_SIZE_def unat_of_nat_u32)
  show "data_read b (off + 4) (length c) = c"
    and "data_read b (off + 4 + length c) (length (chunks_enc cs)) = chunks_enc cs"
    using rest unfolding split by (simp_all add: append_eq_append_conv len)
qed

context key_value_store
begin

lemma process_chunk_spec:
  assumes store: "inv (ix_indexStore ix)" and holds: "client_holds b0 cv L"
    and hash: "hashes_with evp (ix_crypto ix) H" and fits: "chunk_fits c"
    and msg: "data_read (cv_recvChunkBuf cv) off (length (chunks_enc (c # cs))) = chunks_enc (c # cs)"
    and size: "off + length (chunks_enc (c # cs)) \<le> data_size (cv_recvChunkBuf cv)"
  shows "\<exists>name' ix' cv' w'. process_chunk vt evp off name ix cv w = Inr (off + 4 + length c, name', ix', cv', w') \<and>
     inv (ix_indexStore ix') \<and> ix_crypto ix' = ix_crypto ix \<and> same_frame cv cv' \<and> w_fs w' = w_fs w \<and>
     ix_sendChunkBatchSize ix' = ix_sendChunkBatchSize ix \<and>
     (if H c \<in> dom (abs (ix_indexStore ix)) then ix' = ix \<and> client_holds b0 cv' L
      else client_holds b0 cv' (L @ [(name', H c, c)]) \<and>
        abs (ix_indexStore ix') = (abs (ix_indexStore ix))(H c \<mapsto> name') \<and>
        ix_uniqueChunkNum ix' = ix_uniqueChunkNum ix + 1 \<and>
        ix_uniqueDataSize ix' = ix_uniqueDataSize ix + of_nat (length c))"
proof -
  note rd = read_first_chunk [OF msg fits]
  note gen = hashes_with_gen [OF hash, of c]
  have g: "off + 4 \<le> data_size (cv_recvChunkBuf cv)" "off + 4 + length c \<le> data_size (cv_recvChunkBuf cv)"
    using size by simp_all
  note q = query_law [OF store, of "H c" name]
  show ?thesis
  proof (cases "abs (ix_indexStore ix) (H c)")
    case (Some n)
    then show ?thesis
      using g rd gen q holds store by (auto simp: process_chunk_def ReadIndexStore_def dom_def)
  next
    case None
    obtain name' sc' cv' w' where sv: "SaveChunk c (H c) (ix_storageCore ix) cv w = Inr (name', sc', cv', w')"
        "client_holds b0 cv' (L @ [(name', H c, c)])" "same_frame cv cv'" "w_fs w' = w_fs w"
      using SaveChunk_holds [OF holds, of "H c" c] gen fits unfolding chunk_fits_def by blast
    obtain d' where d': "vt_Insert vt (ix_indexStore ix) (H c) name' = (True, d')" "inv d'"
        "abs d' = (abs (ix_indexStore ix))(H c \<mapsto> name')"
      using insert_law [OF store] by blast
    have "(ucast (of_nat (length c) :: u32) :: u64) = of_nat (length c)"
      using rd(2) by (metis of_nat_unat)
    then show ?thesis
      using g rd gen q None sv d'
      by (auto simp: process_chunk_def ReadIndexStore_def UpdateIndexStore_def dom_def)
  qed
qed

lemma process_chunks_spec:
  assumes "inv (ix_indexStore ix)" and "client_holds b0 cv L"
    and "hashes_with evp (ix_crypto ix) H" and "list_all chunk_fits cs"
    and "data_read (cv_recvChunkBuf cv) off (length (chunks_enc cs)) = chunks_enc cs"
    and "off + length (chunks_enc cs) \<le> data_size (cv_recvChunkBuf cv)"
  shows "\<exists>N ix' cv' w'. process_chunks vt evp (length cs) off name ix cv w = Inr (ix', cv', w') \<and>
     inv (ix_indexStore ix') \<and> ix_crypto ix' = ix_crypto ix \<and> same_frame cv cv' \<and> w_fs w' = w_fs w \<and>
     ix_sendChunkBatchSize ix' = ix_sendChunkBatchSize ix \<and>
     client_holds b0 cv' (L @ N) \<and>
     map snd N = map (\<lambda>c. (H c, c)) (dedup H (dom (abs (ix_indexStore ix))) cs) \<and>
     names_ok N (abs (ix_indexStore ix)) (abs (ix_indexStore ix')) \<and>
     ix_uniqueChunkNum ix' = ix_uniqueChunkNum ix + of_nat (length N) \<and>
     ix_uniqueDataSize ix' = ix_uniqueDataSize ix + of_nat (sum_list (map (\<lambda>(n, h, d). length d) N))"
  using assms
proof (induction cs arbitrary: off name ix cv w L)
  case Nil
  then show ?case
    by (auto simp: names_ok_def)
next
  case (Cons c cs)
  have fits: "chunk_fits c" "list_all chunk_fits cs"
    using Cons.prems by simp_all
  note rd = read_first_chunk [OF Cons.prems(5) fits(1)]
  let ?m = "abs (ix_indexStore ix)"
  obtain name1 ix1 cv1 w1 where one: "process_chunk vt evp off name ix cv w = Inr (off + 4 + length c, name1, ix1, cv1, w1)"
      "inv (ix_indexStore ix1)" "ix_crypto ix1 = ix_crypto ix" "same_frame cv cv1" "w_fs w1 = w_fs w"
      "ix_sendChunkBatchSize ix1 = ix_sendChunkBatchSize ix"
    and eff: "if H c \<in> dom ?m then ix1 = ix \<and> client_holds b0 cv1 L
      else client_holds b0 cv1 (L @ [(name1, H c, c)]) \<and> abs (ix_indexStore ix1) = ?m(H c \<mapsto> name1) \<and>
        ix_uniqueChunkNum ix1 = ix_uniqueChunkNum ix + 1 \<and>
        ix_uniqueDataSize ix1 = ix_uniqueDataSize ix + of_nat (length c)"
    using process_chunk_spec [OF Cons.prems(1-3) fits(1) Cons.prems(5,6), of name w] by blast
  have recv: "cv_recvChunkBuf cv1 = cv_recvChunkBuf cv"
    using one(4) by (rule same_frame_recv)
  define L1 where "L1 = (if H c \<in> dom ?m then L else L @ [(name1, H c, c)])"
  have h1: "client_holds b0 cv1 L1"
    using eff by (auto simp: L1_def split: if_splits)
  have "off + 4 + length c + length (chunks_enc cs) \<le> data_size (cv_recvChunkBuf cv1)"
    using Cons.prems(6) recv by simp
  then obtain N ix' cv' w' where rest: "process_chunks vt evp (length cs) (off + 4 + length c) name1 ix1 cv1 w1 = Inr (ix', cv', w')"
      "inv (ix_indexStore ix')" "ix_crypto ix' = ix_crypto ix1" "same_frame cv1 cv'" "w_fs w' = w_fs w1"
      "ix_sendChunkBatchSize ix' = ix_sendChunkBatchSize ix1"
      "client_holds b0 cv' (L1 @ N)"
      "map snd N = map (\<lambda>c. (H c, c)) (dedup H (dom (abs (ix_indexStore ix1))) cs)"
      "names_ok N (abs (ix_indexStore ix1)) (abs (ix_indexStore ix'))"
      "ix_uniqueChunkNum ix' = ix_uniqueChunkNum ix1 + of_nat (length N)"
      "ix_uniqueDataSize ix' = ix_uniqueDataSize ix1 + of_nat (sum_list (map (\<lambda>(n, h, d). length d) N))"
    using Cons.IH [OF one(2) h1 _ fits(2), where off = "off + 4 + length c" and name = name1 and w = w1]
      rd(4) recv one(3) Cons.prems(3) by auto
  show ?case
  proof (cases "H c \<in> dom ?m")
    case True
    then show ?thesis
      using one rest eff same_frame_trans [OF one(4) rest(4)] by (auto simp: L1_def)
  next
    case False
    let ?N = "(name1, H c, c) # N"
    have "H c \<notin> H ` set (dedup H (insert (H c) (dom ?m)) cs)"
      by (simp add: set_dedup)
    moreover have snd_N: "map snd N = map (\<lambda>c. (H c, c)) (dedup H (insert (H c) (dom ?m)) cs)"
      using rest(8) eff False by simp
    moreover have "map fst (map snd N) = map H (dedup H (insert (H c) (dom ?m)) cs)"
      unfolding snd_N by simp
    ultimately have "H c \<notin> fst ` snd ` set N"
      by (metis (no_types, lifting) image_set)
    then have none: "map_of (map (\<lambda>(n, h, d). (h, n)) N) (H c) = None"
      by (force simp: map_of_eq_None_iff)
    have "names_ok ?N ?m (abs (ix_indexStore ix'))"
      using rest(9) eff False none by (auto simp: names_ok_def fun_eq_iff split: option.splits)
    then show ?thesis
      using one rest eff False snd_N same_frame_trans [OF one(4) rest(4)]
      by (intro exI [of _ ?N] exI [of _ ix'] exI [of _ cv'] exI [of _ w']) (simp add: L1_def add.assoc)
  qed
qed

end

definition msg_is :: "SendMsgBuffer_t \<Rightarrow> bytes list \<Rightarrow> bool" where
  "msg_is b cs \<longleftrightarrow> unat (currentItemNum (header b)) = length cs \<and>
     data_read b 0 (length (chunks_enc cs)) = chunks_enc cs \<and> length (chunks_enc cs) \<le> data_size b"

text \<open>The message in a buffer that a header and its payload were copied to.\<close>

lemma received_message:
  assumes "sendBuffer b = mem_write m 0 (nh_enc h @ p)"
  shows "header b = h" and "data_read b 0 (length p) = p"
  using assms
  by (simp_all add: header_def data_read_def sizeof_NetworkHead_def mem_read_write_inside del: mem_read_write_same)

context key_value_store
begin

lemma ProcessOneBatch_frame:
  assumes store: "inv (ix_indexStore ix)" and holds: "client_holds b0 cv L"
    and hash: "hashes_with evp (ix_crypto ix) H" and fits: "list_all chunk_fits cs"
    and msg: "msg_is (cv_recvChunkBuf cv) cs"
    and buf: "unat (ix_sendChunkBatchSize ix) * sizeof_Chunk \<le> data_size (cv_recvChunkBuf cv)"
  shows "\<exists>N ix' cv' w' b. ProcessOneBatch vt evp ix cv w = Inr (ix', cv', w') \<and>
     inv (ix_indexStore ix') \<and> w_fs w' = w_fs w \<and> client_holds b0 cv' (L @ N) \<and>
     map snd N = map (\<lambda>c. (H c, c)) (dedup H (dom (abs (ix_indexStore ix))) cs) \<and>
     names_ok N (abs (ix_indexStore ix)) (abs (ix_indexStore ix')) \<and>
     ix_uniqueChunkNum ix' = ix_uniqueChunkNum ix + of_nat (length N) \<and>
     ix_uniqueDataSize ix' = ix_uniqueDataSize ix + of_nat (sum_list (map (\<lambda>(n, h, d). length d) N)) \<and>
     ix_crypto ix' = ix_crypto ix \<and> ix_sendChunkBatchSize ix' = ix_sendChunkBatchSize ix \<and>
     same_frame (cv\<lparr>cv_recvChunkBuf := b\<rparr>) cv' \<and> sb_size b = sb_size (cv_recvChunkBuf cv)"
proof -
  let ?hd = "header (cv_recvChunkBuf cv)"
  let ?ix1 = "ix\<lparr>ix_totalRecvDataSize := ix_totalRecvDataSize ix + ucast (dataSize ?hd),
                   ix_totalBatchNum := ix_totalBatchNum ix + 1\<rparr>"
  have n: "unat (currentItemNum ?hd) = length cs"
    using msg by (simp add: msg_is_def)
  obtain N ix' cv' w' where r: "process_chunks vt evp (length cs) 0 (replicate CONTAINER_ID_LENGTH 0) ?ix1 cv w = Inr (ix', cv', w')"
      "inv (ix_indexStore ix')" "same_frame cv cv'" "w_fs w' = w_fs w"
      "ix_sendChunkBatchSize ix' = ix_sendChunkBatchSize ix" "client_holds b0 cv' (L @ N)"
      "map snd N = map (\<lambda>c. (H c, c)) (dedup H (dom (abs (ix_indexStore ix))) cs)"
      "names_ok N (abs (ix_indexStore ix)) (abs (ix_indexStore ix'))"
      "ix_uniqueChunkNum ix' = ix_uniqueChunkNum ix + of_nat (length N)"
      "ix_uniqueDataSize ix' = ix_uniqueDataSize ix + of_nat (sum_list (map (\<lambda>(n, h, d). length d) N))"
      "ix_crypto ix' = ix_crypto ix"
    using process_chunks_spec [of ?ix1 b0 cv L evp H cs 0 "replicate CONTAINER_ID_LENGTH 0" w]
      store holds hash fits msg by (auto simp: msg_is_def)
  define b where "b = data_write (cv_recvChunkBuf cv) 0 (replicate (unat (ix_sendChunkBatchSize ix') * sizeof_Chunk) 0)"
  define cv2 where "cv2 = cv'\<lparr>cv_recvChunkBuf := b\<rparr>"
  note recv = same_frame_recv [OF r(3)]
  have "ProcessOneBatch vt evp ix cv w = Inr (ix', cv2, w')"
    using r(1,5) n buf recv by (simp add: ProcessOneBatch_def Let_def cv2_def b_def)
  moreover have "client_holds b0 cv2 (L @ N)"
    using r(6) by (simp add: client_holds_def client_rep_def store_log_def cv2_def)
  moreover have "same_frame (cv\<lparr>cv_recvChunkBuf := b\<rparr>) cv2" "sb_size b = sb_size (cv_recvChunkBuf cv)"
    using r(3) unfolding same_frame_def cv2_def b_def by (cases cv, cases cv') auto
  ultimately show ?thesis
    using r by blast
qed

lemma ProcessOneBatch_spec:
  assumes "inv (ix_indexStore ix)" and "client_holds b0 cv L"
    and "hashes_with evp (ix_crypto ix) H" and "list_all chunk_fits cs"
    and "msg_is (cv_recvChunkBuf cv) cs"
    and "unat (ix_sendChunkBatchSize ix) * sizeof_Chunk \<le> data_size (cv_recvChunkBuf cv)"
  shows "\<exists>N ix' cv' w'. ProcessOneBatch vt evp ix cv w = Inr (ix', cv', w') \<and>
     inv (ix_indexStore ix') \<and> w_fs w' = w_fs w \<and> client_holds b0 cv' (L @ N) \<and>
     map snd N = map (\<lambda>c. (H c, c)) (dedup H (dom (abs (ix_indexStore ix))) cs) \<and>
     names_ok N (abs (ix_indexStore ix)) (abs (ix_indexStore ix')) \<and>
     ix_uniqueChunkNum ix' = ix_uniqueChunkNum ix + of_nat (length N) \<and>
     ix_uniqueDataSize ix' = ix_uniqueDataSize ix + of_nat (sum_list (map (\<lambda>(n, h, d). length d) N))"
  using ProcessOneBatch_frame [OF assms, of w] by blast

lemma query_entries_spec:
  "inv (ix_indexStore ix) \<Longrightarrow>
   query_entries vt ix hs name = map (\<lambda>h. if h \<in> dom (abs (ix_indexStore ix)) then 0 else 1) hs"
  by (induction hs arbitrary: name)
    (auto simp: ReadIndexStore_def query_law dom_def split: option.splits)

lemma ProcessRecipeBatch_spec:
  assumes inv: "inv (ix_indexStore ix)" and hs: "list_all (\<lambda>h. length h = CHUNK_HASH_SIZE) hs"
    and msg: "header b = \<lparr>messageType = mt, clientID = cid, dataSize = of_nat (length (concat hs)), currentItemNum = of_nat (length hs)\<rparr>"
      "data_read b 0 (length (concat hs)) = concat hs" "length (concat hs) \<le> data_size b" "length (concat hs) < 2 ^ 32"
    and b: "cv_recvChunkBuf cv = b" and wr: "writer_at (cv_secureRecipeW cv) path content (w_fs w)"
  shows "\<exists>h' b' fs'. ProcessRecipeBatch vt ix cv w = Inr (cv\<lparr>cv_secureRecipeW := h', cv_recvChunkBuf := b'\<rparr>, w\<lparr>w_fs := fs'\<rparr>) \<and>
     header b' = \<lparr>messageType = CLOUD_QUERY_RETURN, clientID = cid,
        dataSize = of_nat (length hs), currentItemNum = of_nat (length hs)\<rparr> \<and>
     data_read b' 0 (length hs) = map (\<lambda>h. if h \<in> dom (abs (ix_indexStore ix)) then 0 else 1) hs \<and>
     sb_size b' = sb_size b \<and> writer_at h' path (content @ concat hs) fs' \<and>
     files fs' = (files (w_fs w))(c_path path \<mapsto> content @ concat hs) \<and> openable fs' = openable (w_fs w) \<and>
     mem_read (sendBuffer b') 0 sizeof_NetworkHead = nh_enc (header b')"
proof -
  have len: "length (concat hs) = length hs * CHUNK_HASH_SIZE"
    using hs by (induction hs) auto
  have n: "unat (of_nat (length hs) :: u32) = length hs"
    using msg(4) len by (intro unat_of_nat_u32) (simp add: CHUNK_HASH_SIZE_def)
  have n': "unat (of_nat (length (concat hs)) :: u32) = length (concat hs)"
    using msg(4) by (intro unat_of_nat_u32)
  have entries: "map (\<lambda>i. data_read b (i * CHUNK_HASH_SIZE) CHUNK_HASH_SIZE) [0..<length hs] = hs"
  proof (rule nth_equalityI)
    fix i
    assume "i < length (map (\<lambda>i. data_read b (i * CHUNK_HASH_SIZE) CHUNK_HASH_SIZE) [0..<length hs])"
    then have i: "i < length hs"
      by simp
    then have "Suc i * CHUNK_HASH_SIZE \<le> length hs * CHUNK_HASH_SIZE"
      by (intro mult_le_mono1) simp
    then have "i * CHUNK_HASH_SIZE \<le> length hs * CHUNK_HASH_SIZE"
      "CHUNK_HASH_SIZE \<le> length hs * CHUNK_HASH_SIZE - i * CHUNK_HASH_SIZE"
      using i by (simp_all del: mult_le_cancel2)
    then have "data_read b (i * CHUNK_HASH_SIZE) CHUNK_HASH_SIZE =
        take CHUNK_HASH_SIZE (drop (i * CHUNK_HASH_SIZE) (data_read b 0 (length (concat hs))))"
      by (simp add: data_read_def drop_mem_read take_mem_read len)
    also have "\<dots> = hs ! i"
      using hs i by (simp add: msg(2)) (induction hs arbitrary: i; auto simp: nth_Cons split: nat.splits)
    finally show "map (\<lambda>i. data_read b (i * CHUNK_HASH_SIZE) CHUNK_HASH_SIZE) [0..<length hs] ! i = hs ! i"
      using i by simp
  qed simp
  let ?st = "map (\<lambda>h. if h \<in> dom (abs (ix_indexStore ix)) then 0 else 1 :: u8) hs"
  have q: "query_entries vt ix hs (replicate CONTAINER_ID_LENGTH 0) = ?st"
    using query_entries_spec [OF inv] .
  let ?b = "set_header \<lparr>messageType = CLOUD_QUERY_RETURN, clientID = cid, dataSize = of_nat (length hs),
       currentItemNum = of_nat (length hs)\<rparr> (data_write b 0 ?st)"
  let ?h = "(cv_secureRecipeW cv)\<lparr>os_pos := length content + length (concat hs)\<rparr>"
  let ?fs = "(w_fs w)\<lparr>files := (files (w_fs w))(c_path path \<mapsto> content @ concat hs)\<rparr>"
  have "ProcessRecipeBatch vt ix cv w = Inr (cv\<lparr>cv_secureRecipeW := ?h, cv_recvChunkBuf := ?b\<rparr>, w\<lparr>w_fs := ?fs\<rparr>)"
    using msg b wr len n n' entries q by (simp add: ProcessRecipeBatch_def Let_def writer_at_def os_write_def)
  moreover have "data_read ?b 0 (length ?st) = ?st"
    by (simp only: data_read_set_header data_read_data_write)
  moreover have "writer_at ?h path (content @ concat hs) ?fs" "sb_size ?b = sb_size b" "header ?b = \<lparr>messageType = CLOUD_QUERY_RETURN,
      clientID = cid, dataSize = of_nat (length hs), currentItemNum = of_nat (length hs)\<rparr>"
    using wr by (simp_all add: writer_at_def)
  ultimately show ?thesis
    by (intro exI [of _ ?h] exI [of _ ?b] exI [of _ ?fs]) (simp add: header_bytes)
qed

end

section \<open>The statistics file\<close>

lemma read_u64_full:
  assumes "is_good_at h p pos" and "files fs p = Some c" and "drop pos c = le_enc 8 v @ r"
  shows "\<exists>h'. read_u64 old h fs = (v, h') \<and> is_good_at h' p (pos + 8) \<and> drop (pos + 8) c = r"
proof -
  have "length (drop pos c) = 8 + length r"
    by (simp only: assms(3) length_append length_le_enc)
  then have l: "pos + 8 \<le> length c"
    by simp
  obtain g h' where g: "is_read h 8 fs = (g, h')"
    by fastforce
  have "g = le_enc 8 v" "is_good_at h' p (pos + 8)"
    using is_read_full [OF assms(1,2) l g] assms(3) by simp_all
  moreover have "drop (pos + 8) c = r"
    using arg_cong [OF assms(3), of "drop 8"] by (simp add: add.commute del: le_enc.simps)
  ultimately show ?thesis
    using g by (simp add: read_u64_def del: le_enc.simps)
qed

definition stat_enc :: "'d PlainIndex \<Rightarrow> bytes" where
  "stat_enc ix = le_enc 8 (ix_logicalDataSize ix) @ le_enc 8 (ix_logicalChunkNum ix) @
     le_enc 8 (ix_uniqueDataSize ix) @ le_enc 8 (ix_uniqueChunkNum ix) @ le_enc 8 (ix_compressedDataSize ix)"

lemma AbsIndex_delete_file:
  assumes "openable fs (c_path persistentFileName)"
  shows "files (AbsIndex_delete ix fs) = (files fs)(c_path persistentFileName \<mapsto> stat_enc ix)"
proof -
  obtain h0 fs0 where o: "os_open_trunc persistentFileName fs = (h0, fs0)"
    by fastforce
  note at0 = os_open_trunc_at_end [OF assms o]
  obtain h1 fs1 where 1: "os_write h0 (le_enc 8 (ix_logicalDataSize ix)) fs0 = (h1, fs1)"
    by fastforce
  obtain h2 fs2 where 2: "os_write h1 (le_enc 8 (ix_logicalChunkNum ix)) fs1 = (h2, fs2)"
    by fastforce
  obtain h3 fs3 where 3: "os_write h2 (le_enc 8 (ix_uniqueDataSize ix)) fs2 = (h3, fs3)"
    by fastforce
  obtain h4 fs4 where 4: "os_write h3 (le_enc 8 (ix_uniqueChunkNum ix)) fs3 = (h4, fs4)"
    by fastforce
  obtain h5 fs5 where 5: "os_write h4 (le_enc 8 (ix_compressedDataSize ix)) fs4 = (h5, fs5)"
    by fastforce
  have a0: "os_at_end h0 fs0"
    using at0 by simp
  note a1 = os_write_appends [OF a0 1]
  note a2 = os_write_appends [OF a1(1) 2]
  note a3 = os_write_appends [OF a2(1) 3]
  note a4 = os_write_appends [OF a3(1) 4]
  note a5 = os_write_appends [OF a4(1) 5]
  have "AbsIndex_delete ix fs = fs5"
    using a0 by (simp add: AbsIndex_delete_def o 1 2 3 4 5 os_at_end_def)
  then show ?thesis
    using at0 a1 a2 a3 a4 a5 by (simp add: stat_enc_def fun_eq_iff del: le_enc.simps)
qed

lemma AbsIndex_new_file:
  assumes "files fs (c_path persistentFileName) = Some (stat_enc ix)"
  shows "\<exists>ix'. AbsIndex_new cfg store sc fs = Inr ix' \<and> ix_logicalDataSize ix' = ix_logicalDataSize ix \<and>
     ix_logicalChunkNum ix' = ix_logicalChunkNum ix \<and> ix_uniqueDataSize ix' = ix_uniqueDataSize ix \<and>
     ix_uniqueChunkNum ix' = ix_uniqueChunkNum ix \<and> ix_compressedDataSize ix' = ix_compressedDataSize ix \<and>
     ix_indexStore ix' = store"
proof -
  have ex: "FileExist fs persistentFileName"
    using assms by (simp add: FileExist_def)
  note g0 = is_open_read_good [OF ex]
  have d0: "drop 0 (stat_enc ix) = le_enc 8 (ix_logicalDataSize ix) @ le_enc 8 (ix_logicalChunkNum ix) @
     le_enc 8 (ix_uniqueDataSize ix) @ le_enc 8 (ix_uniqueChunkNum ix) @ le_enc 8 (ix_compressedDataSize ix) @ []"
    by (simp add: stat_enc_def del: le_enc.simps)
  obtain h1 where 1: "read_u64 0 (is_open_read persistentFileName fs) fs = (ix_logicalDataSize ix, h1)" "is_good_at h1 (c_path persistentFileName) (0 + 8)"
      "drop (0 + 8) (stat_enc ix) = le_enc 8 (ix_logicalChunkNum ix) @
     le_enc 8 (ix_uniqueDataSize ix) @ le_enc 8 (ix_uniqueChunkNum ix) @ le_enc 8 (ix_compressedDataSize ix) @ []"
    using read_u64_full [OF g0 assms d0] by blast
  obtain h2 where 2: "read_u64 0 h1 fs = (ix_logicalChunkNum ix, h2)" "is_good_at h2 (c_path persistentFileName) (0 + 8 + 8)"
      "drop (0 + 8 + 8) (stat_enc ix) = le_enc 8 (ix_uniqueDataSize ix) @ le_enc 8 (ix_uniqueChunkNum ix) @ le_enc 8 (ix_compressedDataSize ix) @ []"
    using read_u64_full [OF 1(2) assms 1(3)] by blast
  obtain h3 where 3: "read_u64 0 h2 fs = (ix_uniqueDataSize ix, h3)" "is_good_at h3 (c_path persistentFileName) (0 + 8 + 8 + 8)"
      "drop (0 + 8 + 8 + 8) (stat_enc ix) = le_enc 8 (ix_uniqueChunkNum ix) @ le_enc 8 (ix_compressedDataSize ix) @ []"
    using read_u64_full [OF 2(2) assms 2(3)] by blast
  obtain h4 where 4: "read_u64 0 h3 fs = (ix_uniqueChunkNum ix, h4)" "is_good_at h4 (c_path persistentFileName) (0 + 8 + 8 + 8 + 8)"
      "drop (0 + 8 + 8 + 8 + 8) (stat_enc ix) = le_enc 8 (ix_compressedDataSize ix) @ []"
    using read_u64_full [OF 3(2) assms 3(3)] by blast
  obtain h5 where 5: "read_u64 0 h4 fs = (ix_compressedDataSize ix, h5)"
    using read_u64_full [OF 4(2) assms 4(3)] by blast
  show ?thesis
    using ex g0 1(1) 2(1) 3(1) 4(1) 5
    by (simp add: AbsIndex_new_def Let_def is_good_at_def)
qed

section \<open>Properties of the index over the in-memory database\<close>

text \<open>C8: Processing a batch of chunks deduplicates. Whenever each chunk fits a container, the batch returns normally; the
  chunks it stores are, in order, exactly those whose hash was neither indexed before nor computed for an earlier
  chunk of the batch; each is stored once in the containers of the connection, behind all that was stored
  before; the index afterwards maps the hash of each stored chunk to the name of the container that holds it and
  is otherwise unchanged; the two counters of unique data advance by the number and the total length of the stored
  chunks; no file changes.\<close>

theorem batch_deduplicates:
  fixes ix :: "InMemoryDatabase PlainIndex"
  assumes "inmem_inv (ix_indexStore ix)" and "client_holds b0 cv L"
    and "hashes_with evp (ix_crypto ix) H" and "list_all chunk_fits cs" and "msg_is (cv_recvChunkBuf cv) cs"
    and "unat (ix_sendChunkBatchSize ix) * sizeof_Chunk \<le> data_size (cv_recvChunkBuf cv)"
  shows "\<exists>N ix' cv' w'. ProcessOneBatch inmem_vtable evp ix cv w = Inr (ix', cv', w') \<and>
     inmem_inv (ix_indexStore ix') \<and> w_fs w' = w_fs w \<and> client_holds b0 cv' (L @ N) \<and>
     map snd N = map (\<lambda>c. (H c, c)) (dedup H (dom (inmem_abs (ix_indexStore ix))) cs) \<and>
     names_ok N (inmem_abs (ix_indexStore ix)) (inmem_abs (ix_indexStore ix')) \<and>
     ix_uniqueChunkNum ix' = ix_uniqueChunkNum ix + of_nat (length N) \<and>
     ix_uniqueDataSize ix' = ix_uniqueDataSize ix + of_nat (sum_list (map (\<lambda>(n, h, d). length d) N))"
  by (rule inmem.ProcessOneBatch_spec) fact+

definition demo_hash :: "bytes \<Rightarrow> bytes" where
  "demo_hash c = take 32 (c @ replicate 32 0)"

definition demo_evp :: evp_api where
  "demo_evp = \<lparr>evp_digest = (\<lambda>_ c. Some (demo_hash c)), evp_encrypt = (\<lambda>_ _ _ _ p. Some p),
     evp_decrypt = (\<lambda>_ _ _ _ p. Some p)\<rparr>"

definition demo_index :: "InMemoryDatabase PlainIndex" where
  "demo_index = \<lparr>ix_indexStore = \<lparr>db_name = [100], indexObj = []\<rparr>,
     ix_storageCore = \<lparr>sc_writtenDataSize = 0, sc_writtenChunkNum = 0\<rparr>,
     ix_crypto = CryptoPrimitive_new CIPHER_TYPE HASH_TYPE, ix_sendChunkBatchSize = 256, ix_sendRecipeBatchSize = 512,
     ix_totalRecvDataSize = 0, ix_totalBatchNum = 0, ix_logicalChunkNum = 0, ix_logicalDataSize = 0,
     ix_uniqueChunkNum = 0, ix_uniqueDataSize = 0, ix_compressedDataSize = 0\<rparr>"

definition demo_message :: "NetworkHead_t \<Rightarrow> bytes \<Rightarrow> SendMsgBuffer_t" where
  "demo_message h p = \<lparr>sendBuffer = mem_write (\<lambda>_. 0) 0 (nh_enc h @ p), sb_size = 16 + 256 * sizeof_Chunk\<rparr>"

lemma demo_message_simps:
  "header (demo_message h p) = h" "data_read (demo_message h p) 0 (length p) = p"
  "data_size (demo_message h p) = 4195328"
  using received_message [of "demo_message h p" "\<lambda>_. 0" h p]
  by (simp_all add: demo_message_def data_size_def const_simps)

lemma demo_hashes: "hashes_with demo_evp (ix_crypto demo_index) demo_hash"
  by (simp add: hashes_with_def demo_evp_def demo_hash_def demo_index_def CryptoPrimitive_new_def CHUNK_HASH_SIZE_def)
    (simp add: min_def)

lemma demo_client_holds: "client_holds 0 (demo_client b) []"
  unfolding client_holds_def
  by (intro exI [of _ "[]"])
    (simp add: client_rep_def cont_rep_def demo_client_def base_at_def store_log_def file_log_def MAX_CONTAINER_SIZE_def)

theorem batch_deduplicates_witness:
  "\<exists>ix' cv' w'. ProcessOneBatch inmem_vtable demo_evp demo_index
       (demo_client (demo_message \<lparr>messageType = 9, clientID = 1, dataSize = 17, currentItemNum = 3\<rparr>
          (chunks_enc [[1, 2], [1, 2], [3]]))) demo_world = Inr (ix', cv', w') \<and> ix_uniqueChunkNum ix' = 2"
proof -
  let ?cs = "[[1, 2], [1, 2], [3]] :: bytes list"
  let ?h = "\<lparr>messageType = 9, clientID = 1, dataSize = 17, currentItemNum = 3\<rparr>"
  let ?b = "demo_message ?h (chunks_enc ?cs)"
  have msg: "msg_is (cv_recvChunkBuf (demo_client ?b)) ?cs"
    using demo_message_simps [of ?h "chunks_enc ?cs"] by (simp add: msg_is_def demo_client_def)
  have pre: "inmem_inv (ix_indexStore demo_index)" "list_all chunk_fits ?cs"
    "unat (ix_sendChunkBatchSize demo_index) * sizeof_Chunk \<le> data_size (cv_recvChunkBuf (demo_client ?b))"
    by (simp_all add: inmem_inv_def demo_index_def chunk_fits_def const_simps demo_client_def demo_message_simps)
  obtain N :: "(bytes \<times> bytes \<times> bytes) list" and ix' cv' w' where
    "ProcessOneBatch inmem_vtable demo_evp demo_index (demo_client ?b) demo_world = Inr (ix', cv', w')"
    "map snd N = map (\<lambda>c. (demo_hash c, c)) (dedup demo_hash (dom (inmem_abs (ix_indexStore demo_index))) ?cs)"
    "ix_uniqueChunkNum ix' = ix_uniqueChunkNum demo_index + of_nat (length N)"
    using batch_deduplicates [OF pre(1) demo_client_holds demo_hashes pre(2) msg pre(3), of demo_world]
    by blast
  moreover from this(2) have "length N = 2"
    by (drule_tac f = length in arg_cong) (simp add: demo_hash_def inmem_abs_def demo_index_def)
  ultimately show ?thesis
    by (auto simp: demo_index_def)
qed

text \<open>C26: A batch of recipe entries is appended to the secure recipe file, and the answer in the buffer has one byte per
  entry, 0 for a hash that is indexed and 1 for one that the client has to send; its header is a
  \<open>CLOUD_QUERY_RETURN\<close> with the number of entries as data size.\<close>

theorem recipe_batch_answer:
  fixes ix :: "InMemoryDatabase PlainIndex"
  assumes inv: "inmem_inv (ix_indexStore ix)" and hs: "list_all (\<lambda>h. length h = CHUNK_HASH_SIZE) hs"
    and msg: "header b = \<lparr>messageType = mt, clientID = cid, dataSize = of_nat (length (concat hs)), currentItemNum = of_nat (length hs)\<rparr>"
      "data_read b 0 (length (concat hs)) = concat hs" "length (concat hs) \<le> data_size b" "length (concat hs) < 2 ^ 32"
    and b: "cv_recvChunkBuf cv = b" and wr: "writer_at (cv_secureRecipeW cv) path content (w_fs w)"
  shows "\<exists>cv' w'. ProcessRecipeBatch inmem_vtable ix cv w = Inr (cv', w') \<and>
     header (cv_recvChunkBuf cv') = \<lparr>messageType = CLOUD_QUERY_RETURN, clientID = cid,
        dataSize = of_nat (length hs), currentItemNum = of_nat (length hs)\<rparr> \<and>
     data_read (cv_recvChunkBuf cv') 0 (length hs) = map (\<lambda>h. if h \<in> dom (inmem_abs (ix_indexStore ix)) then 0 else 1) hs \<and>
     writer_at (cv_secureRecipeW cv') path (content @ concat hs) (w_fs w') \<and>
     files (w_fs w') = (files (w_fs w))(c_path path \<mapsto> content @ concat hs)"
  using inmem.ProcessRecipeBatch_spec [OF assms] by force

theorem recipe_batch_answer_witness:
  "\<exists>cv' w'. ProcessRecipeBatch inmem_vtable
       (demo_index\<lparr>ix_indexStore := \<lparr>db_name = [], indexObj = [(replicate 32 7, str ''abcdefgh'')]\<rparr>\<rparr>)
       ((demo_client (demo_message \<lparr>messageType = 3, clientID = 1, dataSize = 64, currentItemNum = 2\<rparr>
          (replicate 32 7 @ replicate 32 8)))\<lparr>cv_secureRecipeW := \<lparr>os_path = [115], os_pos = 0, os_is_open = True\<rparr>\<rparr>)
       (demo_world\<lparr>w_fs := \<lparr>files = [[115] \<mapsto> []], openable = (\<lambda>_. True)\<rparr>\<rparr>) = Inr (cv', w') \<and>
     data_read (cv_recvChunkBuf cv') 0 2 = [0, 1]"
proof -
  let ?ix = "demo_index\<lparr>ix_indexStore := \<lparr>db_name = [], indexObj = [(replicate 32 7, str ''abcdefgh'')]\<rparr>\<rparr>"
  let ?hs = "[replicate 32 7, replicate 32 8] :: bytes list"
  let ?h = "\<lparr>messageType = 3, clientID = 1, dataSize = 64, currentItemNum = 2\<rparr>"
  let ?b = "demo_message ?h (replicate 32 7 @ replicate 32 8)"
  let ?cv = "(demo_client ?b)\<lparr>cv_secureRecipeW := \<lparr>os_path = [115], os_pos = 0, os_is_open = True\<rparr>\<rparr>"
  let ?w = "demo_world\<lparr>w_fs := \<lparr>files = [[115] \<mapsto> []], openable = (\<lambda>_. True)\<rparr>\<rparr>"
  note d = demo_message_simps [of ?h "replicate 32 7 @ replicate 32 8"]
  have "inmem_inv (ix_indexStore ?ix)" "list_all (\<lambda>h. length h = CHUNK_HASH_SIZE) ?hs"
    "writer_at (cv_secureRecipeW ?cv) [115] [] (w_fs ?w)" "cv_recvChunkBuf ?cv = ?b"
    by (simp_all add: inmem_inv_def CHUNK_HASH_SIZE_def writer_at_def c_path_def demo_client_def)
  moreover have "header ?b = \<lparr>messageType = 3, clientID = 1, dataSize = of_nat (length (concat ?hs)), currentItemNum = of_nat (length ?hs)\<rparr>"
    "data_read ?b 0 (length (concat ?hs)) = concat ?hs" "length (concat ?hs) \<le> data_size ?b" "length (concat ?hs) < 2 ^ 32"
    using d by simp_all
  ultimately obtain cv' w' where "ProcessRecipeBatch inmem_vtable ?ix ?cv ?w = Inr (cv', w')"
    "data_read (cv_recvChunkBuf cv') 0 (length ?hs) = map (\<lambda>h. if h \<in> dom (inmem_abs (ix_indexStore ?ix)) then 0 else 1) ?hs"
    using recipe_batch_answer [of ?ix ?hs ?b 3 1 ?cv "[115]" "[]" ?w] by blast
  moreover have "replicate 32 (7 :: u8) \<noteq> replicate 32 8"
    by simp
  ultimately show ?thesis
    by (intro exI [of _ cv'] exI [of _ w']) (simp add: inmem_abs_def numeral_2_eq_2)
qed

text \<open>The statistics survive a restart: what the destructor of the index writes to \<open>previous-stat\<close>, the
  constructor reads back, all five counters.\<close>

theorem statistics_survive_restart:
  assumes "openable fs (c_path persistentFileName)" and "files fs' = files (AbsIndex_delete ix fs)"
  shows "\<exists>ix'. AbsIndex_new cfg store sc fs' = Inr ix' \<and> ix_logicalDataSize ix' = ix_logicalDataSize ix \<and>
     ix_logicalChunkNum ix' = ix_logicalChunkNum ix \<and> ix_uniqueDataSize ix' = ix_uniqueDataSize ix \<and>
     ix_uniqueChunkNum ix' = ix_uniqueChunkNum ix \<and> ix_compressedDataSize ix' = ix_compressedDataSize ix \<and>
     ix_indexStore ix' = store"
  using AbsIndex_delete_file [OF assms(1), of ix] assms(2) by (intro AbsIndex_new_file) simp

theorem statistics_survive_restart_witness:
  "\<exists>ix'. AbsIndex_new demo_cfg demo_db \<lparr>sc_writtenDataSize = 0, sc_writtenChunkNum = 0\<rparr>
       (AbsIndex_delete (demo_index\<lparr>ix_uniqueChunkNum := 12\<rparr>) demo_fs) = Inr ix' \<and> ix_uniqueChunkNum ix' = 12"
  using statistics_survive_restart [of demo_fs "AbsIndex_delete (demo_index\<lparr>ix_uniqueChunkNum := 12\<rparr>) demo_fs"
      "demo_index\<lparr>ix_uniqueChunkNum := 12\<rparr>" demo_cfg demo_db "\<lparr>sc_writtenDataSize = 0, sc_writtenChunkNum = 0\<rparr>"]
  by (auto simp: demo_fs_def)

end
