(* ===== verification/Ssl_Connection.thy ===== *)
theory Ssl_Connection
  imports Chunk_Structure
begin

text \<open>
  \<open>SSLConnection\<close> (\<open>src/Comm/sslConnect.cc\<close>): set-up of the channel, and messages of the form length, data
  over OpenSSL. OpenSSL and the sockets are parameters: \<open>ssl_api\<close> holds the calls on one connection of
  state \<open>'s\<close>, \<open>net_api\<close> the outcomes of the calls that set a channel up. What the transport is relied on for
  is the predicate \<open>ssl_laws\<close>. The two transfer loops may not end, so the operations return
  \<open>None\<close> when they do not return.
\<close>

section \<open>Setting up a channel\<close>

datatype SSL_CONNECTION_TYPE = IN_SERVERSIDE | IN_CLIENTSIDE

definition connection_type :: "int \<Rightarrow> SSL_CONNECTION_TYPE option" where
  "connection_type t = (if t = 0 then Some IN_SERVERSIDE else if t = 1 then Some IN_CLIENTSIDE else None)"

definition SERVER_CERT :: bytes where "SERVER_CERT = str ''../key/server/server.crt''"
definition SERVER_KEY :: bytes where "SERVER_KEY = str ''../key/server/server.key''"
definition CLIENT_CERT :: bytes where "CLIENT_CERT = str ''../key/client/client.crt''"
definition CLIENT_KEY :: bytes where "CLIENT_KEY = str ''../key/client/client.key''"
definition CA_CERT :: bytes where "CA_CERT = str ''../key/ca/ca.crt''"

text \<open>Whether the calls of the socket layer and of the TLS context succeed.\<close>

record net_api =
  na_setsockopt :: bool
  na_bind :: "u32 \<Rightarrow> bool"
  na_listen :: bool
  na_load_ca :: "bytes \<Rightarrow> bool"
  na_use_cert :: "bytes \<Rightarrow> bool"
  na_use_key :: "bytes \<Rightarrow> bool"
  na_check_key :: "bytes \<Rightarrow> bytes \<Rightarrow> bool"

text \<open>The members, with what the TLS context was configured with.\<close>

record SSLConnection =
  sn_serverIP :: bytes
  sn_port :: u32
  sn_type :: SSL_CONNECTION_TYPE
  sn_verify_peer :: bool
  sn_ca :: bytes
  sn_cert :: bytes
  sn_key :: bytes

definition SSLConnection_new :: "net_api \<Rightarrow> bytes \<Rightarrow> u32 \<Rightarrow> int \<Rightarrow> SSLConnection result" where
  "SSLConnection_new net ip port type =
     bindR (case connection_type type of
         Some IN_SERVERSIDE \<Rightarrow>
           bindR (guardR (na_setsockopt net) ExitFailure) (\<lambda>_.
           bindR (guardR (na_bind net port) ExitFailure) (\<lambda>_.
           bindR (guardR (na_listen net) ExitFailure) (\<lambda>_. Inr (IN_SERVERSIDE, SERVER_CERT, SERVER_KEY))))
       | Some IN_CLIENTSIDE \<Rightarrow> Inr (IN_CLIENTSIDE, CLIENT_CERT, CLIENT_KEY)
       | None \<Rightarrow> Inl ExitFailure) (\<lambda>(t, crt, key).
     bindR (guardR (na_load_ca net CA_CERT) ExitFailure) (\<lambda>_.
     bindR (guardR (na_use_cert net crt) ExitFailure) (\<lambda>_.
     bindR (guardR (na_use_key net key) ExitFailure) (\<lambda>_.
     bindR (guardR (na_check_key net crt key) ExitFailure) (\<lambda>_.
       Inr \<lparr>sn_serverIP = ip, sn_port = port, sn_type = t, sn_verify_peer = True, sn_ca = CA_CERT,
            sn_cert = crt, sn_key = key\<rparr>)))))"

section \<open>One connection\<close>

text \<open>
  \<open>SSL_read c n\<close>: the return value, the bytes stored in the buffer, the new state. \<open>SSL_zero c r\<close> is
  \<open>SSL_get_error(c, r) == SSL_ERROR_ZERO_RETURN\<close>. \<open>SSL_handshake\<close> is \<open>SSL_accept\<close> or
  \<open>SSL_connect\<close>.
\<close>

record 's ssl_api =
  SSL_read :: "'s \<Rightarrow> nat \<Rightarrow> int \<times> bytes \<times> 's"
  SSL_write :: "'s \<Rightarrow> bytes \<Rightarrow> int \<times> 's"
  SSL_zero :: "'s \<Rightarrow> int \<Rightarrow> bool"
  SSL_shutdown :: "'s \<Rightarrow> int \<times> 's"
  SSL_set_fd :: "'s \<Rightarrow> int \<Rightarrow> bool"
  SSL_handshake :: "'s \<Rightarrow> int"

text \<open>\<open>fd\<close> is what \<open>accept\<close> returned, \<open>c\<close> the new SSL object.\<close>

definition ListenSSL :: "'s ssl_api \<Rightarrow> int \<Rightarrow> 's \<Rightarrow> (int \<times> 's) result" where
  "ListenSSL api fd c =
     bindR (guardR (\<not> fd < 0) ExitFailure) (\<lambda>_.
     bindR (guardR (SSL_set_fd api c fd) ExitFailure) (\<lambda>_.
     bindR (guardR (SSL_handshake api c = 1) ExitFailure) (\<lambda>_. Inr (fd, c))))"

definition ConnectSSL :: "'s ssl_api \<Rightarrow> int \<Rightarrow> int \<Rightarrow> 's \<Rightarrow> (int \<times> 's) result" where
  "ConnectSSL api connected fd c =
     bindR (guardR (\<not> connected < 0) ExitFailure) (\<lambda>_.
     bindR (guardR (SSL_set_fd api c fd) ExitFailure) (\<lambda>_.
     bindR (guardR (SSL_handshake api c = 1) ExitFailure) (\<lambda>_. Inr (fd, c))))"

definition Finish :: "'s ssl_api \<Rightarrow> 's \<Rightarrow> 's result" where
  "Finish api c =
     (let (ret, c1) = SSL_shutdown api c in
      bindR (guardR (ret = 0) ExitFailure) (\<lambda>_.
        let (retStatus, _, c2) = SSL_read api c1 4;
            (tmp, c3) = SSL_shutdown api c2 in
        bindR (guardR (tmp = 1) ExitFailure) (\<lambda>_. Inr c3)))"

text \<open>
  \<open>sendedSize\<close> is an \<open>int\<close> compared with an \<open>uint32_t\<close>, so as an unsigned number, and it is advanced by
  whatever \<open>SSL_write\<close> returns. The messages of the server stay below 2 GB.
\<close>

partial_function (option) send_loop :: "'s ssl_api \<Rightarrow> 's \<Rightarrow> bytes \<Rightarrow> u32 \<Rightarrow> (bool \<times> 's) option" where
  "send_loop api c data sendedSize =
     (if sendedSize < of_nat (length data)
      then let (r, c') = SSL_write api c (drop (unat sendedSize) data) in send_loop api c' data (sendedSize + of_int r)
      else Some (True, c))"

definition SendData :: "'s ssl_api \<Rightarrow> 's \<Rightarrow> bytes \<Rightarrow> (bool \<times> 's) option" where
  "SendData api c data =
     (let dataSize = of_nat (length data) :: u32;
          (writeStatus, c1) = SSL_write api c (le_enc 4 dataSize) in
      if writeStatus \<le> 0 then Some (False, c1) else send_loop api c1 data 0)"

text \<open>
  Both counters of \<open>ReceiveData\<close> are signed. The buffer has \<open>size\<close> bytes, which the source does not check:
  a store outside it and a pointer in front of it are faults of the model.
\<close>

partial_function (option) recv_loop :: "'s ssl_api \<Rightarrow> 's \<Rightarrow> buf \<Rightarrow> nat \<Rightarrow> u32 \<Rightarrow> u32 \<Rightarrow> (buf \<times> 's) run" where
  "recv_loop api c data sz len receivedSize =
     (if sint receivedSize < sint len
      then if sint receivedSize < 0 then Some (Inl OutOfBounds)
        else let (r, got, c') = SSL_read api c (unat (len - receivedSize)) in
          if unat receivedSize + length got \<le> sz
          then recv_loop api c' (mem_write data (unat receivedSize) got) sz len (receivedSize + of_int r)
          else Some (Inl OutOfBounds)
      else Some (Inr (data, c)))"

definition ReceiveData :: "'s ssl_api \<Rightarrow> 's \<Rightarrow> buf \<Rightarrow> nat \<Rightarrow> u32 \<Rightarrow> (bool \<times> buf \<times> u32 \<times> 's) run" where
  "ReceiveData api c data sz receiveDataSize =
     (let (readStatus, got, c1) = SSL_read api c 4 in
      if readStatus \<le> 0
      then Some (Inr (False, data, receiveDataSize,
             if SSL_zero api c1 readStatus then snd (SSL_shutdown api c1) else c1))
      else let len = le_dec (got @ drop (length got) (le_enc 4 (0 :: u32))) in
        bindO (recv_loop api c1 data sz len 0) (\<lambda>(data', c2). Some (Inr (True, data', len, c2))))"

section \<open>Messages over a transport\<close>

text \<open>
  What OpenSSL documents, with automatic retries and without partial writes: a read returns bytes of the next record
  only, as many as fit; a read at the end of the input reports an error or a closed connection; a write transmits
  all its bytes. \<open>inc c\<close> lists the records that will still arrive, \<open>out c\<close> what has been written.
\<close>

definition read_law :: "'s ssl_api \<Rightarrow> ('s \<Rightarrow> bytes list) \<Rightarrow> ('s \<Rightarrow> bytes list) \<Rightarrow> bool" where
  "read_law api inc out \<longleftrightarrow> (\<forall>c n. 0 < n \<longrightarrow>
     (case inc c of
        [] \<Rightarrow> (\<exists>r c'. SSL_read api c n = (r, [], c') \<and> r \<le> 0 \<and> inc c' = [] \<and> out c' = out c)
      | b # bs \<Rightarrow> b \<noteq> [] \<longrightarrow> (\<exists>c'. SSL_read api c n = (int (min n (length b)), take n b, c') \<and>
          inc c' = (if length b \<le> n then bs else drop n b # bs) \<and> out c' = out c)))"

definition write_law :: "'s ssl_api \<Rightarrow> ('s \<Rightarrow> bytes list) \<Rightarrow> ('s \<Rightarrow> bytes list) \<Rightarrow> bool" where
  "write_law api inc out \<longleftrightarrow> (\<forall>c d. d \<noteq> [] \<longrightarrow>
     (\<exists>c'. SSL_write api c d = (int (length d), c') \<and> out c' = out c @ [d] \<and> inc c' = inc c))"

definition ssl_laws :: "'s ssl_api \<Rightarrow> ('s \<Rightarrow> bytes list) \<Rightarrow> ('s \<Rightarrow> bytes list) \<Rightarrow> bool" where
  "ssl_laws api inc out \<longleftrightarrow> read_law api inc out \<and> write_law api inc out \<and>
     (\<forall>c. inc (snd (SSL_shutdown api c)) = inc c \<and> out (snd (SSL_shutdown api c)) = out c)"

text \<open>The records of one message: four bytes of length, and the data in any non-empty pieces.\<close>

definition frame_records :: "bytes \<Rightarrow> bytes list \<Rightarrow> bool" where
  "frame_records m rs \<longleftrightarrow>
     (\<exists>ps. rs = le_enc 4 (of_nat (length m) :: u32) # ps \<and> concat ps = m \<and> [] \<notin> set ps)"

fun carries :: "bytes list \<Rightarrow> bytes list \<Rightarrow> bool" where
  "carries [] rs \<longleftrightarrow> rs = []"
| "carries (m # ms) rs \<longleftrightarrow> (\<exists>r1 r2. rs = r1 @ r2 \<and> frame_records m r1 \<and> carries ms r2)"

definition sent_frame :: "bytes \<Rightarrow> bytes list" where
  "sent_frame m = le_enc 4 (of_nat (length m) :: u32) # (if m = [] then [] else [m])"

lemma frame_records_sent: "frame_records m (sent_frame m)"
  by (auto simp: frame_records_def sent_frame_def simp del: le_enc.simps)

lemma carries_sent: "carries ms (concat (map sent_frame ms))"
proof (induction ms)
  case (Cons m ms)
  then show ?case
    using frame_records_sent [of m] by auto
qed simp

lemma sint_of_nat_u32: "n < 2 ^ 31 \<Longrightarrow> sint (of_nat n :: u32) = int n"
  by (simp add: signed_of_nat signed_take_bit_int_eq_self_iff)

lemma send_loop_law:
  assumes "write_law api inc out" and "length d < 2 ^ 31"
  shows "\<exists>c'. send_loop api c d 0 = Some (True, c') \<and> out c' = out c @ (if d = [] then [] else [d]) \<and> inc c' = inc c"
proof (cases "d = []")
  case True
  then show ?thesis
    by (subst send_loop.simps) simp
next
  case False
  obtain c' where c': "SSL_write api c d = (int (length d), c')" "out c' = out c @ [d]" "inc c' = inc c"
    using assms(1) False by (auto simp: write_law_def)
  have "unat (of_nat (length d) :: u32) = length d"
    using assms(2) by (simp add: unat_of_nat_u32)
  then have pos: "(0 :: u32) < of_nat (length d)"
    using False by (simp add: word_less_nat_alt)
  have "send_loop api c' d (of_nat (length d)) = Some (True, c')"
    by (subst send_loop.simps) simp
  then have "send_loop api c d 0 = Some (True, c')"
    using pos c'(1) by (subst send_loop.simps) simp
  then show ?thesis
    using c' False by auto
qed

lemma SendData_law:
  assumes "ssl_laws api inc out" and "length d < 2 ^ 31"
  shows "\<exists>c'. SendData api c d = Some (True, c') \<and> out c' = out c @ sent_frame d \<and> inc c' = inc c"
proof -
  have w: "write_law api inc out"
    using assms(1) by (simp add: ssl_laws_def)
  have "le_enc 4 (of_nat (length d) :: u32) \<noteq> []"
    by (metis length_le_enc list.size(3) zero_neq_numeral)
  then obtain c1 where c1: "SSL_write api c (le_enc 4 (of_nat (length d) :: u32)) = (4, c1)"
      "out c1 = out c @ [le_enc 4 (of_nat (length d) :: u32)]" "inc c1 = inc c"
    using w unfolding write_law_def by (metis length_le_enc of_nat_numeral)
  obtain c' where "send_loop api c1 d 0 = Some (True, c')" "out c' = out c1 @ (if d = [] then [] else [d])" "inc c' = inc c1"
    using send_loop_law [OF w assms(2)] by blast
  then show ?thesis
    using c1 by (auto simp: SendData_def sent_frame_def simp del: le_enc.simps)
qed

lemma read_law_next:
  "read_law api inc out \<Longrightarrow> inc c = b # bs \<Longrightarrow> b \<noteq> [] \<Longrightarrow> 0 < n \<Longrightarrow>
   \<exists>c'. SSL_read api c n = (int (min n (length b)), take n b, c') \<and>
     inc c' = (if length b \<le> n then bs else drop n b # bs) \<and> out c' = out c"
  unfolding read_law_def by (drule spec [of _ c], drule spec [of _ n]) simp

lemma read_law_end:
  "read_law api inc out \<Longrightarrow> inc c = [] \<Longrightarrow> 0 < n \<Longrightarrow>
   \<exists>r c'. SSL_read api c n = (r, [], c') \<and> r \<le> 0 \<and> inc c' = [] \<and> out c' = out c"
  unfolding read_law_def by (drule spec [of _ c], drule spec [of _ n]) simp

lemma recv_loop_law:
  assumes law: "read_law api inc out" and "inc c = ps @ rest" and "[] \<notin> set ps"
    and "length (concat (pre @ ps)) < 2 ^ 31" and "length (concat (pre @ ps)) \<le> sz"
  shows "\<exists>c'. recv_loop api c (mem_write data 0 (concat pre)) sz (of_nat (length (concat (pre @ ps)))) (of_nat (length (concat pre)))
      = Some (Inr (mem_write data 0 (concat (pre @ ps)), c')) \<and> inc c' = rest \<and> out c' = out c"
  using assms(2-)
proof (induction ps arbitrary: pre c)
  case Nil
  then show ?case
    by (subst recv_loop.simps) simp
next
  case (Cons b ps)
  let ?t = "length (concat (pre @ b # ps))" and ?r = "length (concat pre)"
  have b: "b \<noteq> []" and lt: "?r < ?t" "?t < 2 ^ 31"
    using Cons.prems by auto
  have s: "sint (of_nat ?t :: u32) = int ?t" "sint (of_nat ?r :: u32) = int ?r"
    using lt by (intro sint_of_nat_u32; simp)+
  have ur: "unat (of_nat ?r :: u32) = ?r"
    using lt by (intro unat_of_nat_u32) simp
  have "(of_nat ?t :: u32) - of_nat ?r = of_nat (?t - ?r)"
    using lt by (intro of_nat_diff [symmetric]) simp
  then have n: "unat ((of_nat ?t :: u32) - of_nat ?r) = ?t - ?r"
    using lt by (simp only:) (intro unat_of_nat_u32, simp)
  have "0 < ?t - ?r" and fit: "length b \<le> ?t - ?r"
    using lt by simp_all
  then obtain c1 where c1: "SSL_read api c (?t - ?r) = (int (length b), b, c1)" "inc c1 = ps @ rest" "out c1 = out c"
    using read_law_next [OF law, of c b "ps @ rest" "?t - ?r"] Cons.prems(1) b by auto
  have pos: "0 < int (length b) + int (length (concat ps))"
    using b by (simp add: add_pos_nonneg)
  have next_pos: "of_nat ?r + of_int (int (length b)) = (of_nat (length (concat (pre @ [b]))) :: u32)"
    by simp
  have "recv_loop api c (mem_write data 0 (concat pre)) sz (of_nat ?t) (of_nat ?r)
      = recv_loop api c1 (mem_write data 0 (concat (pre @ [b]))) sz (of_nat ?t) (of_nat (length (concat (pre @ [b]))))"
    using Cons.prems lt c1(1) pos
    by (subst recv_loop.simps) (simp only: s n ur next_pos Let_def case_prod_conv, simp add: mem_write_append)
  moreover obtain c' where "recv_loop api c1 (mem_write data 0 (concat (pre @ [b]))) sz
        (of_nat (length (concat ((pre @ [b]) @ ps)))) (of_nat (length (concat (pre @ [b]))))
      = Some (Inr (mem_write data 0 (concat ((pre @ [b]) @ ps)), c'))" "inc c' = rest" "out c' = out c1"
    using Cons.IH [OF c1(2), of "pre @ [b]"] Cons.prems by auto
  ultimately show ?case
    using c1(3) by simp
qed

lemma ReceiveData_law:
  assumes laws: "ssl_laws api inc out" and i: "inc c = r @ rest" and f: "frame_records m r"
    and m: "length m < 2 ^ 31" "length m \<le> sz"
  shows "\<exists>c'. ReceiveData api c data sz old = Some (Inr (True, mem_write data 0 m, of_nat (length m), c')) \<and>
     inc c' = rest \<and> out c' = out c"
proof -
  have law: "read_law api inc out"
    using laws by (simp add: ssl_laws_def)
  let ?h = "le_enc 4 (of_nat (length m) :: u32)"
  obtain ps where ps: "r = ?h # ps" "concat ps = m" "[] \<notin> set ps"
    using f by (auto simp: frame_records_def simp del: le_enc.simps)
  have h: "?h \<noteq> []"
    by (metis length_le_enc list.size(3) zero_neq_numeral)
  obtain c1 where c1: "SSL_read api c 4 = (4, ?h, c1)" "inc c1 = ps @ rest" "out c1 = out c"
    using read_law_next [OF law, of c ?h "ps @ rest" 4] i ps(1) h by (auto simp del: le_enc.simps)
  have e: "mem_write data 0 [] = data"
    by (simp add: mem_write_def fun_eq_iff)
  obtain c' where c': "recv_loop api c1 data sz (of_nat (length m)) 0 = Some (Inr (mem_write data 0 m, c'))"
      "inc c' = rest" "out c' = out c1"
    using recv_loop_law [OF law c1(2) ps(3), of "[]" sz data] m ps(2) e by auto
  then show ?thesis
    using c1 by (auto simp: ReceiveData_def simp del: le_enc.simps)
qed

lemma ReceiveData_closed:
  assumes laws: "ssl_laws api inc out" and i: "inc c = []"
  shows "\<exists>c'. ReceiveData api c data sz old = Some (Inr (False, data, old, c')) \<and> inc c' = [] \<and> out c' = out c"
proof -
  have "read_law api inc out"
    using laws by (simp add: ssl_laws_def)
  then obtain r c1 where "SSL_read api c 4 = (r, [], c1)" "r \<le> 0" "inc c1 = []" "out c1 = out c"
    using read_law_end [of api inc out c 4] i by auto
  then show ?thesis
    using laws by (auto simp: ReceiveData_def ssl_laws_def)
qed

text \<open>How writes arrive: in order, each as one record when it fits a TLS record of 16384 bytes, otherwise in several
  pieces.\<close>

definition tls_records :: "bytes list \<Rightarrow> bytes list \<Rightarrow> bool" where
  "tls_records ws rs \<longleftrightarrow> (\<exists>rss. rs = concat rss \<and>
     list_all2 (\<lambda>w r. concat r = w \<and> [] \<notin> set r \<and> (length w \<le> 16384 \<longrightarrow> r = [w])) ws rss)"

lemma tls_records_frame: "tls_records (sent_frame m) rs \<Longrightarrow> frame_records m rs"
  by (auto simp: tls_records_def sent_frame_def frame_records_def list_all2_Cons1 simp del: le_enc.simps split: if_splits)

section \<open>Properties\<close>

text \<open>C17: A message that \<open>SendData\<close> writes is what the other side's \<open>ReceiveData\<close> stores in its buffer, byte for byte
  and with its length, however the TLS layer cuts the data in records, and nothing behind the message is consumed.\<close>

theorem message_roundtrip:
  assumes laws: "ssl_laws api inc out" "ssl_laws api' inc' out'"
    and m: "length m < 2 ^ 31" "length m \<le> sz"
    and sent: "SendData api c m = Some (ok, c1)" "out c1 = out c @ ws"
    and arrives: "tls_records ws rs" "inc' d = rs @ rest"
  shows "ok \<and> (\<exists>d'. ReceiveData api' d buffer sz old = Some (Inr (True, mem_write buffer 0 m, of_nat (length m), d')) \<and> inc' d' = rest)"
proof -
  obtain c2 where c2: "SendData api c m = Some (True, c2)" "out c2 = out c @ sent_frame m"
    using SendData_law [OF laws(1) m(1)] by blast
  then have "ok" "ws = sent_frame m"
    using sent by auto
  then have "frame_records m rs"
    using arrives(1) tls_records_frame by blast
  then show ?thesis
    using ReceiveData_law [OF laws(2) arrives(2) _ m] \<open>ok\<close> by blast
qed

text \<open>A transport that keeps its records in two queues.\<close>

definition queue_api :: "(bytes list \<times> bytes list) ssl_api" where
  "queue_api = \<lparr>SSL_read = (\<lambda>(i, j) n. case i of [] \<Rightarrow> (0, [], (i, j))
        | b # bs \<Rightarrow> (int (min n (length b)), take n b, (if length b \<le> n then bs else drop n b # bs, j))),
     SSL_write = (\<lambda>(i, j) d. (int (length d), (i, j @ [d]))), SSL_zero = (\<lambda>_ r. r = 0),
     SSL_shutdown = (\<lambda>c. (1, c)), SSL_set_fd = (\<lambda>_ _. True), SSL_handshake = (\<lambda>_. 1)\<rparr>"

lemma queue_api_laws: "ssl_laws queue_api fst snd"
  by (auto simp: ssl_laws_def read_law_def write_law_def queue_api_def split: list.splits)

lemma queue_send: "length d < 2 ^ 31 \<Longrightarrow> SendData queue_api (i, j) d = Some (True, (i, j @ sent_frame d))"
  using SendData_law [OF queue_api_laws, of d "(i, j)"] by auto

theorem message_roundtrip_witness:
  "\<exists>d'. ReceiveData queue_api (sent_frame [1, 2, 3] @ [[9]], []) (\<lambda>_. 0) 10 0 =
     Some (Inr (True, mem_write (\<lambda>_. 0) 0 [1, 2, 3], 3, d')) \<and> fst d' = [[9]]"
proof -
  have "tls_records (sent_frame [1, 2, 3]) (sent_frame [1, 2, 3])"
    unfolding tls_records_def sent_frame_def
    by (intro exI [of _ "[[le_enc 4 (of_nat (length [1, 2, 3 :: u8]) :: u32)], [[1, 2, 3]]]"]) (simp add: eval_nat_numeral)
  then show ?thesis
    using message_roundtrip [OF queue_api_laws queue_api_laws, of "[1, 2, 3]" 10 "([], [])" True
        "([], sent_frame [1, 2, 3])" "sent_frame [1, 2, 3]" "sent_frame [1, 2, 3]" "(sent_frame [1, 2, 3] @ [[9]], [])" "[[9]]" "\<lambda>_. 0" 0]
      queue_send [of "[1, 2, 3]" "[]" "[]"] by simp
qed

text \<open>A read that returns 0 and changes nothing keeps the loop from returning.\<close>

lemma recv_loop_stuck:
  fixes api :: "'a ssl_api"
  assumes "recv_loop api c data sz len 0 = Some y" and "0 < n" "n < 2 ^ 31"
  shows "\<not> (len = of_nat n \<and> SSL_read api c n = (0, [], c))"
proof -
  have "\<not> (r = 0 \<and> l = of_nat n \<and> SSL_read a s n = (0, [], s))" if run: "recv_loop a s dt z l r = Some y" for a :: "'a ssl_api" and s dt z l r y
  proof (rule recv_loop.raw_induct [where P = "\<lambda>a s dt z l r y. \<not> (r = 0 \<and> l = of_nat n \<and> SSL_read a s n = (0, [], s))", OF _ run])
    fix rl :: "'a ssl_api \<Rightarrow> 'a \<Rightarrow> buf \<Rightarrow> nat \<Rightarrow> u32 \<Rightarrow> u32 \<Rightarrow> (buf \<times> 'a) run" and a s dt z l r y
    assume IH: "\<And>a s dt z l r y. rl a s dt z l r = Some y \<Longrightarrow> \<not> (r = 0 \<and> l = of_nat n \<and> SSL_read a s n = (0, [], s))"
      and turn: "(if sint r < sint l then if sint r < 0 then Some (Inl OutOfBounds)
          else let (ra, got, c') = SSL_read a s (unat (l - r))
               in if unat r + length got \<le> z then rl a c' (mem_write dt (unat r) got) z l (r + word_of_int ra)
                  else Some (Inl OutOfBounds)
          else Some (Inr (dt, s))) = Some y"
    show "\<not> (r = 0 \<and> l = of_nat n \<and> SSL_read a s n = (0, [], s))"
    proof
      assume st: "r = 0 \<and> l = of_nat n \<and> SSL_read a s n = (0, [], s)"
      then have "rl a s (mem_write dt 0 []) z l 0 = Some y"
        using turn assms(2,3) by (elim conjE) (simp add: sint_of_nat_u32 unat_of_nat_u32)
      then show False
        using IH st by blast
    qed
  qed
  then show ?thesis
    using assms(1) by blast
qed

text \<open>C31: Neither transfer loop looks at a failed call. When the connection breaks after the length of a non-empty
  message, a \<open>-1\<close> from \<open>SSL_read\<close> moves the buffer pointer in front of the buffer, a \<open>0\<close> that repeats
  keeps \<open>ReceiveData\<close> from returning, and a \<open>-1\<close> from \<open>SSL_write\<close> makes \<open>SendData\<close> report success with
  nothing sent.\<close>

theorem broken_connection:
  assumes n: "0 < n" "n < 2 ^ 31" and len: "SSL_read api c 4 = (4, le_enc 4 (of_nat n :: u32), c1)"
    and d: "d \<noteq> []" "length d < 2 ^ 31" and wl: "SSL_write api e (le_enc 4 (of_nat (length d) :: u32)) = (4, e1)"
  shows "(SSL_read api c1 n = (- 1, [], c2) \<longrightarrow> ReceiveData api c data sz old = Some (Inl OutOfBounds)) \<and>
     (SSL_read api c1 n = (0, [], c1) \<longrightarrow> ReceiveData api c data sz old = None) \<and>
     (SSL_write api e1 d = (- 1, e2) \<longrightarrow> SendData api e d = Some (True, e2))"
proof -
  have sn: "sint (of_nat n :: u32) = int n" and un: "unat (of_nat n :: u32) = n"
    using n by (simp_all add: sint_of_nat_u32 unat_of_nat_u32)
  have rd: "ReceiveData api c data sz old =
      bindO (recv_loop api c1 data sz (of_nat n) 0) (\<lambda>(data', c2). Some (Inr (True, data', of_nat n, c2)))"
    using len by (simp add: ReceiveData_def Let_def del: le_enc.simps)
  have "ReceiveData api c data sz old = Some (Inl OutOfBounds)" if "SSL_read api c1 n = (- 1, [], c2)"
  proof -
    have "recv_loop api c2 (mem_write data 0 []) sz (of_nat n) (- 1) = Some (Inl OutOfBounds)"
      using n sn by (subst recv_loop.simps) simp
    then have "recv_loop api c1 data sz (of_nat n) 0 = Some (Inl OutOfBounds)"
      using n that sn un by (subst recv_loop.simps) simp
    then show ?thesis
      using rd by simp
  qed
  moreover have "ReceiveData api c data sz old = None" if stuck: "SSL_read api c1 n = (0, [], c1)"
  proof -
    have False if "recv_loop api c1 data sz (of_nat n) 0 = Some y" for y
      using recv_loop_stuck [OF that] stuck n by blast
    then have "recv_loop api c1 data sz (of_nat n) 0 = None"
      by (cases "recv_loop api c1 data sz (of_nat n) 0") auto
    then show ?thesis
      using rd by simp
  qed
  moreover have "SendData api e d = Some (True, e2)" if "SSL_write api e1 d = (- 1, e2)"
  proof -
    have ud: "unat (of_nat (length d) :: u32) = length d"
      using d by (simp add: unat_of_nat_u32)
    then have "(0 :: u32) < of_nat (length d)"
      using d by (simp add: word_less_nat_alt)
    moreover have "\<not> (- 1 :: u32) < of_nat (length d)"
      by (simp add: not_less)
    then have "send_loop api e2 d (- 1) = Some (True, e2)"
      by (subst send_loop.simps) simp
    ultimately have "send_loop api e1 d 0 = Some (True, e2)"
      using that by (subst send_loop.simps) simp
    then show ?thesis
      using wl by (simp add: SendData_def del: le_enc.simps)
  qed
  ultimately show ?thesis
    by blast
qed

definition broken_api :: "nat ssl_api" where
  "broken_api = \<lparr>SSL_read = (\<lambda>c n. if c = 0 then (4, le_enc 4 (7 :: u32), 1) else (- 1, [], 2)),
     SSL_write = (\<lambda>c d. if c = 0 then (4, 1) else (- 1, 2)), SSL_zero = (\<lambda>_ r. r = 0),
     SSL_shutdown = (\<lambda>c. (1, c)), SSL_set_fd = (\<lambda>_ _. True), SSL_handshake = (\<lambda>_. 1)\<rparr>"

theorem broken_connection_witness:
  "ReceiveData broken_api 0 (\<lambda>_. 0) 100 0 = Some (Inl OutOfBounds) \<and> SendData broken_api 0 [1, 2] = Some (True, 2)"
proof -
  have a: "SSL_read broken_api 0 4 = (4, le_enc 4 (of_nat 7 :: u32), 1)"
    and b: "SSL_write broken_api 0 (le_enc 4 (of_nat (length [1, 2 :: u8]) :: u32)) = (4, 1)"
    and c: "SSL_read broken_api 1 7 = (- 1, [], 2)" and d: "SSL_write broken_api 1 [1, 2] = (- 1, 2)"
    by (simp_all add: broken_api_def)
  have "(0 :: nat) < 7" "(7 :: nat) < 2 ^ 31" "[1, 2 :: u8] \<noteq> []" "length [1, 2 :: u8] < 2 ^ 31"
    by simp_all
  from broken_connection [OF this(1,2) a this(3,4) b] show ?thesis
    using c d by blast
qed

text \<open>The constructor of a channel returns exactly when the type is one of the two and every call succeeds (the socket
  calls on the server side only); the channel then verifies its peer against the certificate authority and uses the
  certificate and key of its own role, checked against each other. Otherwise it stops the process.\<close>

theorem ssl_setup:
  "SSLConnection_new net ip port type =
     (case connection_type type of
        None \<Rightarrow> Inl ExitFailure
      | Some t \<Rightarrow>
          let crt = (if t = IN_SERVERSIDE then SERVER_CERT else CLIENT_CERT);
              key = (if t = IN_SERVERSIDE then SERVER_KEY else CLIENT_KEY) in
          if (t = IN_CLIENTSIDE \<or> na_setsockopt net \<and> na_bind net port \<and> na_listen net) \<and>
             na_load_ca net CA_CERT \<and> na_use_cert net crt \<and> na_use_key net key \<and> na_check_key net crt key
          then Inr \<lparr>sn_serverIP = ip, sn_port = port, sn_type = t, sn_verify_peer = True, sn_ca = CA_CERT,
                    sn_cert = crt, sn_key = key\<rparr>
          else Inl ExitFailure)"
  by (auto simp: SSLConnection_new_def guardR_def Let_def split: option.splits SSL_CONNECTION_TYPE.splits)

end
