(* ===== verification/Data_Writer.thy ===== *)
theory Data_Writer
  imports Message_Queue Storage_Core
begin

text \<open>
  \<open>DataWriter\<close> (\<open>src/Server/dataWriter.cc\<close>) and its cooperation with the receiving thread over the message queue.
  The two threads of an upload are a transition system: the receiver pushes containers (each attempt of the loop in
  \<open>Push\<close> is a step) and then sets \<open>done_\<close>; the writer runs the loop of \<open>Run\<close>, one step for each access to
  the shared queue. The lemmas show that no container is lost or reordered, that the writer stops only when
  all are on disk, and that it can always get there.
\<close>

section \<open>Writing one container\<close>

record DataWriter =
  dw_containerNamePrefix :: bytes
  dw_containerNameTail :: bytes
  dw_containerNum :: u64

definition DataWriter_new :: "Configure \<Rightarrow> DataWriter" where
  "DataWriter_new cfg = \<lparr>dw_containerNamePrefix = GetContainerRootPath cfg,
     dw_containerNameTail = GetContainerSuffix cfg, dw_containerNum = 0\<rparr>"

definition container_path :: "bytes \<Rightarrow> bytes \<Rightarrow> bytes \<Rightarrow> bytes" where
  "container_path prefix name tail = prefix @ name @ tail"

text \<open>\<open>fopen\<close> with mode \<open>wb\<close> truncates or creates the file.\<close>

definition SaveToFile :: "DataWriter \<Rightarrow> Container_t \<Rightarrow> filesys \<Rightarrow> filesys result" where
  "SaveToFile dw newContainer fs =
     (let fileFullName = container_path (dw_containerNamePrefix dw) (ct_containerID newContainer) (dw_containerNameTail dw) in
      bindR (guardR (openable fs (c_path fileFullName)) ExitFailure) (\<lambda>_.
      bindR (guardR (unat (ct_currentSize newContainer) \<le> MAX_CONTAINER_SIZE) OutOfBounds) (\<lambda>_.
        Inr (fs\<lparr>files := (files fs)(c_path fileFullName \<mapsto> ct_bytes newContainer)\<rparr>))))"

section \<open>The two threads of an upload\<close>

text \<open>
  Where the writer is: before reading \<open>done_\<close>, before \<open>IsEmpty\<close>, before \<open>Pop\<close> (with the value of
  \<open>jobDoneFlag\<close>), before \<open>SaveToFile\<close> (with the popped container), behind the loop.
\<close>

datatype writer_pc = AtTest | AtEmpty | AtPop bool | AtSave bool Container_t | Stopped

record upload =
  up_mq :: "Container_t MessageQueue"
  up_todo :: "Container_t list"
  up_pc :: writer_pc
  up_dw :: DataWriter
  up_fs :: filesys

inductive step :: "upload \<Rightarrow> upload \<Rightarrow> bool" where
  push_turn: "up_todo s = k # ks \<Longrightarrow> Push_turn k (up_mq s) = Inr (taken, mq') \<Longrightarrow>
    step s (s\<lparr>up_mq := mq', up_todo := (if taken then ks else k # ks)\<rparr>)"
| receiver_done: "up_todo s = [] \<Longrightarrow> \<not> mq_done (up_mq s) \<Longrightarrow>
    step s (s\<lparr>up_mq := (up_mq s)\<lparr>mq_done := True\<rparr>\<rparr>)"
| read_done: "up_pc s = AtTest \<Longrightarrow>
    step s (s\<lparr>up_pc := (if mq_done (up_mq s) then AtEmpty else AtPop False)\<rparr>)"
| test_empty: "up_pc s = AtEmpty \<Longrightarrow> IsEmpty (up_mq s) = Some e \<Longrightarrow> step s (s\<lparr>up_pc := AtPop e\<rparr>)"
| pop_some: "up_pc s = AtPop f \<Longrightarrow> Pop (up_mq s) = Inr (Some k, mq') \<Longrightarrow>
    step s (s\<lparr>up_mq := mq', up_pc := AtSave f k\<rparr>)"
| pop_none: "up_pc s = AtPop f \<Longrightarrow> Pop (up_mq s) = Inr (None, mq') \<Longrightarrow>
    step s (s\<lparr>up_mq := mq', up_pc := (if f then Stopped else AtTest)\<rparr>)"
| save: "up_pc s = AtSave f k \<Longrightarrow> SaveToFile (up_dw s) k (up_fs s) = Inr fs' \<Longrightarrow>
    step s (s\<lparr>up_fs := fs', up_dw := (up_dw s)\<lparr>dw_containerNum := dw_containerNum (up_dw s) + 1\<rparr>,
              up_pc := (if f then Stopped else AtTest)\<rparr>)"

text \<open>The start of an upload: nothing queued, nothing written.\<close>

definition upload_start :: "Container_t MessageQueue \<Rightarrow> Container_t list \<Rightarrow> Configure \<Rightarrow> filesys \<Rightarrow> upload" where
  "upload_start mq ks cfg fs = \<lparr>up_mq = mq, up_todo = ks, up_pc = AtTest, up_dw = DataWriter_new cfg, up_fs = fs\<rparr>"

section \<open>The specification: all containers in order\<close>

definition container_file :: "Configure \<Rightarrow> bytes \<Rightarrow> bytes" where
  "container_file cfg name = c_path (container_path (GetContainerRootPath cfg) name (GetContainerSuffix cfg))"

fun write_all :: "Configure \<Rightarrow> Container_t list \<Rightarrow> (bytes \<rightharpoonup> bytes) \<Rightarrow> (bytes \<rightharpoonup> bytes)" where
  "write_all cfg [] m = m"
| "write_all cfg (k # ks) m = write_all cfg ks (m(container_file cfg (ct_containerID k) \<mapsto> ct_bytes k))"

lemma write_all_append: "write_all cfg (ks @ ks') m = write_all cfg ks' (write_all cfg ks m)"
  by (induction ks arbitrary: m) auto

lemma write_all_other:
  "p \<notin> container_file cfg ` ct_containerID ` set ks \<Longrightarrow> write_all cfg ks m p = m p"
  by (induction ks arbitrary: m) auto

lemma write_all_in:
  "distinct (map (container_file cfg \<circ> ct_containerID) ks) \<Longrightarrow> k \<in> set ks \<Longrightarrow>
   write_all cfg ks m (container_file cfg (ct_containerID k)) = Some (ct_bytes k)"
proof (induction ks arbitrary: m)
  case (Cons a ks)
  show ?case
  proof (cases "k = a")
    case True
    then show ?thesis
      using Cons.prems write_all_other [of "container_file cfg (ct_containerID a)" cfg ks] by (auto simp: image_image)
  next
    case False
    then show ?thesis
      using Cons by auto
  qed
qed simp

definition savable :: "Configure \<Rightarrow> filesys \<Rightarrow> Container_t list \<Rightarrow> bool" where
  "savable cfg fs ks \<longleftrightarrow> (\<forall>k \<in> set ks. openable fs (container_file cfg (ct_containerID k)) \<and>
     unat (ct_currentSize k) \<le> MAX_CONTAINER_SIZE)"

text \<open>The container in the writer's hands.\<close>

fun in_hand :: "writer_pc \<Rightarrow> Container_t list" where
  "in_hand (AtSave f k) = [k]"
| "in_hand _ = []"

text \<open>
  The invariant: written, held, queued and still to be pushed are together the containers of the upload, in order.
  When the writer has seen \<open>done_\<close> there is nothing left to push, and it carries \<open>jobDoneFlag\<close> only with the queue
  empty.
\<close>

definition upload_rep :: "Container_t list \<Rightarrow> Configure \<Rightarrow> filesys \<Rightarrow> Container_t list \<Rightarrow> Container_t list \<Rightarrow> upload \<Rightarrow> bool" where
  "upload_rep all cfg fs0 ws xs s \<longleftrightarrow>
     all = ws @ in_hand (up_pc s) @ xs @ up_todo s \<and> mq_rep (up_mq s) xs \<and> 0 < mq_cap (up_mq s) \<and>
     files (up_fs s) = write_all cfg ws (files fs0) \<and> openable (up_fs s) = openable fs0 \<and>
     up_dw s = (DataWriter_new cfg)\<lparr>dw_containerNum := of_nat (length ws)\<rparr> \<and>
     (mq_done (up_mq s) \<longrightarrow> up_todo s = []) \<and>
     (up_pc s = AtEmpty \<longrightarrow> mq_done (up_mq s)) \<and>
     (up_pc s \<in> {AtPop True, Stopped} \<longrightarrow> mq_done (up_mq s) \<and> xs = []) \<and>
     (\<forall>k. up_pc s \<noteq> AtSave True k)"

definition upload_inv :: "Container_t list \<Rightarrow> Configure \<Rightarrow> filesys \<Rightarrow> upload \<Rightarrow> bool" where
  "upload_inv all cfg fs0 s \<longleftrightarrow> (\<exists>ws xs. upload_rep all cfg fs0 ws xs s)"

lemma SaveToFile_ok:
  assumes "dw_containerNamePrefix dw = GetContainerRootPath cfg" "dw_containerNameTail dw = GetContainerSuffix cfg"
  shows "SaveToFile dw k fs = Inr fs' \<longleftrightarrow> openable fs (container_file cfg (ct_containerID k)) \<and>
     unat (ct_currentSize k) \<le> MAX_CONTAINER_SIZE \<and>
     fs' = fs\<lparr>files := (files fs)(container_file cfg (ct_containerID k) \<mapsto> ct_bytes k)\<rparr>"
  using assms by (auto simp: SaveToFile_def container_file_def bindR_eq_Inr Let_def)

lemma upload_inv_start:
  "mq_rep mq [] \<Longrightarrow> 0 < mq_cap mq \<Longrightarrow> \<not> mq_done mq \<Longrightarrow> upload_inv ks cfg fs (upload_start mq ks cfg fs)"
  unfolding upload_inv_def upload_start_def upload_rep_def by (intro exI [of _ "[]"]) (simp add: DataWriter_new_def)

lemma upload_rep_push:
  assumes "upload_rep all cfg fs0 ws xs s" and "up_todo s = k # ks" and "Push_turn k (up_mq s) = Inr (taken, mq')"
  shows "upload_rep all cfg fs0 ws (if taken then xs @ [k] else xs) (s\<lparr>up_mq := mq', up_todo := (if taken then ks else k # ks)\<rparr>)"
    and "taken = (length xs < mq_cap (up_mq s))"
proof -
  have q: "mq_rep (up_mq s) xs"
    using assms(1) by (simp add: upload_rep_def)
  obtain mq2 where m: "Push_turn k (up_mq s) = Inr (length xs < mq_cap (up_mq s), mq2)" "mq_cap mq2 = mq_cap (up_mq s)"
      "mq_done mq2 = mq_done (up_mq s)" "mq_rep mq2 (if length xs < mq_cap (up_mq s) then xs @ [k] else xs)"
    using Push_turn_law [OF q, of k] by (elim exE conjE) (rule that)
  then show taken: "taken = (length xs < mq_cap (up_mq s))"
    using assms(3) by simp
  show "upload_rep all cfg fs0 ws (if taken then xs @ [k] else xs) (s\<lparr>up_mq := mq', up_todo := (if taken then ks else k # ks)\<rparr>)"
    using assms m taken by (cases taken) (auto simp: upload_rep_def)
qed

lemma upload_rep_pop_cons:
  assumes "upload_rep all cfg fs0 ws (x # xs) s" and "up_pc s = AtPop f"
  shows "\<exists>mq'. Pop (up_mq s) = Inr (Some x, mq') \<and> upload_rep all cfg fs0 ws xs (s\<lparr>up_mq := mq', up_pc := AtSave f x\<rparr>)"
proof -
  have q: "mq_rep (up_mq s) (x # xs)"
    using assms(1) by (simp add: upload_rep_def)
  obtain mq2 where "Pop (up_mq s) = Inr (Some x, mq2)" "mq_cap mq2 = mq_cap (up_mq s)"
      "mq_done mq2 = mq_done (up_mq s)" "mq_rep mq2 xs"
    using Pop_cons [OF q] by (elim exE conjE) (rule that)
  then show ?thesis
    using assms by (auto simp: upload_rep_def)
qed

lemma upload_rep_pop_nil:
  assumes "upload_rep all cfg fs0 ws [] s" and "up_pc s = AtPop f"
  shows "\<exists>mq'. Pop (up_mq s) = Inr (None, mq') \<and>
     upload_rep all cfg fs0 ws [] (s\<lparr>up_mq := mq', up_pc := (if f then Stopped else AtTest)\<rparr>)"
proof -
  have q: "mq_rep (up_mq s) []"
    using assms(1) by (simp add: upload_rep_def)
  obtain mq2 where "Pop (up_mq s) = Inr (None, mq2)" "mq_cap mq2 = mq_cap (up_mq s)"
      "mq_done mq2 = mq_done (up_mq s)" "mq_rep mq2 []"
    using Pop_nil [OF q] by (elim exE conjE) (rule that)
  then show ?thesis
    using assms by (cases f) (auto simp: upload_rep_def)
qed

lemma upload_rep_save:
  assumes rep: "upload_rep all cfg fs0 ws xs s" and pc: "up_pc s = AtSave f k"
    and fs': "SaveToFile (up_dw s) k (up_fs s) = Inr fs'"
  shows "upload_rep all cfg fs0 (ws @ [k]) xs (s\<lparr>up_fs := fs', up_dw := (up_dw s)\<lparr>dw_containerNum := dw_containerNum (up_dw s) + 1\<rparr>,
              up_pc := (if f then Stopped else AtTest)\<rparr>)"
proof -
  have "dw_containerNamePrefix (up_dw s) = GetContainerRootPath cfg" "dw_containerNameTail (up_dw s) = GetContainerSuffix cfg"
    using rep by (simp_all add: upload_rep_def DataWriter_new_def)
  then have "fs' = (up_fs s)\<lparr>files := (files (up_fs s))(container_file cfg (ct_containerID k) \<mapsto> ct_bytes k)\<rparr>"
    using fs' SaveToFile_ok by blast
  then show ?thesis
    using rep pc by (cases f) (auto simp: upload_rep_def write_all_append)
qed

lemma upload_rep_empty:
  assumes "upload_rep all cfg fs0 ws xs s" and "up_pc s = AtEmpty"
  shows "IsEmpty (up_mq s) = Some (xs = [])" and "upload_rep all cfg fs0 ws xs (s\<lparr>up_pc := AtPop (xs = [])\<rparr>)"
  using assms IsEmpty_law by (auto simp: upload_rep_def)

lemma upload_inv_step: "step s s' \<Longrightarrow> upload_inv all cfg fs0 s \<Longrightarrow> upload_inv all cfg fs0 s'"
proof (induction rule: step.induct)
  case (push_turn s k ks taken mq')
  then show ?case
    unfolding upload_inv_def using upload_rep_push(1) by metis
next
  case (receiver_done s)
  then show ?case
    by (auto simp: upload_inv_def upload_rep_def mq_rep_def mq_cap_def)
next
  case (read_done s)
  then show ?case
    by (auto simp: upload_inv_def upload_rep_def)
next
  case (test_empty s e)
  then show ?case
    unfolding upload_inv_def using upload_rep_empty by (metis option.inject)
next
  case (pop_some s f k mq')
  then obtain ws xs where rep: "upload_rep all cfg fs0 ws xs s"
    by (auto simp: upload_inv_def)
  then show ?case
    using pop_some.hyps upload_rep_pop_cons [of all cfg fs0 ws] upload_rep_pop_nil [of all cfg fs0 ws]
    unfolding upload_inv_def by (cases xs) fastforce+
next
  case (pop_none s f mq')
  then obtain ws xs where rep: "upload_rep all cfg fs0 ws xs s"
    by (auto simp: upload_inv_def)
  then show ?case
    using pop_none.hyps upload_rep_pop_cons [of all cfg fs0 ws] upload_rep_pop_nil [of all cfg fs0 ws]
    unfolding upload_inv_def by (cases xs) fastforce+
next
  case (save s f k fs')
  then show ?case
    unfolding upload_inv_def using upload_rep_save by blast
qed

lemma upload_inv_reach: "step\<^sup>*\<^sup>* s s' \<Longrightarrow> upload_inv all cfg fs0 s \<Longrightarrow> upload_inv all cfg fs0 s'"
  by (induction rule: rtranclp_induct) (auto intro: upload_inv_step)

section \<open>The upload can always complete\<close>

lemma savable_SaveToFile:
  assumes "upload_rep all cfg fs0 ws xs s" and "up_pc s = AtSave f k" and "savable cfg fs0 all"
  shows "\<exists>fs'. SaveToFile (up_dw s) k (up_fs s) = Inr fs'"
proof -
  have "dw_containerNamePrefix (up_dw s) = GetContainerRootPath cfg" "dw_containerNameTail (up_dw s) = GetContainerSuffix cfg"
    using assms(1) by (simp_all add: upload_rep_def DataWriter_new_def)
  note ok = SaveToFile_ok [OF this, of k "up_fs s"]
  have "k \<in> set all" "openable (up_fs s) = openable fs0"
    using assms(1,2) by (auto simp: upload_rep_def)
  then show ?thesis
    unfolding ok using assms(3) by (auto simp: savable_def)
qed

text \<open>From a point with a container in reach, the writer stores it and is back at the top of its loop.\<close>

lemma save_reaches_top:
  assumes "upload_rep all cfg fs0 ws xs s" and "up_pc s = AtSave f k" and "savable cfg fs0 all"
  shows "\<exists>s' ws'. step s s' \<and> upload_rep all cfg fs0 ws' xs s' \<and> up_pc s' = AtTest \<and>
     up_todo s' = up_todo s \<and> mq_done (up_mq s') = mq_done (up_mq s)"
proof -
  obtain fs' where fs': "SaveToFile (up_dw s) k (up_fs s) = Inr fs'"
    using savable_SaveToFile [OF assms] by blast
  have "\<not> f"
    using assms(1,2) by (cases f) (auto simp: upload_rep_def)
  then show ?thesis
    using step.save [OF assms(2) fs'] upload_rep_save [OF assms(1,2) fs'] by fastforce
qed

lemma pop_reaches_top:
  assumes "upload_rep all cfg fs0 ws (x # xs) s" and "up_pc s = AtPop f" and "savable cfg fs0 all"
  shows "\<exists>s' ws'. step\<^sup>*\<^sup>* s s' \<and> upload_rep all cfg fs0 ws' xs s' \<and> up_pc s' = AtTest \<and>
     up_todo s' = up_todo s \<and> mq_done (up_mq s') = mq_done (up_mq s)"
proof -
  obtain mq' where p: "Pop (up_mq s) = Inr (Some x, mq')"
      "upload_rep all cfg fs0 ws xs (s\<lparr>up_mq := mq', up_pc := AtSave f x\<rparr>)"
    using upload_rep_pop_cons [OF assms(1,2)] by blast
  have d: "mq_done mq' = mq_done (up_mq s)"
    using p(1) by (auto simp: Pop_def bindR_eq_Inr)
  obtain s' ws' where s': "step (s\<lparr>up_mq := mq', up_pc := AtSave f x\<rparr>) s'" "upload_rep all cfg fs0 ws' xs s'"
      "up_pc s' = AtTest" "up_todo s' = up_todo s" "mq_done (up_mq s') = mq_done mq'"
    using save_reaches_top [OF p(2) _ assms(3)] by auto
  have "step\<^sup>*\<^sup>* s s'"
    using step.pop_some [OF assms(2) p(1)] s'(1) by (meson converse_rtranclp_into_rtranclp r_into_rtranclp)
  then show ?thesis
    using s' d by (intro exI [of _ s'] exI [of _ ws']) simp
qed

text \<open>The writer gets to the top of its loop from everywhere, or has stopped.\<close>

lemma reaches_top:
  assumes rep: "upload_rep all cfg fs0 ws xs s" and sv: "savable cfg fs0 all"
  shows "\<exists>s' ws' xs'. step\<^sup>*\<^sup>* s s' \<and> upload_rep all cfg fs0 ws' xs' s' \<and> up_pc s' \<in> {AtTest, Stopped}"
proof -
  have pop: ?thesis if r: "upload_rep all cfg fs0 ws xs t" "up_pc t = AtPop f" and st: "step\<^sup>*\<^sup>* s t" for t f
  proof (cases xs)
    case Nil
    obtain mq' where "Pop (up_mq t) = Inr (None, mq')"
        "upload_rep all cfg fs0 ws [] (t\<lparr>up_mq := mq', up_pc := (if f then Stopped else AtTest)\<rparr>)"
      using upload_rep_pop_nil [of all cfg fs0 ws t f] r Nil by auto
    then show ?thesis
      using step.pop_none [OF r(2)] st
      by (intro exI [of _ "t\<lparr>up_mq := mq', up_pc := (if f then Stopped else AtTest)\<rparr>"] exI [of _ ws] exI [of _ "[]"] conjI)
        (auto intro: rtranclp.rtrancl_into_rtrancl)
  next
    case (Cons x ys)
    obtain s' ws' where "step\<^sup>*\<^sup>* t s'" "upload_rep all cfg fs0 ws' ys s'" "up_pc s' = AtTest"
      using pop_reaches_top [OF _ r(2) sv, of ws x ys] r(1) Cons by blast
    then show ?thesis
      using st by (intro exI [of _ s'] exI [of _ ws'] exI [of _ ys]) (simp add: rtranclp_trans [of step s t s'])
  qed
  show ?thesis
  proof (cases "up_pc s")
    case AtEmpty
    then show ?thesis
      using pop [OF upload_rep_empty(2) [OF rep AtEmpty]] step.test_empty [OF AtEmpty upload_rep_empty(1) [OF rep AtEmpty]]
      by auto
  next
    case (AtPop f)
    then show ?thesis
      using pop [OF rep AtPop] by blast
  next
    case (AtSave f k)
    then show ?thesis
      using save_reaches_top [OF rep AtSave sv] by (metis insertI1 r_into_rtranclp)
  qed (use rep in auto)
qed

definition work_left :: "Container_t list \<Rightarrow> upload \<Rightarrow> nat" where
  "work_left xs s = 2 * length (up_todo s) + length xs + (if mq_done (up_mq s) then 0 else 1)"

text \<open>One round from the top: the work left shrinks, or the writer stops.\<close>

lemma round:
  assumes rep: "upload_rep all cfg fs0 ws xs s" and top: "up_pc s = AtTest" and sv: "savable cfg fs0 all"
  shows "\<exists>s' ws' xs'. step\<^sup>*\<^sup>* s s' \<and> upload_rep all cfg fs0 ws' xs' s' \<and>
     (up_pc s' = Stopped \<or> up_pc s' = AtTest \<and> work_left xs' s' < work_left xs s)"
proof -
  let ?pop = "s\<lparr>up_pc := AtPop False\<rparr>"
  have consume: ?thesis if xs: "xs = x # ys" and p: "step\<^sup>*\<^sup>* s ?pop" for x ys
  proof -
    have "upload_rep all cfg fs0 ws (x # ys) ?pop"
      using rep xs top by (auto simp: upload_rep_def)
    then obtain s' ws' where "step\<^sup>*\<^sup>* ?pop s'" "upload_rep all cfg fs0 ws' ys s'" "up_pc s' = AtTest"
        "up_todo s' = up_todo s" "mq_done (up_mq s') = mq_done (up_mq s)"
      using pop_reaches_top [OF _ _ sv, of ws x ys ?pop False] by auto
    then show ?thesis
      using p xs by (intro exI [of _ s'] exI [of _ ws'] exI [of _ ys])
        (simp add: rtranclp_trans [of step s ?pop s'] work_left_def)
  qed
  show ?thesis
  proof (cases "mq_done (up_mq s)")
    case True
    let ?e = "s\<lparr>up_pc := AtEmpty\<rparr>"
    have e: "upload_rep all cfg fs0 ws xs ?e" "step s ?e"
      using rep top True step.read_done [OF top] by (auto simp: upload_rep_def)
    have "step ?e (?e\<lparr>up_pc := AtPop (xs = [])\<rparr>)"
      using step.test_empty [OF _ upload_rep_empty(1) [OF e(1)]] by simp
    then have st: "step\<^sup>*\<^sup>* s (s\<lparr>up_pc := AtPop (xs = [])\<rparr>)"
      using e(2) by (simp add: converse_rtranclp_into_rtranclp)
    show ?thesis
    proof (cases xs)
      case Nil
      have "upload_rep all cfg fs0 ws [] (s\<lparr>up_pc := AtPop True\<rparr>)"
        using rep Nil top True by (auto simp: upload_rep_def)
      then obtain mq' where m: "Pop (up_mq (s\<lparr>up_pc := AtPop True\<rparr>)) = Inr (None, mq')"
          "upload_rep all cfg fs0 ws [] (s\<lparr>up_mq := mq', up_pc := Stopped\<rparr>)"
        using upload_rep_pop_nil [of all cfg fs0 ws "s\<lparr>up_pc := AtPop True\<rparr>" True] by auto
      have "step (s\<lparr>up_pc := AtPop True\<rparr>) (s\<lparr>up_mq := mq', up_pc := Stopped\<rparr>)"
        using step.pop_none [of "s\<lparr>up_pc := AtPop True\<rparr>" True mq'] m(1) by simp
      then have "step\<^sup>*\<^sup>* s (s\<lparr>up_mq := mq', up_pc := Stopped\<rparr>)"
        using st Nil by (simp add: rtranclp.rtrancl_into_rtrancl)
      then show ?thesis
        using m(2) by (intro exI conjI) (assumption | simp)+
    next
      case (Cons x ys)
      then show ?thesis
        using consume [OF Cons] st by simp
    qed
  next
    case False
    have p: "step s ?pop"
      using step.read_done [OF top] False by simp
    show ?thesis
    proof (cases "up_todo s")
      case Nil
      let ?d = "s\<lparr>up_mq := (up_mq s)\<lparr>mq_done := True\<rparr>\<rparr>"
      have "upload_rep all cfg fs0 ws xs ?d" "work_left xs ?d < work_left xs s"
        using rep Nil False top by (auto simp: upload_rep_def mq_rep_def mq_cap_def work_left_def)
      then show ?thesis
        using step.receiver_done [OF Nil False] top by (intro exI conjI) (rule r_into_rtranclp, assumption+, simp)
    next
      case (Cons k ks)
      have q: "mq_rep (up_mq s) xs" and cap: "0 < mq_cap (up_mq s)"
        using rep by (simp_all add: upload_rep_def)
      obtain mq' where t: "Push_turn k (up_mq s) = Inr (length xs < mq_cap (up_mq s), mq')" "mq_done mq' = mq_done (up_mq s)"
        using Push_turn_law [OF q, of k] by (elim exE conjE) (rule that)
      show ?thesis
      proof (cases "length xs < mq_cap (up_mq s)")
        case True
        let ?s = "s\<lparr>up_mq := mq', up_todo := ks\<rparr>"
        have "upload_rep all cfg fs0 ws (xs @ [k]) ?s" "step s ?s"
          using upload_rep_push(1) [OF rep Cons t(1)] step.push_turn [OF Cons t(1)] True by simp_all
        moreover have "work_left (xs @ [k]) ?s < work_left xs s"
          using Cons t(2) by (simp add: work_left_def)
        ultimately show ?thesis
          using top by (intro exI conjI) (rule r_into_rtranclp, assumption+, simp)
      next
        case full: False
        then obtain x ys where "xs = x # ys"
          using cap by (cases xs) auto
        then show ?thesis
          using consume p by blast
      qed
    qed
  qed
qed

lemma finishes:
  "upload_rep all cfg fs0 ws xs s \<Longrightarrow> up_pc s = AtTest \<Longrightarrow> savable cfg fs0 all \<Longrightarrow>
   \<exists>s' ws' xs'. step\<^sup>*\<^sup>* s s' \<and> upload_rep all cfg fs0 ws' xs' s' \<and> up_pc s' = Stopped"
proof (induction "work_left xs s" arbitrary: s ws xs rule: less_induct)
  case less
  obtain s1 ws1 xs1 where r: "step\<^sup>*\<^sup>* s s1" "upload_rep all cfg fs0 ws1 xs1 s1"
      "up_pc s1 = Stopped \<or> up_pc s1 = AtTest \<and> work_left xs1 s1 < work_left xs s"
    using round [OF less.prems] by blast
  then show ?case
    using less.hyps [OF _ r(2)] less.prems(3) by (meson rtranclp_trans)
qed

section \<open>Properties\<close>

lemma new_queue:
  "\<exists>mq :: 'a MessageQueue. MessageQueue_new (\<lambda>_. True) (of_nat CONTAINER_QUEUE_SIZE) = Inr mq \<and>
     mq_rep mq [] \<and> 0 < mq_cap mq \<and> \<not> mq_done mq"
  using MessageQueue_new_rep [of "of_nat CONTAINER_QUEUE_SIZE", where ?'a = 'a] by (auto simp: CONTAINER_QUEUE_SIZE_def)

lemma writer_stopped_state:
  assumes new: "MessageQueue_new (\<lambda>_. True) (of_nat CONTAINER_QUEUE_SIZE) = Inr mq"
    and run: "step\<^sup>*\<^sup>* (upload_start mq ks cfg fs) s" and stopped: "up_pc s = Stopped"
  shows "upload_rep ks cfg fs ks [] s" and "up_todo s = []"
proof -
  have "upload_inv ks cfg fs (upload_start mq ks cfg fs)"
    using new_queue [where ?'a = Container_t] new by (auto intro: upload_inv_start)
  then obtain ws xs where rep: "upload_rep ks cfg fs ws xs s"
    using upload_inv_reach [OF run] unfolding upload_inv_def by blast
  moreover have "xs = []" "up_todo s = []" "ws = ks"
    using rep stopped by (auto simp: upload_rep_def)
  ultimately show "upload_rep ks cfg fs ks [] s" "up_todo s = []"
    by simp_all
qed

text \<open>C10: Under every interleaving of the receiving thread and the writer, from a fresh container queue: once the writer
  has left its loop, every container that was to be pushed has been written to its file, in the order of
  pushing and with exactly its bytes, nothing else has been written, the writer has counted them, and the queue is
  empty, so that its destructor does not stop the process.\<close>

theorem writer_stops_complete:
  assumes new: "MessageQueue_new (\<lambda>_. True) (of_nat CONTAINER_QUEUE_SIZE) = Inr mq"
    and run: "step\<^sup>*\<^sup>* (upload_start mq ks cfg fs) s" and stopped: "up_pc s = Stopped"
  shows "files (up_fs s) = write_all cfg ks (files fs) \<and> up_todo s = [] \<and> dw_containerNum (up_dw s) = of_nat (length ks) \<and>
     MessageQueue_delete (up_mq s) = Some (Inr ())"
  using writer_stopped_state [OF assms] IsEmpty_law [of "up_mq s" "[]"] by (simp add: upload_rep_def MessageQueue_delete_def)

lemma writer_finishes:
  assumes new: "MessageQueue_new (\<lambda>_. True) (of_nat CONTAINER_QUEUE_SIZE) = Inr mq"
    and run: "step\<^sup>*\<^sup>* (upload_start mq ks cfg fs) s" and sv: "savable cfg fs ks"
  shows "\<exists>s'. step\<^sup>*\<^sup>* s s' \<and> up_pc s' = Stopped"
proof -
  have "upload_inv ks cfg fs (upload_start mq ks cfg fs)"
    using new_queue [where ?'a = Container_t] new by (auto intro: upload_inv_start)
  then obtain ws xs where "upload_rep ks cfg fs ws xs s"
    using upload_inv_reach [OF run] unfolding upload_inv_def by blast
  then obtain s1 ws1 xs1 where s1: "step\<^sup>*\<^sup>* s s1" "upload_rep ks cfg fs ws1 xs1 s1" "up_pc s1 \<in> {AtTest, Stopped}"
    using reaches_top [OF _ sv] by blast
  then show ?thesis
    using finishes [OF s1(2) _ sv] by (auto intro: rtranclp_trans)
qed

text \<open>C18: The two threads never block each other for good, and nothing is lost on the way: from every state that an
  upload can reach, as long as the container files can be created, there is a continuation in which the writer leaves
  its loop with every container of the upload written to its file, in the order of pushing and with exactly its bytes,
  nothing left to push, and all of them counted. In particular a full queue or a late \<open>done_\<close> is no deadlock.\<close>

theorem writer_can_finish:
  assumes new: "MessageQueue_new (\<lambda>_. True) (of_nat CONTAINER_QUEUE_SIZE) = Inr mq"
    and run: "step\<^sup>*\<^sup>* (upload_start mq ks cfg fs) s" and sv: "savable cfg fs ks"
  shows "\<exists>s'. step\<^sup>*\<^sup>* s s' \<and> up_pc s' = Stopped \<and> files (up_fs s') = write_all cfg ks (files fs) \<and>
     up_todo s' = [] \<and> dw_containerNum (up_dw s') = of_nat (length ks)"
proof -
  obtain s' where s': "step\<^sup>*\<^sup>* s s'" "up_pc s' = Stopped"
    using writer_finishes [OF assms] by blast
  then show ?thesis
    using writer_stopped_state [OF new rtranclp_trans [OF run s'(1)] s'(2)] by (auto simp: upload_rep_def)
qed

definition demo_container :: Container_t where
  "demo_container = \<lparr>ct_containerID = str ''abcdefgh'', ct_body = (\<lambda>_. 7), ct_currentSize = 3\<rparr>"

lemma demo_savable: "savable demo_cfg (w_fs demo_world) [demo_container]"
  by (simp add: savable_def demo_world_def demo_container_def MAX_CONTAINER_SIZE_def)

lemma demo_container_bytes: "ct_bytes demo_container = [7, 7, 7]"
  by (simp add: ct_bytes_def demo_container_def mem_read_def upt_rec)

theorem writer_can_finish_witness:
  "\<exists>mq s'. MessageQueue_new (\<lambda>_. True) (of_nat CONTAINER_QUEUE_SIZE) = Inr mq \<and>
     step\<^sup>*\<^sup>* (upload_start mq [demo_container] demo_cfg (w_fs demo_world)) s' \<and> up_pc s' = Stopped \<and>
     files (up_fs s') (container_file demo_cfg (str ''abcdefgh'')) = Some [7, 7, 7] \<and> dw_containerNum (up_dw s') = 1"
proof -
  obtain mq :: "Container_t MessageQueue" where mq: "MessageQueue_new (\<lambda>_. True) (of_nat CONTAINER_QUEUE_SIZE) = Inr mq"
    using new_queue by blast
  obtain s' where "step\<^sup>*\<^sup>* (upload_start mq [demo_container] demo_cfg (w_fs demo_world)) s'" "up_pc s' = Stopped"
      "files (up_fs s') = write_all demo_cfg [demo_container] (files (w_fs demo_world))" "dw_containerNum (up_dw s') = 1"
    using writer_can_finish [OF mq rtranclp.rtrancl_refl demo_savable] by auto
  moreover have "ct_containerID demo_container = str ''abcdefgh''"
    by (simp add: demo_container_def)
  ultimately show ?thesis
    using mq demo_container_bytes by auto
qed

theorem writer_stops_complete_witness:
  "\<exists>mq s'. step\<^sup>*\<^sup>* (upload_start mq [demo_container] demo_cfg (w_fs demo_world)) s' \<and> up_pc s' = Stopped \<and>
     files (up_fs s') (container_file demo_cfg (str ''abcdefgh'')) = Some [7, 7, 7]"
proof -
  obtain mq :: "Container_t MessageQueue" where mq: "MessageQueue_new (\<lambda>_. True) (of_nat CONTAINER_QUEUE_SIZE) = Inr mq"
      "mq_rep mq []" "0 < mq_cap mq" "\<not> mq_done mq"
    using new_queue by blast
  let ?s = "upload_start mq [demo_container] demo_cfg (w_fs demo_world)"
  have "upload_rep [demo_container] demo_cfg (w_fs demo_world) [] [] ?s" "up_pc ?s = AtTest"
    using mq by (simp_all add: upload_rep_def upload_start_def DataWriter_new_def)
  then obtain s' where s': "step\<^sup>*\<^sup>* ?s s'" "up_pc s' = Stopped"
    using finishes [OF _ _ demo_savable] by blast
  have "files (up_fs s') (container_file demo_cfg (str ''abcdefgh'')) = Some [7, 7, 7]"
    using writer_stops_complete [OF mq(1) s'] demo_container_bytes by (simp add: demo_container_def)
  then show ?thesis
    using s' by blast
qed

end
