(* ===== verification/Recv_Decoder.thy ===== *)
theory Recv_Decoder
  imports Plain_Index Data_Writer Ssl_Connection
begin

text \<open>
  The restore side: \<open>AbsRecvDecoder\<close> and \<open>RecvDecoder\<close> (\<open>src/Server/recvDecoder.cc\<close>). A batch of chunk hashes is
  looked up in the index, the containers that hold the chunks are fetched from the cache or from disk, at
  most \<open>CONTAINER_CAPPING_VALUE\<close> at a time, their headers are parsed into a restore index, and the chunks are
  copied to the send buffer. The lemmas show that parsing inverts the container format of \<open>Storage_Core\<close> and
  that fetching puts the right container in each slot; \<open>Restore_Session\<close> builds on them.
\<close>

section \<open>Model\<close>

record RecvDecoder =
  rd_containerNamePrefix :: bytes
  rd_containerNameTail :: bytes
  rd_sendChunkBatchSize :: u64
  rd_sendRecipeBatchSize :: u64
  rd_recipeNamePrefix :: bytes
  rd_recipeNameTail :: bytes
  rd_readFromContainerFileNum :: u64

definition AbsRecvDecoder_new :: "Configure \<Rightarrow> RecvDecoder" where
  "AbsRecvDecoder_new cfg =
     \<lparr>rd_containerNamePrefix = GetContainerRootPath cfg, rd_containerNameTail = GetContainerSuffix cfg,
      rd_sendChunkBatchSize = GetSendChunkBatchSize cfg, rd_sendRecipeBatchSize = GetSendRecipeBatchSize cfg,
      rd_recipeNamePrefix = GetRecipeRootPath cfg, rd_recipeNameTail = GetRecipeSuffix cfg,
      rd_readFromContainerFileNum = 0\<rparr>"

subsection \<open>Fetching containers\<close>

text \<open>
  One container into slot \<open>i\<close> of the container array. The file size is narrowed to an \<open>int\<close>; the array entry has
  \<open>MAX_CONTAINER_SIZE\<close> bytes.
\<close>

definition get_container :: "nat \<Rightarrow> RecvDecoder \<Rightarrow> ClientVar \<Rightarrow> filesys \<Rightarrow> (RecvDecoder \<times> ClientVar) result" where
  "get_container i rd cv fs =
     (let rq = cv_reqContainer cv;
          containerNameStr = mem_read (rq_idBuffer rq) (i * CONTAINER_ID_LENGTH) CONTAINER_ID_LENGTH;
          slot = rq_containerArray rq i in
      bindR (guardR (i < CONTAINER_CAPPING_VALUE) OutOfBounds) (\<lambda>_.
      if ExistsInCache containerNameStr (cv_containerCache cv)
      then bindR (ReadFromCache containerNameStr (cv_containerCache cv)) (\<lambda>(b, cache).
        Inr (rd, cv\<lparr>cv_containerCache := cache, cv_reqContainer := rq\<lparr>rq_containerArray :=
               (rq_containerArray rq)(i := mem_write slot 0 (mem_read b 0 MAX_CONTAINER_SIZE))\<rparr>\<rparr>))
      else
        let readFileNameStr = container_path (rd_containerNamePrefix rd) containerNameStr (rd_containerNameTail rd);
            h0 = is_open_read readFileNameStr fs in
        bindR (guardR (is_is_open h0) ExitFailure) (\<lambda>_.
          let h1 = is_seekg_end h0 fs;
              containerSize = unat (ucast (is_tellg h1) :: u32);
              h2 = is_seekg_beg h1 in
          bindR (guardR (containerSize \<le> MAX_CONTAINER_SIZE) OutOfBounds) (\<lambda>_.
            let (got, h3) = is_read h2 containerSize fs;
                slot' = mem_write slot 0 got in
            bindR (guardR (length got = containerSize) ExitFailure) (\<lambda>_.
            bindR (InsertToCache containerNameStr (mem_read slot' 0 containerSize) (cv_containerCache cv)) (\<lambda>cache.
              Inr (rd\<lparr>rd_readFromContainerFileNum := rd_readFromContainerFileNum rd + 1\<rparr>,
                   cv\<lparr>cv_containerCache := cache, cv_reqContainer := rq\<lparr>rq_containerArray :=
                        (rq_containerArray rq)(i := slot')\<rparr>\<rparr>)))))))"

fun get_containers :: "nat \<Rightarrow> nat \<Rightarrow> RecvDecoder \<Rightarrow> ClientVar \<Rightarrow> filesys \<Rightarrow> (RecvDecoder \<times> ClientVar) result" where
  "get_containers 0 i rd cv fs = Inr (rd, cv)"
| "get_containers (Suc n) i rd cv fs =
     bindR (get_container i rd cv fs) (\<lambda>(rd', cv'). get_containers n (Suc i) rd' cv' fs)"

definition GetReqContainers :: "RecvDecoder \<Rightarrow> ClientVar \<Rightarrow> filesys \<Rightarrow> (RecvDecoder \<times> ClientVar) result" where
  "GetReqContainers rd cv fs = get_containers (unat (rq_idNum (cv_reqContainer cv))) 0 rd cv fs"

subsection \<open>The restore index\<close>

type_synonym restore_index = "bytes \<rightharpoonup> RestoreIndexEntry_t"

definition be32_at :: "buf \<Rightarrow> nat \<Rightarrow> u32" where
  "be32_at b p = be32_dec (b p) (b (p + 1)) (b (p + 2)) (b (p + 3))"

text \<open>The shifts and sums are of type \<open>int\<close>; assigned to a \<open>size_t\<close>, the number is sign-extended.\<close>

definition container_chunkNum :: "buf \<Rightarrow> u64" where
  "container_chunkNum b = scast (be32_at b 0)"

fun index_loop :: "buf \<Rightarrow> u64 \<Rightarrow> nat \<Rightarrow> nat \<Rightarrow> restore_index \<Rightarrow> restore_index result" where
  "index_loop b chunkNum 0 j m = Inr m"
| "index_loop b chunkNum (Suc k) j m =
     (let base = 4 + j * (CHUNK_HASH_SIZE + 8) in
      bindR (guardR (base + CHUNK_HASH_SIZE + 8 \<le> MAX_CONTAINER_SIZE) OutOfBounds) (\<lambda>_.
        let tmpChunkHash = mem_read b base CHUNK_HASH_SIZE;
            tmpRestoreEntry = \<lparr>re_offset = be32_at b (base + CHUNK_HASH_SIZE) + (ucast chunkNum * (of_nat CHUNK_HASH_SIZE + 8) + 4),
                               re_length = be32_at b (base + CHUNK_HASH_SIZE + 4)\<rparr> in
        index_loop b chunkNum k (Suc j) (m(tmpChunkHash \<mapsto> tmpRestoreEntry))))"

fun IndexConstruct :: "(nat \<Rightarrow> buf) \<Rightarrow> nat \<Rightarrow> nat \<Rightarrow> restore_index \<Rightarrow> restore_index result" where
  "IndexConstruct containerArray 0 i m = Inr m"
| "IndexConstruct containerArray (Suc n) i m =
     (let chunkNum = container_chunkNum (containerArray i) in
      bindR (index_loop (containerArray i) chunkNum (unat chunkNum) 0 m) (\<lambda>m'. IndexConstruct containerArray n (Suc i) m'))"

subsection \<open>Sending chunks\<close>

definition RecoverOneChunk :: "DownloadChunkEntry_t \<Rightarrow> buf \<Rightarrow> SendMsgBuffer_t \<Rightarrow> SendMsgBuffer_t result" where
  "RecoverOneChunk e chunkBuffer b =
     (let off = unat (dataSize (header b));
          sz = unat (de_chunkSize e) in
      bindR (guardR (off + 4 + sz \<le> data_size b \<and> unat (de_chunkOffset e) + sz \<le> MAX_CONTAINER_SIZE) OutOfBounds) (\<lambda>_.
        let b1 = data_write b off (le_enc 4 (de_chunkSize e));
            b2 = data_write b1 (off + 4) (mem_read chunkBuffer (unat (de_chunkOffset e)) sz);
            hd = header b2 in
        Inr (set_header (hd\<lparr>dataSize := dataSize hd + (4 + de_chunkSize e), currentItemNum := currentItemNum hd + 1\<rparr>) b2)))"

definition SendBatchChunks :: "'s ssl_api \<Rightarrow> SendMsgBuffer_t \<Rightarrow> 's \<Rightarrow> 's run" where
  "SendBatchChunks api b c =
     (let n = sizeof_NetworkHead + unat (dataSize (header b)) in
      bindO (guardO (n \<le> sb_size b) OutOfBounds) (\<lambda>_.
        case SendData api c (mem_read (sendBuffer b) 0 n) of
          None \<Rightarrow> None
        | Some (ok, c') \<Rightarrow> if ok then Some (Inr c') else Some (Inl ExitFailure)))"

text \<open>\<open>messageType\<close> is set, the buffer sent, the counters of the header reset.\<close>

definition flush_chunks :: "'s ssl_api \<Rightarrow> SendMsgBuffer_t \<Rightarrow> 's \<Rightarrow> (SendMsgBuffer_t \<times> 's) run" where
  "flush_chunks api b c =
     (let b1 = set_header ((header b)\<lparr>messageType := edge_code CLOUD_SEND_CHUNK\<rparr>) b in
      bindO (SendBatchChunks api b1 c) (\<lambda>c'.
        Some (Inr (set_header ((header b1)\<lparr>dataSize := 0, currentItemNum := 0\<rparr>) b1, c'))))"

definition batch_full :: "RecvDecoder \<Rightarrow> SendMsgBuffer_t \<Rightarrow> bool" where
  "batch_full rd b \<longleftrightarrow> (ucast (currentItemNum (header b)) :: u64) mod rd_sendChunkBatchSize rd = 0"

text \<open>The inner loop over the entries from \<open>startEntry\<close> on; \<open>n\<close> entries are left.\<close>

fun send_entries :: "'s ssl_api \<Rightarrow> RecvDecoder \<Rightarrow> restore_index \<Rightarrow> nat \<Rightarrow> nat \<Rightarrow> ClientVar \<Rightarrow> 's \<Rightarrow> (ClientVar \<times> 's) run" where
  "send_entries api rd idx 0 start cv c = Some (Inr (cv, c))"
| "send_entries api rd idx (Suc n) start cv c =
     (let e0 = cv_downloadChunkBase cv start in
      case idx (de_chunkHash e0) of
        None \<Rightarrow> Some (Inl Undefined)
      | Some r \<Rightarrow>
          let e = e0\<lparr>de_chunkOffset := re_offset r, de_chunkSize := re_length r\<rparr>;
              containerContent = rq_containerArray (cv_reqContainer cv) (unat (de_containerID e)) in
          bindO (liftO (RecoverOneChunk e containerContent (cv_sendChunkBuf cv))) (\<lambda>b.
          bindO (if batch_full rd b then flush_chunks api b c else Some (Inr (b, c))) (\<lambda>(b', c').
            send_entries api rd idx n (Suc start)
              (cv\<lparr>cv_downloadChunkBase := (cv_downloadChunkBase cv)(start := e), cv_sendChunkBuf := b'\<rparr>) c')))"

subsection \<open>A batch of hashes\<close>

text \<open>
  The first loop reads the index. \<open>_downloadChunkBase\<close> has \<open>sendChunkBatchSize_\<close> entries; a failed lookup keeps the
  container name of the entry before.
\<close>

fun lookup_entries :: "'d AbsDatabase \<Rightarrow> 'd PlainIndex \<Rightarrow> nat \<Rightarrow> nat \<Rightarrow> bytes \<Rightarrow> ClientVar \<Rightarrow> ClientVar result" where
  "lookup_entries vt ix 0 i name cv = Inr cv"
| "lookup_entries vt ix (Suc n) i name cv =
     bindR (guardR (i < unat (cv_sendChunkBatchSize cv) \<and> (i + 1) * CHUNK_HASH_SIZE \<le> data_size (cv_sendChunkBuf cv)) OutOfBounds) (\<lambda>_.
       let h = data_read (cv_sendChunkBuf cv) (i * CHUNK_HASH_SIZE) CHUNK_HASH_SIZE;
           (_, name') = ReadIndexStore vt ix h name in
       bindR (guardR (CONTAINER_ID_LENGTH \<le> length name' + 1) OutOfBounds) (\<lambda>_.
         lookup_entries vt ix n (Suc i) name'
           (cv\<lparr>cv_downloadChunkBase := (cv_downloadChunkBase cv)(i := (cv_downloadChunkBase cv i)
                 \<lparr>de_chunkHash := h, de_containerName := take CONTAINER_ID_LENGTH (name' @ [0])\<rparr>)\<rparr>)))"

text \<open>Assigning a container slot to entry \<open>i\<close>.\<close>

definition assign_slot :: "nat \<Rightarrow> (bytes \<rightharpoonup> u32) \<Rightarrow> ClientVar \<Rightarrow> ((bytes \<rightharpoonup> u32) \<times> ClientVar) result" where
  "assign_slot i tmpContainerMap cv =
     (let e = cv_downloadChunkBase cv i;
          rq = cv_reqContainer cv;
          name = de_containerName e in
      case tmpContainerMap name of
        None \<Rightarrow>
          bindR (guardR (unat (rq_idNum rq) < CONTAINER_CAPPING_VALUE) OutOfBounds) (\<lambda>_.
            Inr (tmpContainerMap(name \<mapsto> rq_idNum rq),
                 cv\<lparr>cv_downloadChunkBase := (cv_downloadChunkBase cv)(i := e\<lparr>de_containerID := rq_idNum rq\<rparr>),
                    cv_reqContainer := rq\<lparr>rq_idBuffer := mem_write (rq_idBuffer rq) (unat (rq_idNum rq) * CONTAINER_ID_LENGTH) name,
                                          rq_idNum := rq_idNum rq + 1\<rparr>\<rparr>))
      | Some k \<Rightarrow> Inr (tmpContainerMap, cv\<lparr>cv_downloadChunkBase := (cv_downloadChunkBase cv)(i := e\<lparr>de_containerID := k\<rparr>)\<rparr>))"

text \<open>Serving a group: fetch its containers, build the restore index, send the entries \<open>start\<close> to \<open>i\<close>.\<close>

definition serve_group :: "'s ssl_api \<Rightarrow> bool \<Rightarrow> nat \<Rightarrow> nat \<Rightarrow> filesys \<Rightarrow> RecvDecoder \<Rightarrow> ClientVar \<Rightarrow> 's
    \<Rightarrow> (RecvDecoder \<times> ClientVar \<times> 's) run" where
  "serve_group api isLast start i fs rd cv c =
     bindO (liftO (GetReqContainers rd cv fs)) (\<lambda>(rd1, cv1).
     bindO (liftO (IndexConstruct (rq_containerArray (cv_reqContainer cv1)) (unat (rq_idNum (cv_reqContainer cv1))) 0 Map.empty)) (\<lambda>idx.
     bindO (send_entries api rd1 idx (i + 1 - start) start cv1 c) (\<lambda>(cv2, c2).
     bindO (if isLast \<and> \<not> batch_full rd1 (cv_sendChunkBuf cv2) then flush_chunks api (cv_sendChunkBuf cv2) c2
            else Some (Inr (cv_sendChunkBuf cv2, c2))) (\<lambda>(b, c3).
       Some (Inr (rd1, cv2\<lparr>cv_sendChunkBuf := b, cv_reqContainer := (cv_reqContainer cv2)\<lparr>rq_idNum := 0\<rparr>\<rparr>, c3))))))"

fun serve_entries :: "'s ssl_api \<Rightarrow> nat \<Rightarrow> nat \<Rightarrow> nat \<Rightarrow> (bytes \<rightharpoonup> u32) \<Rightarrow> filesys \<Rightarrow> RecvDecoder \<Rightarrow> ClientVar \<Rightarrow> 's
    \<Rightarrow> (RecvDecoder \<times> ClientVar \<times> 's) run" where
  "serve_entries api 0 i start tmap fs rd cv c = Some (Inr (rd, cv, c))"
| "serve_entries api (Suc n) i start tmap fs rd cv c =
     bindO (liftO (assign_slot i tmap cv)) (\<lambda>(tmap', cv1).
       if unat (rq_idNum (cv_reqContainer cv1)) = CONTAINER_CAPPING_VALUE \<or> n = 0
       then bindO (serve_group api (n = 0) start i fs rd cv1 c) (\<lambda>(rd2, cv2, c2).
              serve_entries api n (Suc i) (Suc i) Map.empty fs rd2 cv2 c2)
       else serve_entries api n (Suc i) start tmap' fs rd cv1 c)"

definition ProcessRecipeTailBatch :: "'s ssl_api \<Rightarrow> ClientVar \<Rightarrow> 's \<Rightarrow> (ClientVar \<times> 's) run" where
  "ProcessRecipeTailBatch api cv c =
     (let b = set_header ((header (cv_sendChunkBuf cv))\<lparr>messageType := edge_code CLOUD_SEND_CHUNK_END\<rparr>) (cv_sendChunkBuf cv) in
      bindO (SendBatchChunks api b c) (\<lambda>c'. Some (Inr (cv\<lparr>cv_sendChunkBuf := b\<rparr>, c'))))"

definition RecvDecoder_ProcessRecipeBatch :: "'s ssl_api \<Rightarrow> 'd AbsDatabase \<Rightarrow> 'd PlainIndex \<Rightarrow> nat \<Rightarrow> filesys \<Rightarrow> RecvDecoder
    \<Rightarrow> ClientVar \<Rightarrow> 's \<Rightarrow> (RecvDecoder \<times> ClientVar \<times> 's) run" where
  "RecvDecoder_ProcessRecipeBatch api vt ix recipeNum fs rd cv c =
     bindO (liftO (lookup_entries vt ix recipeNum 0 (replicate CONTAINER_ID_LENGTH 0) cv)) (\<lambda>cv1.
     bindO (serve_entries api recipeNum 0 0 Map.empty fs rd cv1 c) (\<lambda>(rd2, cv2, c2).
     bindO (ProcessRecipeTailBatch api cv2 c2) (\<lambda>(cv3, c3). Some (Inr (rd2, cv3, c3)))))"

subsection \<open>The main loop\<close>

definition receive_into :: "'s ssl_api \<Rightarrow> SendMsgBuffer_t \<Rightarrow> 's \<Rightarrow> (bool \<times> SendMsgBuffer_t \<times> 's) run" where
  "receive_into api b c =
     bindO (ReceiveData api c (sendBuffer b) (sb_size b) 0) (\<lambda>(ok, m, _, c'). Some (Inr (ok, b\<lparr>sendBuffer := m\<rparr>, c')))"

partial_function (option) decoder_loop :: "'s ssl_api \<Rightarrow> 'd AbsDatabase \<Rightarrow> 'd PlainIndex \<Rightarrow> filesys \<Rightarrow> RecvDecoder
    \<Rightarrow> ClientVar \<Rightarrow> 's \<Rightarrow> (RecvDecoder \<times> ClientVar \<times> 's) run" where
  "decoder_loop api vt ix fs rd cv c =
     bindO (receive_into api (cv_sendChunkBuf cv) c) (\<lambda>(ok, b, c1).
       if \<not> ok then Some (Inr (rd, cv\<lparr>cv_sendChunkBuf := b\<rparr>, c1))
       else if messageType (header b) \<noteq> edge_code EDGE_DOWNLOAD_CHUNK_READY then Some (Inl ExitFailure)
       else let recipeNum = unat (currentItemNum (header b));
                b1 = set_header ((header b)\<lparr>currentItemNum := 0, dataSize := 0\<rparr>) b in
         bindO (RecvDecoder_ProcessRecipeBatch api vt ix recipeNum fs rd (cv\<lparr>cv_sendChunkBuf := b1\<rparr>) c1) (\<lambda>(rd2, cv2, c2).
           decoder_loop api vt ix fs rd2 cv2 c2))"

definition RecvDecoder_Run :: "'s ssl_api \<Rightarrow> 'd AbsDatabase \<Rightarrow> 'd PlainIndex \<Rightarrow> filesys \<Rightarrow> RecvDecoder
    \<Rightarrow> ClientVar \<Rightarrow> 's \<Rightarrow> (RecvDecoder \<times> ClientVar \<times> 's) run" where
  "RecvDecoder_Run api vt ix fs rd cv c =
     bindO (receive_into api (cv_sendChunkBuf cv) c) (\<lambda>(ok, b, c1).
       if \<not> ok \<or> messageType (header b) \<noteq> edge_code EDGE_RECEIVE_READY then Some (Inl ExitFailure)
       else decoder_loop api vt ix fs rd (cv\<lparr>cv_sendChunkBuf := b\<rparr>) c1)"

section \<open>Parsing a container\<close>

lemma be32_at_read: "mem_read b p 4 = be32_enc w \<Longrightarrow> be32_at b p = w"
proof -
  assume r: "mem_read b p 4 = be32_enc w"
  have "mem_read b p 4 ! k = be32_enc w ! k" if "k < 4" for k
    by (simp add: r)
  from this [of 0] this [of 1] this [of 2] this [of 3] show ?thesis
    by (simp add: be32_at_def be32_dec_nth_enc [of w, simplified])
qed

definition holds_container :: "buf \<Rightarrow> (bytes \<times> bytes) list \<Rightarrow> bool" where
  "holds_container b es \<longleftrightarrow> mem_read b 0 (file_size es) = file_enc (of_nat (length es)) es"

definition container_ok :: "(bytes \<times> bytes) list \<Rightarrow> bool" where
  "container_ok es \<longleftrightarrow> hashes_ok es \<and> distinct (map fst es) \<and> file_size es < MAX_CONTAINER_SIZE \<and>
     (\<forall>(h, d) \<in> set es. length d \<le> MAX_CHUNK_SIZE)"

text \<open>The restore index of a container whose body starts at \<open>base\<close>.\<close>

fun ridx :: "nat \<Rightarrow> (bytes \<times> bytes) list \<Rightarrow> restore_index \<Rightarrow> restore_index" where
  "ridx base [] m = m"
| "ridx base ((h, d) # es) m =
     ridx (base + length d) es (m(h \<mapsto> \<lparr>re_offset = of_nat base, re_length = of_nat (length d)\<rparr>))"

lemma mem_read_split:
  assumes "mem_read b p (a + n) = xs @ ys" and "length xs = a"
  shows "mem_read b p a = xs" and "mem_read b (p + a) n = ys"
  using assms by (simp_all add: mem_read_add)

lemma index_loop_spec:
  assumes "hashes_ok es" and "mem_read b (4 + 40 * j) (40 * length es) = hdr_enc off es"
    and "4 + 40 * (j + length es) \<le> MAX_CONTAINER_SIZE" and "base = off + (40 * unat n + 4)"
  shows "index_loop b n (length es) j m = Inr (ridx base es m)"
  using assms
proof (induction es arbitrary: j off base m)
  case (Cons e es)
  obtain h d where e: "e = (h, d)"
    by force
  have h: "length h = 32" and ok: "hashes_ok es"
    using Cons.prems(1) e by (auto simp: hashes_ok_def CHUNK_HASH_SIZE_def)
  let ?p = "4 + 40 * j"
  let ?rest = "hdr_enc (off + length d) es"
  have "mem_read b ?p (32 + (4 + (4 + 40 * length es))) =
      h @ be32_enc (of_nat off) @ be32_enc (of_nat (length d)) @ ?rest"
    using Cons.prems(2) e h by simp
  note s1 = mem_read_split [OF this h]
  note s2 = mem_read_split [OF s1(2) length_be32_enc]
  note s3 = mem_read_split [OF s2(2) length_be32_enc]
  have hh: "mem_read b ?p 32 = h" and o: "mem_read b (?p + 32) 4 = be32_enc (of_nat off)"
    and l: "mem_read b (?p + 36) 4 = be32_enc (of_nat (length d))"
    and r3: "mem_read b (4 + 40 * Suc j) (40 * length es) = ?rest"
    using s1(1) s2(1) s3 by (simp_all add: add.assoc)
  have off: "of_nat off + (ucast n * 40 + 4) = (of_nat base :: u32)"
    using Cons.prems(4) by (simp add: mult.commute)
  have "index_loop b n (length es) (Suc j) m' = Inr (ridx (base + length d) es m')" for m'
    using Cons.IH [OF ok r3, of "base + length d" m'] Cons.prems(3,4) by simp
  then show ?case
    using Cons.prems(3) e be32_at_read [OF o] be32_at_read [OF l] hh off
    by (simp add: Let_def CHUNK_HASH_SIZE_def mult.commute add.commute add.left_commute)
qed simp

lemma ridx_notin: "h \<notin> fst ` set es \<Longrightarrow> ridx base es m h = m h"
  by (induction base es m rule: ridx.induct) auto

lemma ridx_in:
  "distinct (map fst es) \<Longrightarrow> (h, d) \<in> set es \<Longrightarrow>
   \<exists>p. ridx base es m h = Some \<lparr>re_offset = of_nat (base + p), re_length = of_nat (length d)\<rparr> \<and>
     p + length d \<le> length (body_enc es) \<and> take (length d) (drop p (body_enc es)) = d"
proof (induction base es m rule: ridx.induct)
  case (2 base h' d' es m)
  show ?case
  proof (cases "h = h'")
    case True
    then have "d = d'" "h \<notin> fst ` set es"
      using 2 by force+
    then show ?thesis
      using True by (intro exI [of _ 0]) (simp add: ridx_notin body_enc_def)
  next
    case False
    then obtain p where "ridx (base + length d') es (m(h' \<mapsto> \<lparr>re_offset = of_nat base, re_length = of_nat (length d')\<rparr>)) h =
        Some \<lparr>re_offset = of_nat (base + length d' + p), re_length = of_nat (length d)\<rparr>"
        "p + length d \<le> length (body_enc es)" "take (length d) (drop p (body_enc es)) = d"
      using 2 by (auto simp del: fun_upd_apply)
    then show ?thesis
      by (intro exI [of _ "length d' + p"]) (simp add: body_enc_def add.assoc del: fun_upd_apply)
  qed
qed simp

lemma holds_parts:
  assumes b: "holds_container b es" and ok: "container_ok es"
  shows "container_chunkNum b = of_nat (length es)" and "unat (container_chunkNum b) = length es"
    and "mem_read b 4 (40 * length es) = hdr_enc 0 es"
    and "mem_read b (4 + 40 * length es) (length (body_enc es)) = body_enc es"
proof -
  have lim: "4 + 40 * length es + length (body_enc es) < 4194304" and hk: "hashes_ok es"
    using ok by (simp_all add: container_ok_def file_size_def MAX_CONTAINER_SIZE_def)
  let ?num = "be32_enc (of_nat (length es))"
  have f: "mem_read b 0 (4 + (40 * length es + length (body_enc es))) = ?num @ hdr_enc 0 es @ body_enc es"
    using b by (simp add: holds_container_def file_enc_def file_size_def add.assoc)
  note s1 = mem_read_split [OF f length_be32_enc]
  note s2 = mem_read_split [OF s1(2) length_hdr_enc [OF hk]]
  show "mem_read b 4 (40 * length es) = hdr_enc 0 es"
    and "mem_read b (4 + 40 * length es) (length (body_enc es)) = body_enc es"
    using s2 by simp_all
  have "sint (of_nat (length es) :: u32) = int (length es)"
    using lim by (intro sint_of_nat_u32) simp
  then show c: "container_chunkNum b = of_nat (length es)"
    using be32_at_read [OF s1(1)] by (simp add: container_chunkNum_def) (metis of_int_of_nat_eq of_int_sint scast_eq)
  show "unat (container_chunkNum b) = length es"
    unfolding c using lim by (intro unat_of_nat_u64) simp
qed

text \<open>The restore index leads from a hash to its chunk in a buffer.\<close>

definition finds :: "buf \<Rightarrow> restore_index \<Rightarrow> bytes \<Rightarrow> bytes \<Rightarrow> bool" where
  "finds b idx h d \<longleftrightarrow> (\<exists>r. idx h = Some r \<and> re_length r = of_nat (length d) \<and>
     unat (re_offset r) + length d \<le> MAX_CONTAINER_SIZE \<and> mem_read b (unat (re_offset r)) (length d) = d)"

lemma ridx_finds:
  assumes b: "holds_container b es" and ok: "container_ok es" and e: "(h, d) \<in> set es"
    and idx: "idx h = ridx (40 * length es + 4) es m h"
  shows "finds b idx h d"
proof -
  have dist: "distinct (map fst es)" and lim: "4 + 40 * length es + length (body_enc es) < 4194304"
    using ok by (simp_all add: container_ok_def file_size_def MAX_CONTAINER_SIZE_def)
  obtain p where p: "ridx (40 * length es + 4) es m h = Some \<lparr>re_offset = of_nat (40 * length es + 4 + p), re_length = of_nat (length d)\<rparr>"
      "p + length d \<le> length (body_enc es)" "take (length d) (drop p (body_enc es)) = d"
    using ridx_in [OF dist e] by blast
  have u: "unat (of_nat (40 * length es + 4 + p) :: u32) = 4 + 40 * length es + p"
    using lim p(2) by (subst unat_of_nat_u32) simp_all
  have "mem_read b (4 + 40 * length es + p) (length d)
      = take (length d) (drop p (mem_read b (4 + 40 * length es) (length (body_enc es))))"
    using p(2) by (simp add: drop_mem_read take_mem_read)
  also have "\<dots> = d"
    using holds_parts(4) [OF b ok] p(3) by simp
  finally show ?thesis
    using idx p(1,2) u lim unfolding finds_def
    by (intro exI [of _ "\<lparr>re_offset = of_nat (40 * length es + 4 + p), re_length = of_nat (length d)\<rparr>"])
      (simp only: RestoreIndexEntry_t.simps MAX_CONTAINER_SIZE_def, simp)
qed

fun ridx_all :: "(bytes \<times> bytes) list list \<Rightarrow> restore_index \<Rightarrow> restore_index" where
  "ridx_all [] m = m"
| "ridx_all (es # ess) m = ridx_all ess (ridx (40 * length es + 4) es m)"

lemma ridx_all_notin: "\<forall>es \<in> set ess. h \<notin> fst ` set es \<Longrightarrow> ridx_all ess m h = m h"
  by (induction ess m rule: ridx_all.induct) (auto simp: ridx_notin)

lemma IndexConstruct_eq:
  assumes "\<forall>k < length ess. holds_container (arr (i + k)) (ess ! k) \<and> container_ok (ess ! k)"
  shows "IndexConstruct arr (length ess) i m = Inr (ridx_all ess m)"
  using assms
proof (induction ess arbitrary: i m)
  case (Cons es ess)
  have h: "holds_container (arr i) es" "container_ok es"
    using Cons.prems [rule_format, of 0] by simp_all
  have r: "\<forall>k < length ess. holds_container (arr (Suc i + k)) (ess ! k) \<and> container_ok (ess ! k)"
    using Cons.prems by (auto dest: spec [of _ "Suc _"])
  note p = holds_parts [OF h]
  have "index_loop (arr i) (container_chunkNum (arr i)) (length es) 0 m = Inr (ridx (40 * length es + 4) es m)"
    using h(2) p(2,3) by (intro index_loop_spec [where off = 0])
      (simp_all add: container_ok_def file_size_def MAX_CONTAINER_SIZE_def)
  then show ?case
    using Cons.IH [OF r] p(2) by (simp add: Let_def)
qed simp

lemma ridx_all_finds:
  assumes "\<forall>k < length ess. holds_container (arr (i + k)) (ess ! k) \<and> container_ok (ess ! k)"
    and "\<forall>k l. k < length ess \<longrightarrow> l < length ess \<longrightarrow> k \<noteq> l \<longrightarrow> fst ` set (ess ! k) \<inter> fst ` set (ess ! l) = {}"
    and "k < length ess" and "(h, d) \<in> set (ess ! k)"
  shows "finds (arr (i + k)) (ridx_all ess m) h d"
  using assms
proof (induction ess arbitrary: i k m)
  case (Cons es ess)
  show ?case
  proof (cases k)
    case 0
    have hd: "(h, d) \<in> set es"
      using Cons.prems(4) 0 by simp
    have "h \<notin> fst ` set es'" if es': "es' \<in> set ess" for es'
    proof -
      obtain l where l: "l < length ess" "es' = ess ! l"
        using es' by (metis in_set_conv_nth)
      have "fst ` set ((es # ess) ! 0) \<inter> fst ` set ((es # ess) ! Suc l) = {}"
        using Cons.prems(2) l(1) by (metis Suc_less_eq length_Cons nat.simps(3) zero_less_Suc)
      then show ?thesis
        using hd l(2) by force
    qed
    then have "ridx_all (es # ess) m h = ridx (40 * length es + 4) es m h"
      by (simp add: ridx_all_notin)
    then show ?thesis
      using ridx_finds [OF _ _ hd] Cons.prems(1) [rule_format, of 0] 0 by simp
  next
    case (Suc k')
    have "\<forall>k < length ess. holds_container (arr (Suc i + k)) (ess ! k) \<and> container_ok (ess ! k)"
      using Cons.prems(1) by (auto dest: spec [of _ "Suc _"])
    moreover have "\<forall>k l. k < length ess \<longrightarrow> l < length ess \<longrightarrow> k \<noteq> l \<longrightarrow> fst ` set (ess ! k) \<inter> fst ` set (ess ! l) = {}"
      using Cons.prems(2) by (metis Suc_inject Suc_less_eq length_Cons nth_Cons_Suc)
    ultimately show ?thesis
      using Cons.IH [of "Suc i" k'] Cons.prems(3,4) Suc by simp
  qed
qed simp

section \<open>Fetching containers\<close>

text \<open>\<open>C\<close> names the containers on disk with their chunks.\<close>

type_synonym containers = "bytes \<rightharpoonup> (bytes \<times> bytes) list"

definition on_disk :: "Configure \<Rightarrow> filesys \<Rightarrow> containers \<Rightarrow> bool" where
  "on_disk cfg fs C \<longleftrightarrow> (\<forall>name es. C name = Some es \<longrightarrow> container_ok es \<and>
     files fs (container_file cfg name) = Some (file_enc (of_nat (length es)) es))"

definition cache_ok :: "containers \<Rightarrow> ReadCache \<Rightarrow> bool" where
  "cache_ok C rc \<longleftrightarrow> rc_inv rc \<and> (\<forall>name es b. C name = Some es \<longrightarrow> rc_lookup rc name = Some b \<longrightarrow> holds_container b es)"

lemma holds_container_prefix:
  assumes "holds_container b es" and "file_size es \<le> n"
  shows "holds_container (mem_write m 0 (mem_read b 0 n)) es"
  using assms by (simp add: holds_container_def mem_read_write_inside take_mem_read)

lemma holds_container_write:
  assumes "hashes_ok es"
  shows "holds_container (mem_write m 0 (file_enc (of_nat (length es)) es)) es"
  using length_file_enc [OF assms, of "of_nat (length es)"] by (simp add: holds_container_def mem_read_write_same')

definition decoder_for :: "Configure \<Rightarrow> RecvDecoder \<Rightarrow> bool" where
  "decoder_for cfg rd \<longleftrightarrow> rd_containerNamePrefix rd = GetContainerRootPath cfg \<and>
     rd_containerNameTail rd = GetContainerSuffix cfg \<and> rd_sendChunkBatchSize rd = 256"

lemma unat_ucast_of_nat: "n < 2 ^ 32 \<Longrightarrow> unat (ucast (of_nat n :: u64) :: u32) = n"
  by (simp add: unsigned_ucast_eq unsigned_of_nat take_bit_nat_eq_self)

lemma read_whole_file:
  assumes "files fs (c_path p) = Some content" and "length content < 2 ^ 32"
  shows "is_is_open (is_open_read p fs)"
    and "unat (ucast (is_tellg (is_seekg_end (is_open_read p fs) fs)) :: u32) = length content"
    and "fst (is_read (is_seekg_beg (is_seekg_end (is_open_read p fs) fs)) (length content) fs) = content"
  using assms by (simp_all add: is_open_read_def FileExist_def is_seekg_end_def is_seekg_beg_def is_tellg_def
      is_content_def is_read_def Let_def unat_ucast_of_nat)

lemma get_container_spec:
  assumes disk: "on_disk cfg fs C" and cache: "cache_ok C (cv_containerCache cv)" and rd: "decoder_for cfg rd"
    and i: "i < CONTAINER_CAPPING_VALUE"
    and name: "mem_read (rq_idBuffer (cv_reqContainer cv)) (i * CONTAINER_ID_LENGTH) CONTAINER_ID_LENGTH = name"
    and C: "C name = Some es"
  shows "\<exists>rd' rc b. get_container i rd cv fs = Inr (rd', cv\<lparr>cv_containerCache := rc, cv_reqContainer := (cv_reqContainer cv)
       \<lparr>rq_containerArray := (rq_containerArray (cv_reqContainer cv))(i := b)\<rparr>\<rparr>) \<and>
     decoder_for cfg rd' \<and> cache_ok C rc \<and> holds_container b es"
proof -
  let ?rc = "cv_containerCache cv"
  have ok: "container_ok es" and f: "files fs (container_file cfg name) = Some (file_enc (of_nat (length es)) es)"
    using disk C by (auto simp: on_disk_def)
  have inv: "rc_inv ?rc" and lim: "file_size es \<le> MAX_CONTAINER_SIZE" and hk: "hashes_ok es"
    using cache ok by (simp_all add: cache_ok_def container_ok_def)
  show ?thesis
  proof (cases "rc_lookup ?rc name")
    case (Some b)
    have hb: "holds_container b es"
      using cache C Some by (auto simp: cache_ok_def)
    obtain rc' where rc': "ReadFromCache name ?rc = Inr (b, rc')" "rc_inv rc'" "rc_lookup rc' = rc_lookup ?rc"
      using ReadFromCache_hit [OF inv Some] by blast
    have "cache_ok C rc'"
      using cache rc' by (simp add: cache_ok_def)
    moreover have "ExistsInCache name ?rc"
      using ExistsInCache_lookup [OF inv] Some by simp
    ultimately show ?thesis
      using rc'(1) i name rd holds_container_prefix [OF hb lim]
      by (simp add: get_container_def Let_def) blast
  next
    case None
    let ?p = "container_path (rd_containerNamePrefix rd) name (rd_containerNameTail rd)"
    let ?content = "file_enc (of_nat (length es)) es"
    have len: "length ?content = file_size es" "length ?content \<le> MAX_CONTAINER_SIZE"
      using length_file_enc [OF hk] lim by simp_all
    have fp: "files fs (c_path ?p) = Some ?content"
      using f rd by (simp add: container_file_def decoder_for_def)
    have "length ?content < 2 ^ 32"
      using len by (simp add: MAX_CONTAINER_SIZE_def)
    note whole = read_whole_file [OF fp this]
    let ?slot = "mem_write (rq_containerArray (cv_reqContainer cv) i) 0 ?content"
    have slot: "mem_read ?slot 0 (length ?content) = ?content"
      by simp
    obtain rc' old where rc': "InsertToCache name ?content ?rc = Inr rc'" "rc_inv rc'"
        "rc_lookup rc' = (case rc_victim ?rc of None \<Rightarrow> rc_lookup ?rc | Some v \<Rightarrow> (rc_lookup ?rc)(v := None))
           (name \<mapsto> mem_write old 0 ?content)"
      using InsertToCache_new [OF inv None len(2)] by blast
    have "cache_ok C rc'"
      using cache rc'(2,3) C holds_container_write [OF hk, of old]
      by (auto simp: cache_ok_def split: option.splits if_splits)
    moreover have "\<not> ExistsInCache name ?rc"
      using ExistsInCache_lookup [OF inv] None by simp
    moreover have "holds_container ?slot es"
      using holds_container_write [OF hk] .
    ultimately show ?thesis
      using rc'(1) i name rd whole len slot
      by (simp add: get_container_def Let_def split_beta) (auto simp: decoder_for_def)
  qed
qed

section \<open>Properties of the container format\<close>

lemma index_of_slot:
  assumes h: "holds_container (bs 0) es" and ok: "container_ok es"
  shows "\<exists>idx. IndexConstruct bs 1 0 Map.empty = Inr idx \<and> dom idx = fst ` set es \<and> (\<forall>(h, d) \<in> set es. finds (bs 0) idx h d)"
proof -
  have "IndexConstruct bs (length [es]) 0 Map.empty = Inr (ridx_all [es] Map.empty)"
    using h ok by (intro IndexConstruct_eq) simp
  moreover have "finds (bs 0) (ridx_all [es] Map.empty) h d" if "(h, d) \<in> set es" for h d
    using ridx_finds [OF h ok that] by simp
  moreover have "x \<in> fst ` set es" if "x \<in> dom (ridx_all [es] Map.empty)" for x
    using that ridx_notin [of x es "40 * length es + 4" Map.empty] by (cases "x \<in> fst ` set es") (auto simp: domIff)
  ultimately show ?thesis
    by (intro exI [of _ "ridx_all [es] Map.empty"]) (force simp: finds_def)
qed

text \<open>A container that was written to its file and is requested in slot 0 of a decoder whose cache does not hold it.\<close>

lemma get_written_container:
  assumes f: "files fs (container_file cfg name) = Some (file_enc (of_nat (length es)) es)" and ok: "container_ok es"
    and rd: "decoder_for cfg rd" and rc: "rc_inv (cv_containerCache dv)" "rc_lookup (cv_containerCache dv) name = None"
    and slot: "mem_read (rq_idBuffer (cv_reqContainer dv)) 0 CONTAINER_ID_LENGTH = name" and one: "rq_idNum (cv_reqContainer dv) = 1"
  shows "\<exists>rd' dv'. GetReqContainers rd dv fs = Inr (rd', dv') \<and> holds_container (rq_containerArray (cv_reqContainer dv') 0) es"
proof -
  have disk: "on_disk cfg fs [name \<mapsto> es]" and cache: "cache_ok [name \<mapsto> es] (cv_containerCache dv)"
    using f ok rc by (simp_all add: on_disk_def cache_ok_def)
  have "\<exists>rd' rc b. get_container 0 rd dv fs = Inr (rd', dv\<lparr>cv_containerCache := rc, cv_reqContainer := (cv_reqContainer dv)
       \<lparr>rq_containerArray := (rq_containerArray (cv_reqContainer dv))(0 := b)\<rparr>\<rparr>) \<and>
     decoder_for cfg rd' \<and> cache_ok [name \<mapsto> es] rc \<and> holds_container b es"
    by (rule get_container_spec [OF disk cache rd]) (simp_all add: slot CONTAINER_CAPPING_VALUE_def)
  then show ?thesis
    using one by (auto simp: GetReqContainers_def)
qed

text \<open>C11: What the storage core packs and the writer puts on disk, the decoder fetches and unpacks. The container in memory
  holds the chunks \<open>es\<close> (with different hashes) and its counter started at 0. Then \<open>Ocall_WriteContainer\<close> pushes a
  container, \<open>SaveToFile\<close> writes it to its file, and a decoder that asks for its name in slot 0, with a cache that does not
  have it, gets it back from that file: \<open>GetReqContainers\<close> returns, and \<open>IndexConstruct\<close> parses what it left in the slot
  into an index that has exactly the hashes of \<open>es\<close> and leads from each of them to its chunk.\<close>

theorem container_roundtrip:
  assumes rep: "cont_rep 0 (cv_curContainer cv) es" and dist: "distinct (map fst es)"
    and small: "\<forall>(h, d) \<in> set es. length d \<le> MAX_CHUNK_SIZE"
    and name: "ic_containerID (cv_curContainer cv) = name" and op: "openable fs (container_file cfg name)"
    and rd: "decoder_for cfg rd" and rc: "rc_inv (cv_containerCache dv)" "rc_lookup (cv_containerCache dv) name = None"
    and slot: "mem_read (rq_idBuffer (cv_reqContainer dv)) 0 CONTAINER_ID_LENGTH = name" and one: "rq_idNum (cv_reqContainer dv) = 1"
  shows "\<exists>cv' w' fs' rd' dv' idx. Ocall_WriteContainer cv w = Inr (cv', w') \<and>
     SaveToFile (DataWriter_new cfg) (last (cv_pushed cv')) fs = Inr fs' \<and>
     GetReqContainers rd dv fs' = Inr (rd', dv') \<and>
     IndexConstruct (rq_containerArray (cv_reqContainer dv')) 1 0 Map.empty = Inr idx \<and>
     dom idx = fst ` set es \<and> (\<forall>(h, d) \<in> set es. finds (rq_containerArray (cv_reqContainer dv') 0) idx h d)"
proof -
  let ?file = "file_enc (of_nat (length es)) es"
  obtain k w' where fl: "Ocall_WriteContainer cv w = Inr (cv\<lparr>cv_pushed := cv_pushed cv @ [k]\<rparr>, w')"
      and k: "ct_containerID k = name" "ct_bytes k = ?file"
    using Ocall_WriteContainer_spec [OF rep, of w] name by auto
  have ok: "container_ok es"
    using rep dist small by (simp add: container_ok_def cont_rep_def)
  then have "length (ct_bytes k) \<le> MAX_CONTAINER_SIZE"
    using k(2) length_file_enc [of es] by (simp add: container_ok_def)
  then have size: "unat (ct_currentSize k) \<le> MAX_CONTAINER_SIZE"
    by (simp add: ct_bytes_def)
  define fs' where "fs' = fs\<lparr>files := (files fs)(container_file cfg name \<mapsto> ?file)\<rparr>"
  have save: "SaveToFile (DataWriter_new cfg) k fs = Inr fs'"
    using SaveToFile_ok [of "DataWriter_new cfg" cfg k fs fs'] k op size by (simp add: DataWriter_new_def fs'_def)
  obtain rd' dv' where get: "GetReqContainers rd dv fs' = Inr (rd', dv')"
      "holds_container (rq_containerArray (cv_reqContainer dv') 0) es"
    using get_written_container [OF _ ok rd rc slot one, of fs'] by (auto simp: fs'_def)
  show ?thesis
    using fl save get(1) index_of_slot [of "rq_containerArray (cv_reqContainer dv')", OF get(2) ok] by fastforce
qed

theorem container_roundtrip_witness:
  "\<exists>name cv1 w1 cv2 w2 fs rd dv idx.
     WriteContainer [5, 6] (replicate 32 1) (demo_client \<lparr>sendBuffer = (\<lambda>_. 0), sb_size = 16\<rparr>) demo_world = Inr (name, cv1, w1) \<and>
     Ocall_WriteContainer cv1 w1 = Inr (cv2, w2) \<and>
     SaveToFile (DataWriter_new demo_cfg) (last (cv_pushed cv2)) (w_fs demo_world) = Inr fs \<and>
     GetReqContainers (AbsRecvDecoder_new demo_cfg) ((demo_client \<lparr>sendBuffer = (\<lambda>_. 0), sb_size = 16\<rparr>)\<lparr>cv_reqContainer :=
         \<lparr>rq_idBuffer = mem_write (\<lambda>_. 0) 0 (str ''abcdefgh''), rq_containerArray = (\<lambda>_ _. 0), rq_idNum = 1\<rparr>\<rparr>) fs = Inr (rd, dv) \<and>
     IndexConstruct (rq_containerArray (cv_reqContainer dv)) 1 0 Map.empty = Inr idx \<and>
     finds (rq_containerArray (cv_reqContainer dv) 0) idx (replicate 32 1) [5, 6]"
proof -
  let ?cv = "demo_client \<lparr>sendBuffer = (\<lambda>_. 0), sb_size = 16\<rparr>"
  let ?dv = "?cv\<lparr>cv_reqContainer := \<lparr>rq_idBuffer = mem_write (\<lambda>_. 0) 0 (str ''abcdefgh''), rq_containerArray = (\<lambda>_ _. 0), rq_idNum = 1\<rparr>\<rparr>"
  have "cont_rep 0 (cv_curContainer ?cv) []"
    by (simp add: cont_rep_def demo_client_def MAX_CONTAINER_SIZE_def)
  moreover have "length (replicate 32 (1 :: u8)) = CHUNK_HASH_SIZE" "file_size [] + 40 + length [5, 6 :: u8] < MAX_CONTAINER_SIZE"
    by (simp_all add: CHUNK_HASH_SIZE_def MAX_CONTAINER_SIZE_def)
  ultimately obtain c' where c': "WriteContainer [5, 6] (replicate 32 1) ?cv demo_world
      = Inr (ic_containerID (cv_curContainer ?cv), ?cv\<lparr>cv_curContainer := c'\<rparr>, demo_world)"
      "cont_rep 0 c' ([] @ [(replicate 32 1, [5, 6])])" "ic_containerID c' = ic_containerID (cv_curContainer ?cv)"
    using WriteContainer_room by blast
  let ?es = "[] @ [(replicate 32 1, [5, 6])] :: (bytes \<times> bytes) list"
  have rep: "cont_rep 0 (cv_curContainer (?cv\<lparr>cv_curContainer := c'\<rparr>)) ?es"
    using c'(2) by simp
  have es: "distinct (map fst ?es)" "\<forall>(h, d) \<in> set ?es. length d \<le> MAX_CHUNK_SIZE"
    by (simp_all add: MAX_CHUNK_SIZE_def)
  have name: "ic_containerID (cv_curContainer (?cv\<lparr>cv_curContainer := c'\<rparr>)) = str ''abcdefgh''"
    using c'(3) by (simp add: demo_client_def)
  have dec: "openable (w_fs demo_world) (container_file demo_cfg (str ''abcdefgh''))" "decoder_for demo_cfg (AbsRecvDecoder_new demo_cfg)"
    by (simp_all add: demo_world_def decoder_for_def AbsRecvDecoder_new_def GetSendChunkBatchSize_def)
  have "rc_inv (ReadCache_new demo_cfg (\<lambda>_ _. 0))"
    by (rule rc_inv_new) (simp_all add: GetReadCacheSize_def demo_cfg_def)
  then have cache: "rc_inv (cv_containerCache ?dv)" "rc_lookup (cv_containerCache ?dv) (str ''abcdefgh'') = None"
    by (simp_all add: demo_client_def rc_lookup_def ReadCache_new_def lru_abs_new)
  have req: "mem_read (rq_idBuffer (cv_reqContainer ?dv)) 0 CONTAINER_ID_LENGTH = str ''abcdefgh''" "rq_idNum (cv_reqContainer ?dv) = 1"
    by (simp_all add: CONTAINER_ID_LENGTH_def mem_read_write_same' str_def)
  show ?thesis
    using container_roundtrip [OF rep es name dec cache req, of demo_world] c'(1) by fastforce
qed

text \<open>C32: The counter of the first container of a connection is never initialised: the constructor keeps the value
  \<open>b0\<close> that the memory held, and the number of chunks that the decoder reads back from that container is too
  large by \<open>b0\<close>, so that it looks for the chunks \<open>40 * b0\<close> bytes behind their place.\<close>

theorem uninitialised_counter:
  assumes new: "ClientVar_new cfg pool raw cid (opt_code UPLOAD_OPT) rp sp kp fsz tot w = Inr (cv, w1)"
    and cur: "cv_curContainer cv2 = cur" "cont_rep (ic_chunkNum (cv_curContainer cv)) cur es"
    and flush: "Ocall_WriteContainer cv2 w2 = Inr (cv3, w3)" and b: "b = mem_write m 0 (ct_bytes (last (cv_pushed cv3)))"
    and small: "unat (ic_chunkNum (cv_curContainer raw)) + length es < 2 ^ 31"
  shows "container_chunkNum b = of_nat (unat (ic_chunkNum (cv_curContainer raw)) + length es)"
proof -
  let ?b0 = "ic_chunkNum (cv_curContainer raw)"
  have "ic_chunkNum (cv_curContainer cv) = ?b0"
    using new by (auto simp: ClientVar_new_def InitUploadBuffer_def init_recipes_def Let_def split_beta bindR_eq_Inr opt_code_def)
  then have rep: "cont_rep ?b0 (cv_curContainer cv2) es"
    using cur by simp
  obtain k where k: "cv3 = cv2\<lparr>cv_pushed := cv_pushed cv2 @ [k]\<rparr>" "ct_bytes k = file_enc (?b0 + of_nat (length es)) es"
    using Ocall_WriteContainer_spec [OF rep, of w2] flush by auto
  have "mem_read b 0 (4 + length (hdr_enc 0 es @ body_enc es)) = be32_enc (?b0 + of_nat (length es)) @ hdr_enc 0 es @ body_enc es"
    using k b by (simp add: file_enc_def mem_read_write_same')
  then have "mem_read b 0 4 = be32_enc (?b0 + of_nat (length es))"
    by (rule mem_read_split(1)) simp
  then have n: "be32_at b 0 = of_nat (unat ?b0 + length es)"
    by (simp add: be32_at_read)
  have "sint (of_nat (unat ?b0 + length es) :: u32) = int (unat ?b0 + length es)"
    using small by (rule sint_of_nat_u32)
  then show ?thesis
    unfolding container_chunkNum_def n by (metis of_int_of_nat_eq of_int_sint scast_eq)
qed

theorem uninitialised_counter_witness:
  "\<exists>cv w1 cv3 w3. ClientVar_new demo_cfg (\<lambda>_ _. 0) ((demo_client \<lparr>sendBuffer = (\<lambda>_. 0), sb_size = 16\<rparr>)
        \<lparr>cv_curContainer := (cv_curContainer (demo_client \<lparr>sendBuffer = (\<lambda>_. 0), sb_size = 16\<rparr>))\<lparr>ic_chunkNum := 5\<rparr>\<rparr>) 3
       (opt_code UPLOAD_OPT) [1] [2] [3] 100 1 demo_world = Inr (cv, w1) \<and>
     Ocall_WriteContainer cv w1 = Inr (cv3, w3) \<and>
     container_chunkNum (mem_write (\<lambda>_. 0) 0 (ct_bytes (last (cv_pushed cv3)))) = 5"
proof -
  let ?raw = "(demo_client \<lparr>sendBuffer = (\<lambda>_. 0), sb_size = 16\<rparr>)
        \<lparr>cv_curContainer := (cv_curContainer (demo_client \<lparr>sendBuffer = (\<lambda>_. 0), sb_size = 16\<rparr>))\<lparr>ic_chunkNum := 5\<rparr>\<rparr>"
  obtain cv w1 where new: "ClientVar_new demo_cfg (\<lambda>_ _. 0) ?raw 3 (opt_code UPLOAD_OPT) [1] [2] [3] 100 1 demo_world = Inr (cv, w1)"
    using upload_new_cases [where rp = "[1]" and kp = "[3]" and sp = "[2]" and cfg = demo_cfg and pool = "\<lambda>_ _. 0"
        and raw = ?raw and cid = 3 and fsz = 100 and tot = 1 and w = demo_world]
    by (auto simp: demo_world_def c_path_def split: sum.splits)
  then have "ic_currentBodySize (cv_curContainer cv) = 0" "ic_currentHeaderSize (cv_curContainer cv) = 0"
    by (auto simp: ClientVar_new_def InitUploadBuffer_def init_recipes_def Let_def split_beta bindR_eq_Inr opt_code_def)
  then have rep: "cont_rep (ic_chunkNum (cv_curContainer cv)) (cv_curContainer cv) []"
    by (simp add: cont_rep_def MAX_CONTAINER_SIZE_def)
  obtain cv3 w3 where fl: "Ocall_WriteContainer cv w1 = Inr (cv3, w3)"
    using Ocall_WriteContainer_spec [OF rep] by blast
  have "container_chunkNum (mem_write (\<lambda>_. 0) 0 (ct_bytes (last (cv_pushed cv3)))) = of_nat (unat (ic_chunkNum (cv_curContainer ?raw)) + length ([] :: (bytes \<times> bytes) list))"
    by (rule uninitialised_counter [OF new refl rep fl refl]) simp
  then show ?thesis
    using new fl by auto
qed

end
