(* ===== verification/Restore_Session.thy ===== *)
theory Restore_Session
  imports Recv_Decoder
begin

text \<open>
  Correctness of a restore session of \<open>RecvDecoder\<close>: the groups of at most \<open>CONTAINER_CAPPING_VALUE\<close>
  containers, the batches of at most 256 chunks, and the message loop. The lemmas are proved for every index that meets the
  contract \<open>key_value_store\<close>; the properties are their instances for the in-memory database.
\<close>

abbreviation slot_name :: "ClientVar \<Rightarrow> nat \<Rightarrow> bytes" where
  "slot_name cv k \<equiv> mem_read (rq_idBuffer (cv_reqContainer cv)) (k * CONTAINER_ID_LENGTH) CONTAINER_ID_LENGTH"

lemma get_containers_spec:
  assumes "on_disk cfg fs C" and "cache_ok C (cv_containerCache cv)" and "decoder_for cfg rd"
    and "i + n \<le> CONTAINER_CAPPING_VALUE" and "\<forall>k. i \<le> k \<longrightarrow> k < i + n \<longrightarrow> C (slot_name cv k) \<noteq> None"
  shows "\<exists>rd' rc arr. get_containers n i rd cv fs = Inr (rd', cv\<lparr>cv_containerCache := rc, cv_reqContainer := (cv_reqContainer cv)
       \<lparr>rq_containerArray := arr\<rparr>\<rparr>) \<and> decoder_for cfg rd' \<and> cache_ok C rc \<and>
     (\<forall>k. i \<le> k \<longrightarrow> k < i + n \<longrightarrow> holds_container (arr k) (the (C (slot_name cv k)))) \<and>
     (\<forall>k < i. arr k = rq_containerArray (cv_reqContainer cv) k)"
  using assms
proof (induction n arbitrary: i rd cv)
  case 0
  then show ?case
    by (intro exI [of _ rd] exI [of _ "cv_containerCache cv"] exI [of _ "rq_containerArray (cv_reqContainer cv)"]) simp
next
  case (Suc n)
  obtain es where es: "C (slot_name cv i) = Some es"
    using Suc.prems(5) by fastforce
  have i: "i < CONTAINER_CAPPING_VALUE"
    using Suc.prems(4) by simp
  obtain rd1 rc1 b where one: "get_container i rd cv fs = Inr (rd1, cv\<lparr>cv_containerCache := rc1, cv_reqContainer := (cv_reqContainer cv)
       \<lparr>rq_containerArray := (rq_containerArray (cv_reqContainer cv))(i := b)\<rparr>\<rparr>)"
      "decoder_for cfg rd1" "cache_ok C rc1" "holds_container b es"
    using get_container_spec [OF Suc.prems(1-3) i refl es] by blast
  let ?cv1 = "cv\<lparr>cv_containerCache := rc1, cv_reqContainer := (cv_reqContainer cv)
       \<lparr>rq_containerArray := (rq_containerArray (cv_reqContainer cv))(i := b)\<rparr>\<rparr>"
  obtain rd' rc arr where rest: "get_containers n (Suc i) rd1 ?cv1 fs = Inr (rd', ?cv1\<lparr>cv_containerCache := rc,
        cv_reqContainer := (cv_reqContainer ?cv1)\<lparr>rq_containerArray := arr\<rparr>\<rparr>)" "decoder_for cfg rd'" "cache_ok C rc"
      "\<forall>k. Suc i \<le> k \<longrightarrow> k < Suc i + n \<longrightarrow> holds_container (arr k) (the (C (slot_name ?cv1 k)))"
      "\<forall>k < Suc i. arr k = rq_containerArray (cv_reqContainer ?cv1) k"
    using Suc.IH [OF Suc.prems(1) _ one(2), of ?cv1 "Suc i"] one(3) Suc.prems(4,5) by auto
  have "holds_container (arr k) (the (C (slot_name cv k)))" if k: "i \<le> k" "k < i + Suc n" for k
  proof (cases "k = i")
    case True
    then show ?thesis
      using rest(5) one(4) es by simp
  next
    case False
    then show ?thesis
      using rest(4) k by simp
  qed
  then show ?case
    using one(1) rest by (intro exI [of _ rd'] exI [of _ rc] exI [of _ arr]) auto
qed

section \<open>Filling and sending the chunk buffer\<close>

definition send_buf_size :: nat where
  "send_buf_size = sizeof_NetworkHead + 256 * sizeof_Chunk"

definition buf_has :: "u32 \<Rightarrow> bytes list \<Rightarrow> SendMsgBuffer_t \<Rightarrow> bool" where
  "buf_has cid ds b \<longleftrightarrow> sb_size b = send_buf_size \<and> clientID (header b) = cid \<and>
     dataSize (header b) = of_nat (length (chunks_enc ds)) \<and> currentItemNum (header b) = of_nat (length ds) \<and>
     data_read b 0 (length (chunks_enc ds)) = chunks_enc ds"

definition chunk_frame :: "EDGE_PROTCOL_CODE_SET \<Rightarrow> u32 \<Rightarrow> bytes list \<Rightarrow> bytes" where
  "chunk_frame t cid ds = nh_enc \<lparr>messageType = edge_code t, clientID = cid,
     dataSize = of_nat (length (chunks_enc ds)), currentItemNum = of_nat (length ds)\<rparr> @ chunks_enc ds"

definition sendable :: "bytes list \<Rightarrow> bool" where
  "sendable ds \<longleftrightarrow> length ds \<le> 256 \<and> list_all (\<lambda>d. length d \<le> MAX_CHUNK_SIZE) ds"

lemma chunks_enc_append: "chunks_enc (ds @ ds') = chunks_enc ds @ chunks_enc ds'"
  by (induction ds) auto

lemma length_chunks_enc: "list_all (\<lambda>d. length d \<le> MAX_CHUNK_SIZE) ds \<Longrightarrow> length (chunks_enc ds) \<le> length ds * sizeof_Chunk"
  by (induction ds) (auto simp: sizeof_Chunk_def)

lemma sendable_size: "sendable ds \<Longrightarrow> length (chunks_enc ds) \<le> 256 * sizeof_Chunk"
  using length_chunks_enc [of ds] mult_le_mono1 [of "length ds" 256 sizeof_Chunk]
  unfolding sendable_def by (meson le_trans)

lemma sendable_unat: "sendable ds \<Longrightarrow> unat (of_nat (length (chunks_enc ds)) :: u32) = length (chunks_enc ds)"
  using sendable_size [of ds] by (intro unat_of_nat_u32) (simp add: const_simps)

lemma send_buf_bytes:
  "mem_read (sendBuffer b) 0 (sizeof_NetworkHead + n) = mem_read (sendBuffer b) 0 sizeof_NetworkHead @ data_read b 0 n"
  by (simp add: mem_read_add data_read_def)

lemma SendBatchChunks_spec:
  fixes t :: EDGE_PROTCOL_CODE_SET
  assumes laws: "ssl_laws api inc out" and b: "buf_has cid ds b" and ds: "sendable ds"
  defines "b1 \<equiv> set_header ((header b)\<lparr>messageType := edge_code t\<rparr>) b"
  shows "\<exists>c'. SendBatchChunks api b1 c = Some (Inr c') \<and> out c' = out c @ sent_frame (chunk_frame t cid ds) \<and> inc c' = inc c"
proof -
  have u: "unat (dataSize (header b1)) = length (chunks_enc ds)"
    using b sendable_unat [OF ds] by (simp add: b1_def buf_has_def)
  have fr: "mem_read (sendBuffer b1) 0 (sizeof_NetworkHead + length (chunks_enc ds)) = chunk_frame t cid ds"
    using b unfolding send_buf_bytes by (cases "header b") (simp add: b1_def header_bytes chunk_frame_def buf_has_def)
  have "sizeof_NetworkHead + length (chunks_enc ds) \<le> sb_size b1"
    using sendable_size [OF ds] b by (simp add: b1_def buf_has_def send_buf_size_def)
  moreover have "length (chunk_frame t cid ds) < 2 ^ 31"
    using sendable_size [OF ds] by (simp add: chunk_frame_def const_simps)
  then obtain c' where "SendData api c (chunk_frame t cid ds) = Some (True, c')"
      "out c' = out c @ sent_frame (chunk_frame t cid ds)" "inc c' = inc c"
    using SendData_law [OF laws] by blast
  ultimately show ?thesis
    using u fr by (simp add: SendBatchChunks_def)
qed

lemma flush_chunks_spec:
  assumes laws: "ssl_laws api inc out" and b: "buf_has cid ds b" and ds: "sendable ds"
  shows "\<exists>b' c'. flush_chunks api b c = Some (Inr (b', c')) \<and> buf_has cid [] b' \<and>
     out c' = out c @ sent_frame (chunk_frame CLOUD_SEND_CHUNK cid ds) \<and> inc c' = inc c"
proof -
  obtain c' where c': "SendBatchChunks api (set_header ((header b)\<lparr>messageType := edge_code CLOUD_SEND_CHUNK\<rparr>) b) c = Some (Inr c')"
      "out c' = out c @ sent_frame (chunk_frame CLOUD_SEND_CHUNK cid ds)" "inc c' = inc c"
    using SendBatchChunks_spec [OF laws b ds] by blast
  then show ?thesis
    using b by (simp add: flush_chunks_def Let_def buf_has_def data_read_def)
qed

lemma RecoverOneChunk_spec:
  assumes b: "buf_has cid ds b" and ds: "sendable (ds @ [d])"
    and e: "de_chunkSize e = of_nat (length d)" "unat (de_chunkOffset e) + length d \<le> MAX_CONTAINER_SIZE"
      "mem_read content (unat (de_chunkOffset e)) (length d) = d"
  shows "\<exists>b'. RecoverOneChunk e content b = Inr b' \<and> buf_has cid (ds @ [d]) b'"
proof -
  let ?n = "length (chunks_enc ds)"
  have sd: "sendable ds"
    using ds by (simp add: sendable_def)
  have d: "length d \<le> 16384"
    using ds by (simp add: sendable_def MAX_CHUNK_SIZE_def)
  then have ud: "unat (of_nat (length d) :: u32) = length d"
    by (intro unat_of_nat_u32) simp
  have un: "unat (dataSize (header b)) = ?n"
    using b sendable_unat [OF sd] by (simp add: buf_has_def)
  have "?n + 4 + length d \<le> data_size b"
    using sendable_size [OF ds] b by (simp add: chunks_enc_append buf_has_def data_size_def send_buf_size_def const_simps)
  then have g: "?n + 4 + length d \<le> data_size b \<and> unat (de_chunkOffset e) + length d \<le> MAX_CONTAINER_SIZE"
    using e(2) by simp
  let ?x = "le_enc 4 (of_nat (length d) :: u32) @ d"
  have eqb: "data_write (data_write b ?n (le_enc 4 (of_nat (length d) :: u32))) (?n + 4) d = data_write b ?n ?x"
    by (simp add: data_write_def mem_write_append add.assoc)
  have "data_read (data_write b ?n x) 0 (?n + length x) = data_read b 0 ?n @ x" for x
    by (simp add: data_read_def data_write_def mem_read_add mem_read_write_disjoint)
  from this [of ?x] have rd: "data_read (data_write b ?n ?x) 0 (?n + (4 + length d)) = chunks_enc ds @ ?x"
    using b by (simp add: buf_has_def del: le_enc.simps)
  define b' where "b' = set_header ((header b)\<lparr>dataSize := dataSize (header b) + (4 + de_chunkSize e),
     currentItemNum := currentItemNum (header b) + 1\<rparr>) (data_write b ?n ?x)"
  have "RecoverOneChunk e content b = Inr b'"
    unfolding RecoverOneChunk_def Let_def un e(1) ud e(3) eqb b'_def using g by (simp del: le_enc.simps)
  moreover have "buf_has cid (ds @ [d]) b'"
    using b rd e(1) unfolding buf_has_def b'_def by (simp add: chunks_enc_append del: le_enc.simps)
  ultimately show ?thesis
    by blast
qed

text \<open>How far the batch has got: up to 255 chunks wait in the buffer, the 256th sends them.\<close>

definition batch_state :: "('s \<Rightarrow> bytes list) \<Rightarrow> ('s \<Rightarrow> bytes list) \<Rightarrow> u32 \<Rightarrow> 's \<Rightarrow> bytes list \<Rightarrow> SendMsgBuffer_t \<Rightarrow> 's \<Rightarrow> bool" where
  "batch_state inc out cid c0 ds b c \<longleftrightarrow> inc c = inc c0 \<and>
     (if length ds < 256 then buf_has cid ds b \<and> out c = out c0
      else buf_has cid [] b \<and> out c = out c0 @ sent_frame (chunk_frame CLOUD_SEND_CHUNK cid ds))"

lemma batch_full_iff:
  assumes "buf_has cid ds b" and "decoder_for cfg rd" and "length ds \<le> 256"
  shows "batch_full rd b \<longleftrightarrow> length ds = 0 \<or> length ds = 256"
proof -
  have n: "(ucast (of_nat (length ds) :: u32) :: u64) = of_nat (length ds)"
    using assms(3) by (intro ucast_of_nat_u32) simp
  have "unat ((of_nat (length ds) :: u64) mod 256) = length ds mod 256"
    using assms(3) by (simp add: unat_mod unat_of_nat_u64)
  then have "(of_nat (length ds) :: u64) mod 256 = 0 \<longleftrightarrow> length ds mod 256 = 0"
    by (metis unat_0 unat_eq_zero)
  moreover have "length ds mod 256 = 0 \<longleftrightarrow> length ds = 0 \<or> length ds = 256"
    using assms(3) by (cases "length ds = 256") auto
  ultimately show ?thesis
    using assms n by (simp add: batch_full_def buf_has_def decoder_for_def)
qed

lemma sendable_take: "sendable ds \<Longrightarrow> sendable (take n ds)"
  by (auto simp: sendable_def list_all_iff dest: in_set_takeD)

lemma push_chunk:
  assumes laws: "ssl_laws api inc out" and rd: "decoder_for cfg rd" and st: "batch_state inc out cid c0 (take s ds) b c"
    and s: "s < length ds" and ds: "sendable ds" and b': "RecoverOneChunk e content b = Inr b'"
    and f: "de_chunkSize e = of_nat (length (ds ! s))" "unat (de_chunkOffset e) + length (ds ! s) \<le> MAX_CONTAINER_SIZE"
      "mem_read content (unat (de_chunkOffset e)) (length (ds ! s)) = ds ! s"
  shows "\<exists>b2 c2. (if batch_full rd b' then flush_chunks api b' c else Some (Inr (b', c))) = Some (Inr (b2, c2)) \<and>
     batch_state inc out cid c0 (take (Suc s) ds) b2 c2"
proof -
  have len: "length ds \<le> 256" "length (take s ds) = s"
    using ds s by (simp_all add: sendable_def)
  have has: "buf_has cid (take s ds) b" and oc: "out c = out c0" "inc c = inc c0"
    using st s len by (simp_all add: batch_state_def split: if_splits)
  have tk: "take (Suc s) ds = take s ds @ [ds ! s]"
    using s by (rule take_Suc_conv_app_nth)
  have sd: "sendable (take s ds @ [ds ! s])"
    using sendable_take [OF ds, of "Suc s"] tk by simp
  have b'': "buf_has cid (take (Suc s) ds) b'"
    using RecoverOneChunk_spec [OF has sd f] b' tk by auto
  have lt: "length (take (Suc s) ds) = Suc s"
    using s by simp
  note full = batch_full_iff [OF b'' rd]
  show ?thesis
  proof (cases "Suc s = 256")
    case True
    then obtain b2 c2 where "flush_chunks api b' c = Some (Inr (b2, c2))" "buf_has cid [] b2"
        "out c2 = out c @ sent_frame (chunk_frame CLOUD_SEND_CHUNK cid (take (Suc s) ds))" "inc c2 = inc c"
      using flush_chunks_spec [OF laws b'' sendable_take [OF ds]] by blast
    then show ?thesis
      using True full lt oc by (simp add: batch_state_def)
  next
    case False
    then have "\<not> batch_full rd b'" "Suc s < 256"
      using full lt s len by simp_all
    then show ?thesis
      using b'' oc lt by (simp add: batch_state_def)
  qed
qed

text \<open>The entries keep hash and container name.\<close>

definition same_keys :: "(nat \<Rightarrow> DownloadChunkEntry_t) \<Rightarrow> (nat \<Rightarrow> DownloadChunkEntry_t) \<Rightarrow> bool" where
  "same_keys a b \<longleftrightarrow> (\<forall>j. de_chunkHash (a j) = de_chunkHash (b j) \<and> de_containerName (a j) = de_containerName (b j))"

lemma same_keys_trans: "same_keys a b \<Longrightarrow> same_keys b c \<Longrightarrow> same_keys a c"
  by (simp add: same_keys_def)

lemma send_entries_spec:
  assumes "ssl_laws api inc out" and "decoder_for cfg rd" and "sendable ds"
    and "batch_state inc out cid c0 (take s ds) (cv_sendChunkBuf cv) c" and "s + n \<le> length ds"
    and "\<forall>j. s \<le> j \<longrightarrow> j < s + n \<longrightarrow> finds (rq_containerArray (cv_reqContainer cv) (unat (de_containerID (cv_downloadChunkBase cv j))))
           idx (de_chunkHash (cv_downloadChunkBase cv j)) (ds ! j)"
  shows "\<exists>base b c'. send_entries api rd idx n s cv c = Some (Inr (cv\<lparr>cv_downloadChunkBase := base, cv_sendChunkBuf := b\<rparr>, c')) \<and>
     batch_state inc out cid c0 (take (s + n) ds) b c' \<and> same_keys (cv_downloadChunkBase cv) base"
  using assms(4-)
proof (induction n arbitrary: s cv c)
  case 0
  then show ?case
    by (intro exI [of _ "cv_downloadChunkBase cv"] exI [of _ "cv_sendChunkBuf cv"] exI [of _ c]) (simp add: same_keys_def)
next
  case (Suc n)
  let ?e0 = "cv_downloadChunkBase cv s"
  let ?content = "rq_containerArray (cv_reqContainer cv) (unat (de_containerID ?e0))"
  have s: "s < length ds"
    using Suc.prems(2) by simp
  obtain r where r: "idx (de_chunkHash ?e0) = Some r" "re_length r = of_nat (length (ds ! s))"
      "unat (re_offset r) + length (ds ! s) \<le> MAX_CONTAINER_SIZE" "mem_read ?content (unat (re_offset r)) (length (ds ! s)) = ds ! s"
    using Suc.prems(3) unfolding finds_def by fastforce
  let ?e = "?e0\<lparr>de_chunkOffset := re_offset r, de_chunkSize := re_length r\<rparr>"
  have ef: "de_chunkSize ?e = of_nat (length (ds ! s))" "unat (de_chunkOffset ?e) + length (ds ! s) \<le> MAX_CONTAINER_SIZE"
      "mem_read ?content (unat (de_chunkOffset ?e)) (length (ds ! s)) = ds ! s"
    using r by simp_all
  have "buf_has cid (take s ds) (cv_sendChunkBuf cv)"
    using Suc.prems(1) s assms(3) by (simp add: batch_state_def sendable_def split: if_splits)
  moreover have "sendable (take s ds @ [ds ! s])"
    using sendable_take [OF assms(3), of "Suc s"] take_Suc_conv_app_nth [OF s] by simp
  ultimately obtain b1 where b1: "RecoverOneChunk ?e ?content (cv_sendChunkBuf cv) = Inr b1"
    using RecoverOneChunk_spec [OF _ _ ef] by blast
  obtain b2 c2 where b2: "(if batch_full rd b1 then flush_chunks api b1 c else Some (Inr (b1, c))) = Some (Inr (b2, c2))"
      "batch_state inc out cid c0 (take (Suc s) ds) b2 c2"
    using push_chunk [OF assms(1,2) Suc.prems(1) s assms(3) b1 ef] by blast
  let ?cv1 = "cv\<lparr>cv_downloadChunkBase := (cv_downloadChunkBase cv)(s := ?e), cv_sendChunkBuf := b2\<rparr>"
  have "send_entries api rd idx (Suc n) s cv c = send_entries api rd idx n (Suc s) ?cv1 c2"
    using r(1) b1 b2(1) by (simp add: Let_def)
  moreover have "\<exists>base b c'. send_entries api rd idx n (Suc s) ?cv1 c2 = Some (Inr (?cv1\<lparr>cv_downloadChunkBase := base, cv_sendChunkBuf := b\<rparr>, c')) \<and>
     batch_state inc out cid c0 (take (Suc s + n) ds) b c' \<and> same_keys (cv_downloadChunkBase ?cv1) base"
    using Suc.prems(2,3) b2(2) by (intro Suc.IH) auto
  moreover have "same_keys (cv_downloadChunkBase cv) (cv_downloadChunkBase ?cv1)"
    by (simp add: same_keys_def)
  ultimately show ?case
    by (auto intro: same_keys_trans)
qed

section \<open>Serving a group\<close>

text \<open>The containers hold each hash at most once.\<close>

definition hashes_apart :: "containers \<Rightarrow> bool" where
  "hashes_apart C \<longleftrightarrow> (\<forall>n n' es es'. C n = Some es \<longrightarrow> C n' = Some es' \<longrightarrow> n \<noteq> n' \<longrightarrow> fst ` set es \<inter> fst ` set es' = {})"

text \<open>The entries \<open>start\<close> to \<open>i - 1\<close> wait for their containers; \<open>ns\<close> are the names in the identifier buffer.\<close>

definition group_state :: "bytes list \<Rightarrow> bytes list \<Rightarrow> nat \<Rightarrow> nat \<Rightarrow> bytes list \<Rightarrow> ClientVar \<Rightarrow> bool" where
  "group_state hs nm start i ns cv \<longleftrightarrow> distinct ns \<and> length ns \<le> CONTAINER_CAPPING_VALUE \<and>
     rq_idNum (cv_reqContainer cv) = of_nat (length ns) \<and> (\<forall>k < length ns. slot_name cv k = ns ! k) \<and>
     (\<forall>j < length hs. de_chunkHash (cv_downloadChunkBase cv j) = hs ! j \<and> de_containerName (cv_downloadChunkBase cv j) = nm ! j) \<and>
     set ns \<subseteq> set nm \<and>
     (\<forall>j. start \<le> j \<longrightarrow> j < i \<longrightarrow> unat (de_containerID (cv_downloadChunkBase cv j)) < length ns \<and>
        ns ! unat (de_containerID (cv_downloadChunkBase cv j)) = nm ! j)"

definition requests :: "containers \<Rightarrow> bytes list \<Rightarrow> bytes list \<Rightarrow> bytes list \<Rightarrow> bool" where
  "requests C hs nm ds \<longleftrightarrow> length nm = length hs \<and> length ds = length hs \<and>
     (\<forall>j < length hs. length (nm ! j) = CONTAINER_ID_LENGTH \<and> (\<exists>es. C (nm ! j) = Some es \<and> (hs ! j, ds ! j) \<in> set es))"

lemma group_names:
  assumes disk: "on_disk cfg fs C" and req: "requests C hs nm ds" and g: "group_state hs nm start i ns cv" and k: "k < length ns"
  shows "\<exists>es. C (ns ! k) = Some es \<and> container_ok es"
proof -
  have "ns ! k \<in> set nm"
    using g nth_mem [OF k] by (auto simp: group_state_def)
  then obtain m where "m < length hs" "ns ! k = nm ! m"
    using req by (auto simp: requests_def in_set_conv_nth)
  then show ?thesis
    using req disk by (fastforce simp: requests_def on_disk_def)
qed

lemma group_finds:
  assumes disk: "on_disk cfg fs C" and apart: "hashes_apart C" and req: "requests C hs nm ds"
    and g: "group_state hs nm start i ns cv" and i: "i \<le> length hs"
    and arr: "\<forall>k < length ns. holds_container (arr k) (the (C (ns ! k)))" and j: "start \<le> j" "j < i"
  shows "finds (arr (unat (de_containerID (cv_downloadChunkBase cv j)))) (ridx_all (map (the \<circ> C) ns) Map.empty) (hs ! j) (ds ! j)"
proof -
  let ?ess = "map (the \<circ> C) ns"
  define k where "k = unat (de_containerID (cv_downloadChunkBase cv j))"
  have k: "k < length ns" "ns ! k = nm ! j"
    using g j by (simp_all add: group_state_def k_def)
  note C = group_names [OF disk req g]
  have "\<forall>l < length ?ess. holds_container (arr (0 + l)) (?ess ! l) \<and> container_ok (?ess ! l)"
    using arr C by fastforce
  moreover have "fst ` set (?ess ! l) \<inter> fst ` set (?ess ! m) = {}" if lm: "l < length ?ess" "m < length ?ess" "l \<noteq> m" for l m
  proof -
    have ne: "ns ! l \<noteq> ns ! m"
      using g that by (simp add: group_state_def nth_eq_iff_index_eq)
    obtain e1 e2 where e: "C (ns ! l) = Some e1" "C (ns ! m) = Some e2"
      using C [of l] C [of m] lm by auto
    have "fst ` set e1 \<inter> fst ` set e2 = {}"
      using apart e ne unfolding hashes_apart_def by blast
    then show ?thesis
      using e that by simp
  qed
  moreover have "j < length hs"
    using j i by simp
  then obtain es where "C (ns ! k) = Some es" "(hs ! j, ds ! j) \<in> set es"
    using req k(2) unfolding requests_def by metis
  ultimately show ?thesis
    using ridx_all_finds [of ?ess arr 0 k "hs ! j" "ds ! j" Map.empty] k(1) by (simp add: k_def)
qed

lemma serve_group_spec:
  assumes laws: "ssl_laws api inc out" and rd: "decoder_for cfg rd" and disk: "on_disk cfg fs C" and apart: "hashes_apart C"
    and cache: "cache_ok C (cv_containerCache cv)" and req: "requests C hs nm ds" and ds: "sendable ds"
    and g: "group_state hs nm start (Suc i) ns cv" and i: "start \<le> i" "i < length hs"
    and st: "batch_state inc out cid c0 (take start ds) (cv_sendChunkBuf cv) c"
  shows "\<exists>rd' cv' c'. serve_group api lst start i fs rd cv c = Some (Inr (rd', cv', c')) \<and> decoder_for cfg rd' \<and>
     cache_ok C (cv_containerCache cv') \<and> group_state hs nm (Suc i) (Suc i) [] cv' \<and>
     (if lst then inc c' = inc c0 \<and> buf_has cid [] (cv_sendChunkBuf cv') \<and>
         out c' = out c0 @ sent_frame (chunk_frame CLOUD_SEND_CHUNK cid (take (Suc i) ds))
      else batch_state inc out cid c0 (take (Suc i) ds) (cv_sendChunkBuf cv') c')"
proof -
  have N: "length hs = length ds"
    using req by (simp add: requests_def)
  have n: "unat (rq_idNum (cv_reqContainer cv)) = length ns" and cap: "length ns \<le> CONTAINER_CAPPING_VALUE"
    using g by (simp_all add: group_state_def CONTAINER_CAPPING_VALUE_def unat_of_nat_u32)
  note nm = group_names [OF disk req g]
  have names: "\<forall>k < length ns. slot_name cv k = ns ! k"
    using g by (simp add: group_state_def)
  have pre: "\<forall>k. 0 \<le> k \<longrightarrow> k < 0 + length ns \<longrightarrow> C (slot_name cv k) \<noteq> None"
    using names nm by fastforce
  have cap': "0 + length ns \<le> CONTAINER_CAPPING_VALUE"
    using cap by simp
  obtain rd1 rc arr where get: "get_containers (length ns) 0 rd cv fs = Inr (rd1, cv\<lparr>cv_containerCache := rc, cv_reqContainer :=
        (cv_reqContainer cv)\<lparr>rq_containerArray := arr\<rparr>\<rparr>)" "decoder_for cfg rd1" "cache_ok C rc"
      "\<forall>k. 0 \<le> k \<longrightarrow> k < 0 + length ns \<longrightarrow> holds_container (arr k) (the (C (slot_name cv k)))"
    using get_containers_spec [OF disk cache rd cap' pre] by blast
  let ?cv1 = "cv\<lparr>cv_containerCache := rc, cv_reqContainer := (cv_reqContainer cv)\<lparr>rq_containerArray := arr\<rparr>\<rparr>"
  let ?idx = "ridx_all (map (the \<circ> C) ns) Map.empty"
  have arr: "\<forall>k < length ns. holds_container (arr k) (the (C (ns ! k)))"
    using get(4) names by simp
  have "\<forall>k < length (map (the \<circ> C) ns). holds_container (arr (0 + k)) (map (the \<circ> C) ns ! k) \<and> container_ok (map (the \<circ> C) ns ! k)"
    using arr nm by fastforce
  from IndexConstruct_eq [OF this, of Map.empty]
  have idx: "IndexConstruct arr (length ns) 0 Map.empty = Inr ?idx"
    by (simp add: comp_def)
  have found: "finds (arr (unat (de_containerID (cv_downloadChunkBase cv j)))) ?idx (de_chunkHash (cv_downloadChunkBase cv j)) (ds ! j)"
    if "start \<le> j" "j < Suc i" for j
    using group_finds [OF disk apart req g _ arr that] that i g by (simp add: group_state_def)
  have "\<exists>base b c'. send_entries api rd1 ?idx (Suc i - start) start ?cv1 c =
        Some (Inr (?cv1\<lparr>cv_downloadChunkBase := base, cv_sendChunkBuf := b\<rparr>, c')) \<and>
     batch_state inc out cid c0 (take (start + (Suc i - start)) ds) b c' \<and> same_keys (cv_downloadChunkBase ?cv1) base"
    using laws get(2) ds st i N found by (intro send_entries_spec [where cid = cid and inc = inc and out = out]) auto
  then obtain base b c1 where se: "send_entries api rd1 ?idx (Suc i - start) start ?cv1 c =
        Some (Inr (?cv1\<lparr>cv_downloadChunkBase := base, cv_sendChunkBuf := b\<rparr>, c1))"
      "batch_state inc out cid c0 (take (Suc i) ds) b c1" "same_keys (cv_downloadChunkBase cv) base"
    using i by auto
  let ?cv2 = "\<lambda>b. ?cv1\<lparr>cv_downloadChunkBase := base, cv_sendChunkBuf := b,
     cv_reqContainer := (cv_reqContainer ?cv1)\<lparr>rq_idNum := 0\<rparr>\<rparr>"
  have grp: "group_state hs nm (Suc i) (Suc i) [] (?cv2 b')" for b'
    using g se(3) by (simp add: group_state_def same_keys_def)
  have len: "length (take (Suc i) ds) = Suc i" "Suc i \<le> 256" and sd: "sendable (take (Suc i) ds)"
    using i N ds sendable_take by (simp_all add: sendable_def)
  have run: "serve_group api lst start i fs rd cv c =
     bindO (if lst \<and> \<not> batch_full rd1 b then flush_chunks api b c1 else Some (Inr (b, c1))) (\<lambda>(b, c3). Some (Inr (rd1, ?cv2 b, c3)))"
    using get(1) n idx se(1) by (simp add: serve_group_def GetReqContainers_def)
  show ?thesis
  proof (cases "Suc i < 256")
    case True
    then have has: "buf_has cid (take (Suc i) ds) b" and oc: "out c1 = out c0" "inc c1 = inc c0"
      using se(2) len by (simp_all add: batch_state_def)
    have nf: "\<not> batch_full rd1 b"
      using batch_full_iff [OF has get(2)] len True by simp
    obtain b2 c2 where fl: "flush_chunks api b c1 = Some (Inr (b2, c2))" "buf_has cid [] b2"
        "out c2 = out c1 @ sent_frame (chunk_frame CLOUD_SEND_CHUNK cid (take (Suc i) ds))" "inc c2 = inc c1"
      using flush_chunks_spec [OF laws has sd] by blast
    show ?thesis
    proof (cases lst)
      case l: True
      then have "serve_group api lst start i fs rd cv c = Some (Inr (rd1, ?cv2 b2, c2))"
        using run nf fl(1) by simp
      then show ?thesis
        using l fl oc get(2,3) grp by (intro exI conjI) (assumption | simp)+
    next
      case l: False
      then have "serve_group api lst start i fs rd cv c = Some (Inr (rd1, ?cv2 b, c1))"
        using run by simp
      then show ?thesis
        using l se(2) get(2,3) grp by (intro exI conjI) (assumption | simp)+
    qed
  next
    case False
    then have has: "buf_has cid [] b" and oc: "out c1 = out c0 @ sent_frame (chunk_frame CLOUD_SEND_CHUNK cid (take (Suc i) ds))"
        "inc c1 = inc c0"
      using se(2) len by (simp_all add: batch_state_def)
    have "batch_full rd1 b"
      using batch_full_iff [OF has get(2)] by simp
    then have "serve_group api lst start i fs rd cv c = Some (Inr (rd1, ?cv2 b, c1))"
      using run by simp
    then show ?thesis
      using has oc se(2) get(2,3) grp by (intro exI conjI) (assumption | simp)+
  qed
qed

definition tmap_ok :: "bytes list \<Rightarrow> (bytes \<rightharpoonup> u32) \<Rightarrow> bool" where
  "tmap_ok ns tmap \<longleftrightarrow> (\<forall>name k. tmap name = Some k \<longleftrightarrow> unat k < length ns \<and> ns ! unat k = name)"

lemma slot_name_write:
  assumes "length name = CONTAINER_ID_LENGTH"
  shows "mem_read (mem_write b (n * CONTAINER_ID_LENGTH) name) (k * CONTAINER_ID_LENGTH) CONTAINER_ID_LENGTH =
     (if k = n then name else mem_read b (k * CONTAINER_ID_LENGTH) CONTAINER_ID_LENGTH)"
proof (cases "k = n")
  case False
  then have "k * CONTAINER_ID_LENGTH + CONTAINER_ID_LENGTH \<le> n * CONTAINER_ID_LENGTH \<or>
      n * CONTAINER_ID_LENGTH + length name \<le> k * CONTAINER_ID_LENGTH"
    using assms by (simp add: CONTAINER_ID_LENGTH_def) linarith
  then show ?thesis
    using False by (simp add: mem_read_write_disjoint)
qed (use assms in \<open>simp add: mem_read_write_same'\<close>)

lemma assign_slot_spec:
  assumes g: "group_state hs nm start i ns cv" and t: "tmap_ok ns tmap" and i: "i < length hs"
    and room: "length ns < CONTAINER_CAPPING_VALUE" and req: "requests C hs nm ds"
  shows "\<exists>tmap' ns' cv'. assign_slot i tmap cv = Inr (tmap', cv') \<and> tmap_ok ns' tmap' \<and> group_state hs nm start (Suc i) ns' cv' \<and>
     cv_containerCache cv' = cv_containerCache cv \<and> cv_sendChunkBuf cv' = cv_sendChunkBuf cv \<and> (ns' = ns \<or> ns' = ns @ [nm ! i])"
proof -
  let ?e = "cv_downloadChunkBase cv i"
  have name: "de_containerName ?e = nm ! i"
    using g i by (simp add: group_state_def)
  show ?thesis
  proof (cases "tmap (nm ! i)")
    case (Some k)
    then have k: "unat k < length ns" "ns ! unat k = nm ! i"
      using t by (auto simp: tmap_ok_def)
    let ?cv = "cv\<lparr>cv_downloadChunkBase := (cv_downloadChunkBase cv)(i := ?e\<lparr>de_containerID := k\<rparr>)\<rparr>"
    have "group_state hs nm start (Suc i) ns ?cv"
      using g k by (auto simp: group_state_def less_Suc_eq)
    then show ?thesis
      using Some name t by (intro exI [of _ tmap] exI [of _ ns] exI [of _ ?cv]) (simp add: assign_slot_def)
  next
    case None
    let ?n = "rq_idNum (cv_reqContainer cv)"
    have n: "?n = of_nat (length ns)" "unat ?n = length ns"
      using g room by (simp_all add: group_state_def CONTAINER_CAPPING_VALUE_def unat_of_nat_u32)
    have new: "nm ! i \<notin> set ns"
    proof
      assume "nm ! i \<in> set ns"
      then obtain k where k: "k < length ns" "ns ! k = nm ! i"
        by (metis in_set_conv_nth)
      then have "unat (of_nat k :: u32) = k"
        using room by (intro unat_of_nat_u32) (simp add: CONTAINER_CAPPING_VALUE_def)
      then have "tmap (nm ! i) = Some (of_nat k)"
        using t k by (simp add: tmap_ok_def)
      then show False
        using None by simp
    qed
    let ?cv = "cv\<lparr>cv_downloadChunkBase := (cv_downloadChunkBase cv)(i := ?e\<lparr>de_containerID := ?n\<rparr>),
       cv_reqContainer := (cv_reqContainer cv)\<lparr>rq_idBuffer := mem_write (rq_idBuffer (cv_reqContainer cv)) (unat ?n * CONTAINER_ID_LENGTH) (nm ! i),
                                          rq_idNum := ?n + 1\<rparr>\<rparr>"
    have len: "length (nm ! i) = CONTAINER_ID_LENGTH" and mem: "nm ! i \<in> set nm"
      using req i by (auto simp: requests_def)
    have "group_state hs nm start (Suc i) (ns @ [nm ! i]) ?cv"
      using g n new room mem unfolding group_state_def
      by (auto simp: slot_name_write [OF len] nth_append less_Suc_eq)
    moreover have "tmap_ok (ns @ [nm ! i]) (tmap(nm ! i \<mapsto> ?n))"
      unfolding tmap_ok_def
    proof (intro allI)
      fix name k
      have "unat k = length ns \<longleftrightarrow> k = ?n"
        using n(2) by (metis word_unat_eq_iff)
      then show "((tmap(nm ! i \<mapsto> ?n)) name = Some k) = (unat k < length (ns @ [nm ! i]) \<and> (ns @ [nm ! i]) ! unat k = name)"
        using t None new n by (auto simp: tmap_ok_def nth_append less_Suc_eq dest: nth_mem)
    qed
    ultimately show ?thesis
      using None name n room by (intro exI [of _ "tmap(nm ! i \<mapsto> ?n)"] exI [of _ "ns @ [nm ! i]"] exI [of _ ?cv])
        (simp add: assign_slot_def Let_def)
  qed
qed

lemma serve_entries_spec:
  assumes laws: "ssl_laws api inc out" and disk: "on_disk cfg fs C" and apart: "hashes_apart C"
    and req: "requests C hs nm ds" and ds: "sendable ds" and "decoder_for cfg rd" and "cache_ok C (cv_containerCache cv)"
    and "group_state hs nm start i ns cv" and "tmap_ok ns tmap" and "length ns < CONTAINER_CAPPING_VALUE" and "start \<le> i"
    and "batch_state inc out cid c0 (take start ds) (cv_sendChunkBuf cv) c" and "0 < n" and "i + n = length hs"
  shows "\<exists>rd' cv' c'. serve_entries api n i start tmap fs rd cv c = Some (Inr (rd', cv', c')) \<and> decoder_for cfg rd' \<and>
     cache_ok C (cv_containerCache cv') \<and> inc c' = inc c0 \<and> buf_has cid [] (cv_sendChunkBuf cv') \<and>
     rq_idNum (cv_reqContainer cv') = 0 \<and>
     out c' = out c0 @ sent_frame (chunk_frame CLOUD_SEND_CHUNK cid ds)"
  using assms(6-)
proof (induction n arbitrary: i start ns tmap rd cv c)
  case (Suc n)
  have i: "i < length hs" and N: "length hs = length ds"
    using Suc.prems(9) req by (simp_all add: requests_def)
  obtain tmap1 ns1 cv1 where a: "assign_slot i tmap cv = Inr (tmap1, cv1)" "tmap_ok ns1 tmap1" "group_state hs nm start (Suc i) ns1 cv1"
      "cv_containerCache cv1 = cv_containerCache cv" "cv_sendChunkBuf cv1 = cv_sendChunkBuf cv"
    using assign_slot_spec [OF Suc.prems(3,4) i Suc.prems(5) req] by blast
  have cache1: "cache_ok C (cv_containerCache cv1)" and st1: "batch_state inc out cid c0 (take start ds) (cv_sendChunkBuf cv1) c"
    using Suc.prems a by simp_all
  have num: "unat (rq_idNum (cv_reqContainer cv1)) = length ns1" "length ns1 \<le> CONTAINER_CAPPING_VALUE"
    using a(3) by (simp_all add: group_state_def CONTAINER_CAPPING_VALUE_def unat_of_nat_u32)
  show ?case
  proof (cases "length ns1 = CONTAINER_CAPPING_VALUE \<or> n = 0")
    case True
    obtain rd2 cv2 c2 where g: "serve_group api (n = 0) start i fs rd cv1 c = Some (Inr (rd2, cv2, c2))" "decoder_for cfg rd2"
        "cache_ok C (cv_containerCache cv2)" "group_state hs nm (Suc i) (Suc i) [] cv2"
        "if n = 0 then inc c2 = inc c0 \<and> buf_has cid [] (cv_sendChunkBuf cv2) \<and>
           out c2 = out c0 @ sent_frame (chunk_frame CLOUD_SEND_CHUNK cid (take (Suc i) ds))
         else batch_state inc out cid c0 (take (Suc i) ds) (cv_sendChunkBuf cv2) c2"
      using serve_group_spec [OF laws Suc.prems(1) disk apart cache1 req ds a(3) Suc.prems(6) i st1, of "n = 0"] by blast
    have step: "serve_entries api (Suc n) i start tmap fs rd cv c = serve_entries api n (Suc i) (Suc i) Map.empty fs rd2 cv2 c2"
      using a(1) g(1) num True by simp
    show ?thesis
    proof (cases "n = 0")
      case z: True
      then have "take (Suc i) ds = ds"
        using Suc.prems(9) N by simp
      then show ?thesis
        using step g z by (simp add: group_state_def)
    next
      case False
      have "tmap_ok [] Map.empty"
        by (simp add: tmap_ok_def)
      then show ?thesis
        using Suc.IH [OF g(2,3,4), of Map.empty c2] g(5) False Suc.prems(9) step by (simp add: CONTAINER_CAPPING_VALUE_def)
    qed
  next
    case False
    then have "length ns1 < CONTAINER_CAPPING_VALUE" "0 < n"
      using num by simp_all
    then show ?thesis
      using Suc.IH [OF Suc.prems(1) cache1 a(3,2)] st1 Suc.prems(6,9) a(1) num False by simp
  qed
qed simp

section \<open>A whole batch\<close>

lemma concat_nth_block:
  "list_all (\<lambda>h. length h = n) hs \<Longrightarrow> i < length hs \<Longrightarrow> take n (drop (i * n) (concat hs)) = hs ! i"
  by (induction hs arbitrary: i) (auto simp: nth_Cons split: nat.splits)

context key_value_store
begin

lemma lookup_entries_spec:
  assumes store: "inv (ix_indexStore ix)" and hs: "list_all (\<lambda>h. length h = CHUNK_HASH_SIZE) hs"
    and idx: "\<forall>j < length hs. abs (ix_indexStore ix) (hs ! j) = Some (nm ! j) \<and> length (nm ! j) = CONTAINER_ID_LENGTH"
    and msg: "data_read (cv_sendChunkBuf cv) 0 (length (concat hs)) = concat hs"
    and fit: "length hs \<le> unat (cv_sendChunkBatchSize cv)" "length (concat hs) \<le> data_size (cv_sendChunkBuf cv)"
    and "i + n = length hs" and "\<forall>j < i. de_chunkHash (cv_downloadChunkBase cv j) = hs ! j \<and> de_containerName (cv_downloadChunkBase cv j) = nm ! j"
  shows "\<exists>base. lookup_entries vt ix n i name cv = Inr (cv\<lparr>cv_downloadChunkBase := base\<rparr>) \<and>
     (\<forall>j < length hs. de_chunkHash (base j) = hs ! j \<and> de_containerName (base j) = nm ! j)"
  using msg fit assms(7,8)
proof (induction n arbitrary: i name cv)
  case 0
  then show ?case
    by (intro exI [of _ "cv_downloadChunkBase cv"]) simp
next
  case (Suc n)
  have i: "i < length hs"
    using Suc.prems(4) by simp
  have len: "length (concat hs) = length hs * CHUNK_HASH_SIZE"
    using hs by (induction hs) auto
  have "Suc i * CHUNK_HASH_SIZE \<le> length hs * CHUNK_HASH_SIZE"
    using i by (intro mult_le_mono1) simp
  then have bnd: "(i + 1) * CHUNK_HASH_SIZE \<le> length (concat hs)"
    by (simp add: len)
  have "data_read (cv_sendChunkBuf cv) (i * CHUNK_HASH_SIZE) CHUNK_HASH_SIZE =
      take CHUNK_HASH_SIZE (drop (i * CHUNK_HASH_SIZE) (data_read (cv_sendChunkBuf cv) 0 (length (concat hs))))"
    using bnd by (simp add: data_read_def drop_mem_read take_mem_read)
  also have "\<dots> = hs ! i"
    using concat_nth_block [OF hs i] Suc.prems(1) by simp
  finally have h: "data_read (cv_sendChunkBuf cv) (i * CHUNK_HASH_SIZE) CHUNK_HASH_SIZE = hs ! i" .
  have look: "ReadIndexStore vt ix (hs ! i) name = (True, nm ! i)"
    using query_law [OF store, of "hs ! i" name] idx i by (simp add: ReadIndexStore_def)
  have ln: "length (nm ! i) = CONTAINER_ID_LENGTH"
    using idx i by simp
  let ?cv = "cv\<lparr>cv_downloadChunkBase := (cv_downloadChunkBase cv)(i := (cv_downloadChunkBase cv i)
                 \<lparr>de_chunkHash := hs ! i, de_containerName := nm ! i\<rparr>)\<rparr>"
  have "lookup_entries vt ix (Suc n) i name cv = lookup_entries vt ix n (Suc i) (nm ! i) ?cv"
    using h look ln i Suc.prems(2,3) bnd by simp
  moreover have "\<exists>base. lookup_entries vt ix n (Suc i) (nm ! i) ?cv = Inr (?cv\<lparr>cv_downloadChunkBase := base\<rparr>) \<and>
     (\<forall>j < length hs. de_chunkHash (base j) = hs ! j \<and> de_containerName (base j) = nm ! j)"
    using Suc.prems by (intro Suc.IH) (auto simp: less_Suc_eq)
  ultimately show ?case
    by auto
qed

end

text \<open>The index points to containers that hold the chunk; \<open>chunk_of\<close> is the chunk.\<close>

definition index_points :: "containers \<Rightarrow> (bytes \<rightharpoonup> bytes) \<Rightarrow> bool" where
  "index_points C m \<longleftrightarrow> (\<forall>h name. m h = Some name \<longrightarrow> length name = CONTAINER_ID_LENGTH \<and>
     (\<exists>es. C name = Some es \<and> h \<in> fst ` set es))"

definition chunk_of :: "containers \<Rightarrow> (bytes \<rightharpoonup> bytes) \<Rightarrow> bytes \<Rightarrow> bytes" where
  "chunk_of C m h = the (map_of (the (C (the (m h)))) h)"

text \<open>The answer to a batch: one message with its chunks, if there are any, and the end message.\<close>

definition batch_answer :: "u32 \<Rightarrow> bytes list \<Rightarrow> bytes list" where
  "batch_answer cid ds = (if ds = [] then [] else sent_frame (chunk_frame CLOUD_SEND_CHUNK cid ds)) @
     sent_frame (chunk_frame CLOUD_SEND_CHUNK_END cid [])"

text \<open>A decoder between two batches.\<close>

definition decoder_idle :: "Configure \<Rightarrow> containers \<Rightarrow> RecvDecoder \<Rightarrow> ClientVar \<Rightarrow> bool" where
  "decoder_idle cfg C rd cv \<longleftrightarrow> decoder_for cfg rd \<and> cache_ok C (cv_containerCache cv) \<and>
     rq_idNum (cv_reqContainer cv) = 0 \<and> cv_sendChunkBatchSize cv = 256 \<and> sb_size (cv_sendChunkBuf cv) = send_buf_size"

definition servable :: "containers \<Rightarrow> (bytes \<rightharpoonup> bytes) \<Rightarrow> bytes list \<Rightarrow> bool" where
  "servable C m hs \<longleftrightarrow> list_all (\<lambda>h. length h = CHUNK_HASH_SIZE \<and> h \<in> dom m) hs \<and> length hs \<le> 256"

lemma servable_requests:
  assumes disk: "on_disk cfg fs C" and idx: "index_points C m" and hs: "servable C m hs"
  shows "requests C hs (map (the \<circ> m) hs) (map (chunk_of C m) hs)" and "sendable (map (chunk_of C m) hs)"
proof -
  have one: "length (the (m h)) = CONTAINER_ID_LENGTH \<and> (\<exists>es. C (the (m h)) = Some es \<and> (h, chunk_of C m h) \<in> set es) \<and>
      length (chunk_of C m h) \<le> MAX_CHUNK_SIZE" if h: "h \<in> set hs" for h
  proof -
    obtain name where name: "m h = Some name"
      using hs h by (auto simp: servable_def list_all_iff)
    then obtain es where es: "length name = CONTAINER_ID_LENGTH" "C name = Some es" "h \<in> fst ` set es"
      using idx unfolding index_points_def by blast
    then obtain d where d: "map_of es h = Some d"
      by (metis option.exhaust map_of_eq_None_iff)
    then have mem: "(h, d) \<in> set es"
      by (rule map_of_SomeD)
    have "container_ok es"
      using disk es(2) by (auto simp: on_disk_def)
    then have "length d \<le> MAX_CHUNK_SIZE"
      using mem by (auto simp: container_ok_def)
    then show ?thesis
      using name es d mem by (simp add: chunk_of_def)
  qed
  then show "requests C hs (map (the \<circ> m) hs) (map (chunk_of C m) hs)"
    by (auto simp: requests_def)
  show "sendable (map (chunk_of C m) hs)"
    using one hs by (auto simp: sendable_def servable_def list_all_iff)
qed

lemma ProcessRecipeTailBatch_spec:
  assumes laws: "ssl_laws api inc out" and b: "buf_has cid [] (cv_sendChunkBuf cv)"
  shows "\<exists>b' c'. ProcessRecipeTailBatch api cv c = Some (Inr (cv\<lparr>cv_sendChunkBuf := b'\<rparr>, c')) \<and> sb_size b' = send_buf_size \<and>
     out c' = out c @ sent_frame (chunk_frame CLOUD_SEND_CHUNK_END cid []) \<and> inc c' = inc c"
proof -
  have "sendable []"
    by (simp add: sendable_def)
  then obtain c' where "SendBatchChunks api (set_header ((header (cv_sendChunkBuf cv))\<lparr>messageType := edge_code CLOUD_SEND_CHUNK_END\<rparr>) (cv_sendChunkBuf cv)) c = Some (Inr c')"
      "out c' = out c @ sent_frame (chunk_frame CLOUD_SEND_CHUNK_END cid [])" "inc c' = inc c"
    using SendBatchChunks_spec [OF laws b] by blast
  then show ?thesis
    using b by (intro exI [of _ "set_header ((header (cv_sendChunkBuf cv))\<lparr>messageType := edge_code CLOUD_SEND_CHUNK_END\<rparr>) (cv_sendChunkBuf cv)"]
        exI [of _ c']) (simp add: ProcessRecipeTailBatch_def Let_def buf_has_def)
qed

lemma serve_entries_keeps:
  "serve_entries api n i start tmap fs rd cv c = Some (Inr (rd', cv', c')) \<Longrightarrow> cv_sendChunkBatchSize cv' = cv_sendChunkBatchSize cv"
proof (induction n arbitrary: i start tmap rd cv c)
  case (Suc n)
  have send: "cv_sendChunkBatchSize cv2 = cv_sendChunkBatchSize cv1" if "send_entries api rd idx k s cv1 c1 = Some (Inr (cv2, c2))"
    for rd idx k s cv1 c1 cv2 c2
    using that by (induction k arbitrary: s cv1 c1) (auto simp: Let_def bindO_eq_Inr split: option.splits prod.splits)
  have one: "cv_sendChunkBatchSize cv2 = cv_sendChunkBatchSize cv1" if "get_container k rd cv1 fs = Inr (rd2, cv2)" for k rd cv1 rd2 cv2
    using that by (auto simp: get_container_def Let_def bindR_eq_Inr split: if_splits prod.splits)
  have get: "cv_sendChunkBatchSize cv2 = cv_sendChunkBatchSize cv1" if "get_containers m k rd cv1 fs = Inr (rd2, cv2)" for m k rd cv1 rd2 cv2
    using that by (induction m arbitrary: k rd cv1) (auto simp: bindR_eq_Inr dest: one)
  have slot: "cv_sendChunkBatchSize cv2 = cv_sendChunkBatchSize cv1" if "assign_slot k t cv1 = Inr (t2, cv2)" for k t cv1 t2 cv2
    using that by (auto simp: assign_slot_def Let_def bindR_eq_Inr split: option.splits)
  have group: "cv_sendChunkBatchSize cv2 = cv_sendChunkBatchSize cv1" if "serve_group api l s k fs rd cv1 c1 = Some (Inr (rd2, cv2, c2))"
    for l s k rd cv1 c1 rd2 cv2 c2
    using that by (auto simp: serve_group_def bindO_eq_Inr liftO_def GetReqContainers_def dest!: get send split: prod.splits)
  show ?case
    using Suc by (auto simp: bindO_eq_Inr liftO_def dest!: group slot split: if_splits prod.splits)
qed simp

context key_value_store
begin

lemma restore_batch_spec:
  assumes laws: "ssl_laws api inc out" and store: "inv (ix_indexStore ix)" and disk: "on_disk cfg fs C" and apart: "hashes_apart C"
    and idx: "index_points C (abs (ix_indexStore ix))" and hs: "servable C (abs (ix_indexStore ix)) hs"
    and idle: "decoder_idle cfg C rd cv"
    and hd: "clientID (header (cv_sendChunkBuf cv)) = cid" "dataSize (header (cv_sendChunkBuf cv)) = 0" "currentItemNum (header (cv_sendChunkBuf cv)) = 0"
    and msg: "data_read (cv_sendChunkBuf cv) 0 (length (concat hs)) = concat hs"
  shows "\<exists>rd' cv' c'. RecvDecoder_ProcessRecipeBatch api vt ix (length hs) fs rd cv c = Some (Inr (rd', cv', c')) \<and>
     decoder_idle cfg C rd' cv' \<and> inc c' = inc c \<and>
     out c' = out c @ batch_answer cid (map (chunk_of C (abs (ix_indexStore ix))) hs)"
proof -
  let ?m = "abs (ix_indexStore ix)"
  let ?nm = "map (the \<circ> ?m) hs" and ?ds = "map (chunk_of C ?m) hs"
  note req = servable_requests [OF disk idx hs]
  have hl: "list_all (\<lambda>h. length h = CHUNK_HASH_SIZE) hs" and n256: "length hs \<le> 256"
    using hs by (auto simp: servable_def list_all_iff)
  have rd: "decoder_for cfg rd" and cache: "cache_ok C (cv_containerCache cv)" and bs: "cv_sendChunkBatchSize cv = 256"
    and sb: "sb_size (cv_sendChunkBuf cv) = send_buf_size"
    using idle by (simp_all add: decoder_idle_def)
  have entries: "\<forall>j < length hs. ?m (hs ! j) = Some (?nm ! j) \<and> length (?nm ! j) = CONTAINER_ID_LENGTH"
    using req(1) hs by (auto simp: requests_def servable_def list_all_iff domIff dest!: nth_mem)
  have "length (concat hs) = length hs * CHUNK_HASH_SIZE"
    using hl by (induction hs) auto
  then have fit: "length (concat hs) \<le> data_size (cv_sendChunkBuf cv)"
    using n256 sb by (simp add: data_size_def send_buf_size_def const_simps)
  obtain base where look: "lookup_entries vt ix (length hs) 0 (replicate CONTAINER_ID_LENGTH 0) cv = Inr (cv\<lparr>cv_downloadChunkBase := base\<rparr>)"
      "\<forall>j < length hs. de_chunkHash (base j) = hs ! j \<and> de_containerName (base j) = ?nm ! j"
    using lookup_entries_spec [OF store hl entries msg _ fit, of 0 "length hs"] n256 bs by auto
  let ?cv1 = "cv\<lparr>cv_downloadChunkBase := base\<rparr>"
  have grp: "group_state hs ?nm 0 0 [] ?cv1"
    using look(2) idle by (simp add: group_state_def decoder_idle_def)
  have st: "batch_state inc out cid c (take 0 ?ds) (cv_sendChunkBuf ?cv1) c"
    using hd sb by (simp add: batch_state_def buf_has_def data_read_def)
  obtain rd2 cv2 c2 where sv: "serve_entries api (length hs) 0 0 Map.empty fs rd ?cv1 c = Some (Inr (rd2, cv2, c2))" "decoder_for cfg rd2"
      "cache_ok C (cv_containerCache cv2)" "inc c2 = inc c" "buf_has cid [] (cv_sendChunkBuf cv2)" "rq_idNum (cv_reqContainer cv2) = 0"
      "out c2 = out c @ (if ?ds = [] then [] else sent_frame (chunk_frame CLOUD_SEND_CHUNK cid ?ds))"
  proof (cases "hs = []")
    case True
    then show ?thesis
      using that [of rd ?cv1 c] rd cache idle st by (simp add: batch_state_def decoder_idle_def)
  next
    case False
    then show ?thesis
      using serve_entries_spec [OF laws disk apart req rd _ grp _ _ _ st, of Map.empty "length hs"] that cache
      by (auto simp: tmap_ok_def CONTAINER_CAPPING_VALUE_def)
  qed
  obtain b3 c3 where tl: "ProcessRecipeTailBatch api cv2 c2 = Some (Inr (cv2\<lparr>cv_sendChunkBuf := b3\<rparr>, c3))" "sb_size b3 = send_buf_size"
      "out c3 = out c2 @ sent_frame (chunk_frame CLOUD_SEND_CHUNK_END cid [])" "inc c3 = inc c2"
    using ProcessRecipeTailBatch_spec [OF laws sv(5)] by blast
  have "RecvDecoder_ProcessRecipeBatch api vt ix (length hs) fs rd cv c = Some (Inr (rd2, cv2\<lparr>cv_sendChunkBuf := b3\<rparr>, c3))"
    using look(1) sv(1) tl(1) by (simp add: RecvDecoder_ProcessRecipeBatch_def)
  moreover have "decoder_idle cfg C rd2 (cv2\<lparr>cv_sendChunkBuf := b3\<rparr>)"
    using sv tl(2) serve_entries_keeps [OF sv(1)] bs by (simp add: decoder_idle_def)
  ultimately show ?thesis
    using sv tl by (simp add: batch_answer_def)
qed

end

section \<open>A restore session\<close>

lemma receive_into_message:
  assumes "ssl_laws api inc out" and "inc c = r @ rest" and "frame_records m r" and "length m < 2 ^ 31" and "length m \<le> sb_size b"
  shows "\<exists>c'. receive_into api b c = Some (Inr (True, b\<lparr>sendBuffer := mem_write (sendBuffer b) 0 m\<rparr>, c')) \<and>
     inc c' = rest \<and> out c' = out c"
  using ReceiveData_law [OF assms, of "sendBuffer b" 0] by (auto simp: receive_into_def)

lemma receive_into_closed:
  assumes "ssl_laws api inc out" and "inc c = []"
  shows "\<exists>c'. receive_into api b c = Some (Inr (False, b, c')) \<and> inc c' = [] \<and> out c' = out c"
  using ReceiveData_closed [OF assms, of "sendBuffer b" "sb_size b" 0] by (auto simp: receive_into_def)

lemma header_message:
  "header (b\<lparr>sendBuffer := mem_write m 0 (nh_enc h @ p)\<rparr>) = h"
  "data_read (b\<lparr>sendBuffer := mem_write m 0 (nh_enc h @ p)\<rparr>) 0 (length p) = p"
  by (rule received_message, simp)+

text \<open>What the client sends: a ready message and batches of hashes.\<close>

definition ready_msg :: "u32 \<Rightarrow> bytes \<Rightarrow> bytes" where
  "ready_msg k p = nh_enc \<lparr>messageType = edge_code EDGE_RECEIVE_READY, clientID = k, dataSize = of_nat (length p), currentItemNum = 0\<rparr> @ p"

definition batch_msg :: "u32 \<Rightarrow> bytes list \<Rightarrow> bytes" where
  "batch_msg k hs = nh_enc \<lparr>messageType = edge_code EDGE_DOWNLOAD_CHUNK_READY, clientID = k,
     dataSize = of_nat (length (concat hs)), currentItemNum = of_nat (length hs)\<rparr> @ concat hs"

lemma batch_msg_size: "servable C m hs \<Longrightarrow> length (batch_msg k hs) \<le> send_buf_size"
proof -
  assume s: "servable C m hs"
  then have "list_all (\<lambda>h. length h = CHUNK_HASH_SIZE) hs"
    by (auto simp: servable_def list_all_iff)
  then have "length (concat hs) = length hs * CHUNK_HASH_SIZE"
    by (induction hs) auto
  then show ?thesis
    using s by (simp add: servable_def batch_msg_def send_buf_size_def const_simps)
qed

lemma decoder_loop_batch:
  assumes laws: "ssl_laws api inc out" and hs: "servable C m hs" and idle: "decoder_idle cfg C rd cv"
    and r: "inc c = r1 @ r2" "frame_records (batch_msg k hs) r1"
  shows "\<exists>b c1. decoder_loop api vt ix fs rd cv c =
       bindO (RecvDecoder_ProcessRecipeBatch api vt ix (length hs) fs rd (cv\<lparr>cv_sendChunkBuf := b\<rparr>) c1)
         (\<lambda>(rd2, cv2, c2). decoder_loop api vt ix fs rd2 cv2 c2) \<and>
     decoder_idle cfg C rd (cv\<lparr>cv_sendChunkBuf := b\<rparr>) \<and> inc c1 = r2 \<and> out c1 = out c \<and>
     clientID (header b) = k \<and> dataSize (header b) = 0 \<and> currentItemNum (header b) = 0 \<and>
     data_read b 0 (length (concat hs)) = concat hs"
proof -
  let ?b = "cv_sendChunkBuf cv"
  let ?h = "\<lparr>messageType = edge_code EDGE_DOWNLOAD_CHUNK_READY, clientID = k,
     dataSize = of_nat (length (concat hs)), currentItemNum = of_nat (length hs)\<rparr>"
  have len: "length (batch_msg k hs) \<le> sb_size ?b" "length (batch_msg k hs) < 2 ^ 31"
    using batch_msg_size [OF hs, of k] idle by (simp_all add: decoder_idle_def send_buf_size_def const_simps)
  define b1 where "b1 = ?b\<lparr>sendBuffer := mem_write (sendBuffer ?b) 0 (batch_msg k hs)\<rparr>"
  obtain c1 where c1: "receive_into api ?b c = Some (Inr (True, b1, c1))" "inc c1 = r2" "out c1 = out c"
    using receive_into_message [OF laws r len(2,1)] by (auto simp: b1_def)
  have h1: "header b1 = ?h" "data_read b1 0 (length (concat hs)) = concat hs"
    unfolding b1_def batch_msg_def by (rule header_message)+
  define b2 where "b2 = set_header (?h\<lparr>currentItemNum := 0, dataSize := 0\<rparr>) b1"
  have n: "unat (of_nat (length hs) :: u32) = length hs"
    using hs by (intro unat_of_nat_u32) (simp add: servable_def)
  have "decoder_idle cfg C rd (cv\<lparr>cv_sendChunkBuf := b2\<rparr>)"
    using idle by (simp add: decoder_idle_def b2_def b1_def)
  then show ?thesis
    using c1 h1 n by (intro exI [of _ b2] exI [of _ c1]) (subst decoder_loop.simps, simp add: b2_def)
qed

lemma decoder_starts:
  assumes laws: "ssl_laws api inc out" and idle: "decoder_idle cfg C rd cv"
    and r: "inc c = r1 @ r2" "frame_records (ready_msg k p) r1" and p: "length p \<le> MAX_CHUNK_SIZE"
  shows "\<exists>b c1. RecvDecoder_Run api vt ix fs rd cv c = decoder_loop api vt ix fs rd (cv\<lparr>cv_sendChunkBuf := b\<rparr>) c1 \<and>
     decoder_idle cfg C rd (cv\<lparr>cv_sendChunkBuf := b\<rparr>) \<and> inc c1 = r2 \<and> out c1 = out c"
proof -
  let ?b = "cv_sendChunkBuf cv"
  have len: "length (ready_msg k p) \<le> sb_size ?b" "length (ready_msg k p) < 2 ^ 31"
    using idle p by (simp_all add: decoder_idle_def ready_msg_def send_buf_size_def const_simps)
  define b1 where "b1 = ?b\<lparr>sendBuffer := mem_write (sendBuffer ?b) 0 (ready_msg k p)\<rparr>"
  obtain c1 where c1: "receive_into api ?b c = Some (Inr (True, b1, c1))" "inc c1 = r2" "out c1 = out c"
    using receive_into_message [OF laws r len(2,1)] by (auto simp: b1_def)
  have "messageType (header b1) = edge_code EDGE_RECEIVE_READY"
    unfolding b1_def ready_msg_def header_message by simp
  moreover have "decoder_idle cfg C rd (cv\<lparr>cv_sendChunkBuf := b1\<rparr>)"
    using idle by (simp add: decoder_idle_def b1_def)
  ultimately show ?thesis
    using c1 by (intro exI [of _ b1] exI [of _ c1]) (simp add: RecvDecoder_Run_def)
qed

context key_value_store
begin

lemma decoder_loop_spec:
  assumes laws: "ssl_laws api inc out" and store: "inv (ix_indexStore ix)" and disk: "on_disk cfg fs C" and apart: "hashes_apart C"
    and idx: "index_points C (abs (ix_indexStore ix))" and "list_all (servable C (abs (ix_indexStore ix))) hss"
    and "decoder_idle cfg C rd cv" and "carries (map (batch_msg k) hss) (inc c)"
  shows "\<exists>rd' cv' c'. decoder_loop api vt ix fs rd cv c = Some (Inr (rd', cv', c')) \<and> inc c' = [] \<and>
     out c' = out c @ concat (map (\<lambda>hs. batch_answer k (map (chunk_of C (abs (ix_indexStore ix))) hs)) hss)"
  using assms(6-)
proof (induction hss arbitrary: rd cv c)
  case Nil
  then obtain c' where "receive_into api (cv_sendChunkBuf cv) c = Some (Inr (False, cv_sendChunkBuf cv, c'))" "inc c' = []" "out c' = out c"
    using receive_into_closed [OF laws] by fastforce
  then show ?case
    by (subst decoder_loop.simps) simp
next
  case (Cons hs hss)
  have hs: "servable C (abs (ix_indexStore ix)) hs"
    using Cons.prems by simp
  obtain r1 r2 where r: "inc c = r1 @ r2" "frame_records (batch_msg k hs) r1" "carries (map (batch_msg k) hss) r2"
    using Cons.prems(3) by auto
  obtain b c1 where b: "decoder_loop api vt ix fs rd cv c =
         bindO (RecvDecoder_ProcessRecipeBatch api vt ix (length hs) fs rd (cv\<lparr>cv_sendChunkBuf := b\<rparr>) c1)
           (\<lambda>(rd2, cv2, c2). decoder_loop api vt ix fs rd2 cv2 c2)"
      "decoder_idle cfg C rd (cv\<lparr>cv_sendChunkBuf := b\<rparr>)" "inc c1 = r2" "out c1 = out c"
      "clientID (header b) = k" "dataSize (header b) = 0" "currentItemNum (header b) = 0" "data_read b 0 (length (concat hs)) = concat hs"
    using decoder_loop_batch [OF laws hs Cons.prems(2) r(1,2)] by blast
  obtain rd2 cv2 c2 where p: "RecvDecoder_ProcessRecipeBatch api vt ix (length hs) fs rd (cv\<lparr>cv_sendChunkBuf := b\<rparr>) c1 = Some (Inr (rd2, cv2, c2))"
      "decoder_idle cfg C rd2 cv2" "inc c2 = inc c1" "out c2 = out c1 @ batch_answer k (map (chunk_of C (abs (ix_indexStore ix))) hs)"
    using restore_batch_spec [OF laws store disk apart idx hs b(2), of k c1] b(5-8) by auto
  then show ?case
    using Cons.IH [OF _ p(2), of c2] Cons.prems(1) b(1,3,4) r(3) by auto
qed

lemma restore_session_spec:
  assumes laws: "ssl_laws api inc out" and store: "inv (ix_indexStore ix)" and disk: "on_disk cfg fs C" and apart: "hashes_apart C"
    and idx: "index_points C (abs (ix_indexStore ix))" and hss: "list_all (servable C (abs (ix_indexStore ix))) hss"
    and idle: "decoder_idle cfg C rd cv" and msgs: "carries (ready_msg k p # map (batch_msg k) hss) (inc c)"
    and p: "length p \<le> MAX_CHUNK_SIZE"
  shows "\<exists>rd' cv' c'. RecvDecoder_Run api vt ix fs rd cv c = Some (Inr (rd', cv', c')) \<and>
     out c' = out c @ concat (map (\<lambda>hs. batch_answer k (map (chunk_of C (abs (ix_indexStore ix))) hs)) hss)"
proof -
  obtain r1 r2 where r: "inc c = r1 @ r2" "frame_records (ready_msg k p) r1" "carries (map (batch_msg k) hss) r2"
    using msgs by auto
  obtain b c1 where b: "RecvDecoder_Run api vt ix fs rd cv c = decoder_loop api vt ix fs rd (cv\<lparr>cv_sendChunkBuf := b\<rparr>) c1"
      "decoder_idle cfg C rd (cv\<lparr>cv_sendChunkBuf := b\<rparr>)" "inc c1 = r2" "out c1 = out c"
    using decoder_starts [OF laws idle r(1,2) p] by blast
  then show ?thesis
    using decoder_loop_spec [OF laws store disk apart idx hss b(2), of k c1] r(3) by auto
qed

end

section \<open>Properties\<close>

text \<open>C7: A restore session over a correct transport answers every request. With the containers \<open>C\<close> on disk, no hash in
  two of them, an index that points each hash to its container, and a consistent cache: when the client sends its ready
  message and then any number of batches of at most 256 indexed hashes, the session ends normally, and what it sent
  is, for each batch in turn, one message with exactly the stored chunks in the order of the hashes, and the
  end message.\<close>

theorem restore_session:
  fixes ix :: "InMemoryDatabase PlainIndex"
  assumes "ssl_laws api inc out" and "inmem_inv (ix_indexStore ix)" and "on_disk cfg fs C" and "hashes_apart C"
    and "index_points C (inmem_abs (ix_indexStore ix))" and "list_all (servable C (inmem_abs (ix_indexStore ix))) hss"
    and "decoder_idle cfg C rd cv" and "carries (ready_msg k p # map (batch_msg k) hss) (inc c)" and "length p \<le> MAX_CHUNK_SIZE"
  shows "\<exists>rd' cv' c'. RecvDecoder_Run api inmem_vtable ix fs rd cv c = Some (Inr (rd', cv', c')) \<and>
     out c' = out c @ concat (map (\<lambda>hs. batch_answer k (map (chunk_of C (inmem_abs (ix_indexStore ix))) hs)) hss)"
  by (rule inmem.restore_session_spec) fact+

definition demo_containers :: containers where
  "demo_containers = [str ''abcdefgh'' \<mapsto> [(replicate 32 1, [5, 6])]]"

definition demo_disk :: filesys where
  "demo_disk = \<lparr>files = [container_file demo_cfg (str ''abcdefgh'') \<mapsto> file_enc 1 [(replicate 32 1, [5, 6])]], openable = (\<lambda>_. True)\<rparr>"

definition restore_index_demo :: "InMemoryDatabase PlainIndex" where
  "restore_index_demo = demo_index\<lparr>ix_indexStore := \<lparr>db_name = [], indexObj = [(replicate 32 1, str ''abcdefgh'')]\<rparr>\<rparr>"

theorem restore_session_witness:
  "\<exists>rd' cv' c'. RecvDecoder_Run queue_api inmem_vtable restore_index_demo demo_disk (AbsRecvDecoder_new demo_cfg)
       (demo_client \<lparr>sendBuffer = (\<lambda>_. 0), sb_size = send_buf_size\<rparr>)
       (concat (map sent_frame [ready_msg 7 [], batch_msg 7 [replicate 32 1, replicate 32 1]]), []) = Some (Inr (rd', cv', c')) \<and>
     snd c' = batch_answer 7 [[5, 6], [5, 6]]"
proof -
  let ?C = demo_containers and ?m = "inmem_abs (ix_indexStore restore_index_demo)"
  let ?cv = "demo_client \<lparr>sendBuffer = (\<lambda>_. 0), sb_size = send_buf_size\<rparr>"
  let ?c = "(concat (map sent_frame [ready_msg 7 [], batch_msg 7 [replicate 32 1, replicate 32 1]]), []) :: bytes list \<times> bytes list"
  have m: "?m = [replicate 32 1 \<mapsto> str ''abcdefgh'']"
    by (simp add: inmem_abs_def restore_index_demo_def)
  have "container_ok [(replicate 32 1, [5, 6])]"
    by (simp add: container_ok_def hashes_ok_def CHUNK_HASH_SIZE_def file_size_def MAX_CONTAINER_SIZE_def MAX_CHUNK_SIZE_def)
  then have d: "on_disk demo_cfg demo_disk ?C" and a: "hashes_apart ?C"
    by (auto simp: on_disk_def demo_containers_def demo_disk_def hashes_apart_def split: if_splits)
  have i: "index_points ?C ?m" and s: "list_all (servable ?C ?m) [[replicate 32 1, replicate 32 1]]"
    by (auto simp: m index_points_def demo_containers_def servable_def CONTAINER_ID_LENGTH_def CHUNK_HASH_SIZE_def str_def split: if_splits)
  have v: "inmem_inv (ix_indexStore restore_index_demo)"
    by (simp add: inmem_inv_def restore_index_demo_def)
  have "rc_inv (ReadCache_new demo_cfg (\<lambda>_ _. 0))"
    by (rule rc_inv_new) (simp_all add: GetReadCacheSize_def demo_cfg_def)
  then have "cache_ok ?C (ReadCache_new demo_cfg (\<lambda>_ _. 0))"
    by (simp add: cache_ok_def rc_lookup_def ReadCache_new_def lru_abs_new)
  then have idle: "decoder_idle demo_cfg ?C (AbsRecvDecoder_new demo_cfg) ?cv"
    by (simp add: decoder_idle_def decoder_for_def AbsRecvDecoder_new_def GetSendChunkBatchSize_def demo_client_def)
  have car: "carries (ready_msg 7 [] # map (batch_msg 7) [[replicate 32 1, replicate 32 1]]) (fst ?c)"
    using carries_sent [of "[ready_msg 7 [], batch_msg 7 [replicate 32 1, replicate 32 1]]"] by simp
  have p: "length ([] :: bytes) \<le> MAX_CHUNK_SIZE"
    by simp
  have ch: "chunk_of ?C ?m (replicate 32 1) = [5, 6]"
    by (simp add: chunk_of_def m demo_containers_def)
  show ?thesis
    using restore_session [OF queue_api_laws v d a i s idle car p] ch by (simp only: list.map concat.simps append_Nil2) simp
qed

end
