(* ===== verification/Upload_Session.thy ===== *)
theory Upload_Session
  imports Data_Receiver
begin

text \<open>
  What an upload means. An abstract upload has the known hashes, the chunks stored, the recipe files and the answers sent;
  each message changes it in one way. The lemmas show, for every index that keeps the laws of a key-value store, that
  \<open>handle_message\<close> simulates the abstract step and that the whole of \<open>DataReceiver::Run\<close> has the abstract effect.
\<close>

section \<open>The abstract upload\<close>

text \<open>The messages of a client and their bytes. An upload starts with one file; \<open>NewFile\<close> goes on with another.\<close>

datatype upload_msg =
    Chunks "bytes list"
  | ChunksEnd
  | SecEntries "bytes list"
  | SecEnd
  | PlainEntries "bytes list"
  | KeyEntries "bytes list"
  | RecipeEnd FileRecipeHead_t
  | NewFile bytes FileRecipeHead_t

fun upload_code :: "upload_msg \<Rightarrow> EDGE_PROTCOL_CODE_SET" where
  "upload_code (Chunks cs) = EDGE_MIGRATION_CHUNK"
| "upload_code ChunksEnd = EDGE_MIGRATION_CHUNK_FINAL"
| "upload_code (SecEntries hs) = EDGE_UPLOAD_SEC_RECIPE"
| "upload_code SecEnd = EDGE_UPLOAD_SEC_RECIPE_END"
| "upload_code (PlainEntries hs) = EDGE_UPLOAD_RECIPE"
| "upload_code (KeyEntries hs) = EDGE_UPLOAD_KEY_RECIPE"
| "upload_code (RecipeEnd h) = EDGE_UPLOAD_RECIPE_END"
| "upload_code (NewFile n h) = EDGE_MIGRATION_NEWFILE"

fun upload_data :: "upload_msg \<Rightarrow> bytes" where
  "upload_data (Chunks cs) = chunks_enc cs"
| "upload_data (SecEntries hs) = concat hs"
| "upload_data (PlainEntries hs) = concat hs"
| "upload_data (KeyEntries hs) = concat hs"
| "upload_data (RecipeEnd h) = frh_enc h"
| "upload_data (NewFile n h) = n @ frh_enc h"
| "upload_data _ = []"

fun upload_items :: "upload_msg \<Rightarrow> nat" where
  "upload_items (Chunks cs) = length cs"
| "upload_items (SecEntries hs) = length hs"
| "upload_items (PlainEntries hs) = length hs"
| "upload_items (KeyEntries hs) = length hs"
| "upload_items _ = 0"

definition upload_head :: "u32 \<Rightarrow> upload_msg \<Rightarrow> NetworkHead_t" where
  "upload_head k m = \<lparr>messageType = edge_code (upload_code m), clientID = k,
     dataSize = of_nat (length (upload_data m)), currentItemNum = of_nat (upload_items m)\<rparr>"

definition upload_bytes :: "u32 \<Rightarrow> upload_msg \<Rightarrow> bytes" where
  "upload_bytes k m = nh_enc (upload_head k m) @ upload_data m"

abbreviation hash_list :: "bytes list \<Rightarrow> bool" where
  "hash_list hs \<equiv> list_all (\<lambda>h. length h = CHUNK_HASH_SIZE) hs"

text \<open>The three files of a name are different and can be created.\<close>

definition name_ok :: "Configure \<Rightarrow> (bytes \<Rightarrow> bool) \<Rightarrow> bytes \<Rightarrow> bool" where
  "name_ok cfg op n \<longleftrightarrow>
     distinct [c_path (recipe_path cfg n), c_path (key_recipe_path cfg n), c_path (secure_recipe_path cfg n)] \<and>
     op (c_path (recipe_path cfg n)) \<and> op (c_path (key_recipe_path cfg n)) \<and> op (c_path (secure_recipe_path cfg n))"

fun upload_ok :: "Configure \<Rightarrow> (bytes \<Rightarrow> bool) \<Rightarrow> upload_msg \<Rightarrow> bool" where
  "upload_ok cfg op (Chunks cs) \<longleftrightarrow> list_all chunk_fits cs \<and> length (chunks_enc cs) \<le> 256 * sizeof_Chunk"
| "upload_ok cfg op (SecEntries hs) \<longleftrightarrow> hash_list hs \<and> length (concat hs) \<le> 256 * sizeof_Chunk"
| "upload_ok cfg op (PlainEntries hs) \<longleftrightarrow> hash_list hs \<and> length (concat hs) \<le> 256 * sizeof_Chunk"
| "upload_ok cfg op (KeyEntries hs) \<longleftrightarrow> hash_list hs \<and> length (concat hs) \<le> 256 * sizeof_Chunk"
| "upload_ok cfg op (NewFile n h) \<longleftrightarrow> length n = CHUNK_HASH_SIZE * 2 \<and> name_ok cfg op n"
| "upload_ok cfg op _ \<longleftrightarrow> True"

text \<open>What an upload has done: the hashes that are known, the chunks stored in order, the file in progress, the
  contents of the recipe directory, and the frames sent to the client.\<close>

record upload_abs =
  ua_known :: "bytes set"
  ua_stored :: "(bytes \<times> bytes) list"
  ua_name :: bytes
  ua_disk :: "bytes \<rightharpoonup> bytes"
  ua_answers :: "bytes list"

definition query_answer :: "u32 \<Rightarrow> bytes set \<Rightarrow> bytes list \<Rightarrow> bytes" where
  "query_answer k known hs = nh_enc \<lparr>messageType = CLOUD_QUERY_RETURN, clientID = k,
     dataSize = of_nat (length hs), currentItemNum = of_nat (length hs)\<rparr> @ map (\<lambda>h. if h \<in> known then 0 else 1) hs"

definition append_file :: "bytes \<Rightarrow> bytes \<Rightarrow> (bytes \<rightharpoonup> bytes) \<Rightarrow> (bytes \<rightharpoonup> bytes)" where
  "append_file path bs disk = disk(c_path path \<mapsto> the (disk (c_path path)) @ bs)"

fun upload_step :: "Configure \<Rightarrow> (bytes \<Rightarrow> bytes) \<Rightarrow> u32 \<Rightarrow> upload_msg \<Rightarrow> upload_abs \<Rightarrow> upload_abs" where
  "upload_step cfg H k (Chunks cs) a = a\<lparr>ua_known := ua_known a \<union> H ` set cs,
     ua_stored := ua_stored a @ map (\<lambda>c. (H c, c)) (dedup H (ua_known a) cs)\<rparr>"
| "upload_step cfg H k (SecEntries hs) a = a\<lparr>ua_disk := append_file (secure_recipe_path cfg (ua_name a)) (concat hs) (ua_disk a),
     ua_answers := ua_answers a @ sent_frame (query_answer k (ua_known a) hs)\<rparr>"
| "upload_step cfg H k (PlainEntries hs) a = a\<lparr>ua_disk := append_file (recipe_path cfg (ua_name a)) (concat hs) (ua_disk a)\<rparr>"
| "upload_step cfg H k (KeyEntries hs) a = a\<lparr>ua_disk := append_file (key_recipe_path cfg (ua_name a)) (concat hs) (ua_disk a)\<rparr>"
| "upload_step cfg H k (NewFile n h) a = a\<lparr>ua_name := n,
     ua_disk := (ua_disk a)(c_path (recipe_path cfg n) \<mapsto> frh_enc h, c_path (key_recipe_path cfg n) \<mapsto> frh_enc h,
       c_path (secure_recipe_path cfg n) \<mapsto> frh_enc h)\<rparr>"
| "upload_step cfg H k _ a = a"

section \<open>The index after an upload\<close>

text \<open>\<open>N\<close> lists what an upload stored, each chunk with its hash and the name of its container.\<close>

definition index_extends :: "(bytes \<rightharpoonup> bytes) \<Rightarrow> (bytes \<times> bytes \<times> bytes) list \<Rightarrow> (bytes \<rightharpoonup> bytes) \<Rightarrow> bool" where
  "index_extends m0 N m \<longleftrightarrow> (\<forall>(n, h, d) \<in> set N. m h = Some n) \<and> (\<forall>h. h \<notin> fst ` snd ` set N \<longrightarrow> m h = m0 h)"

lemma names_ok_in:
  assumes "names_ok N m m'" and "distinct (map (fst \<circ> snd) N)" and "(n, h, x) \<in> set N"
  shows "m' h = Some n"
proof -
  have "map fst (map (\<lambda>(n, h, d). (h, n)) N) = map (fst \<circ> snd) N"
    by (simp add: case_prod_unfold)
  moreover have "(h, n) \<in> set (map (\<lambda>(n, h, d). (h, n)) N)"
    using assms(3) by force
  ultimately have "map_of (map (\<lambda>(n, h, d). (h, n)) N) h = Some n"
    using assms(2) by (metis map_of_is_SomeI)
  then show ?thesis
    using assms(1) by (simp add: names_ok_def)
qed

lemma names_ok_notin:
  assumes "names_ok N m m'" and "h \<notin> fst ` snd ` set N"
  shows "m' h = m h"
proof -
  have "map_of (map (\<lambda>(n, h, d). (h, n)) N) h = None"
    using assms(2) by (force simp: map_of_eq_None_iff)
  then show ?thesis
    using assms(1) by (simp add: names_ok_def)
qed

lemma index_extends_append:
  assumes e: "index_extends m0 N m" and n: "names_ok N' m m'" and d: "distinct (map (fst \<circ> snd) N')"
    and new: "fst ` snd ` set N' \<inter> dom m = {}"
  shows "index_extends m0 (N @ N') m'"
proof -
  have "m' h = Some n" if "(n, h, x) \<in> set N" for n h x
  proof -
    have "m h = Some n"
      using e that by (auto simp: index_extends_def)
    then show ?thesis
      using names_ok_notin [OF n] new by (metis disjoint_iff domI)
  qed
  then show ?thesis
    using e names_ok_in [OF n d] names_ok_notin [OF n] by (auto simp: index_extends_def image_Un)
qed

text \<open>A batch whose stored chunks are the result of the deduplication.\<close>

lemma batch_names:
  assumes N: "map snd N = map (\<lambda>c. (H c, c)) (dedup H (dom m) cs)" and names: "names_ok N m m'"
  shows "distinct (map (fst \<circ> snd) N)" and "fst ` snd ` set N \<inter> dom m = {}" and "dom m' = dom m \<union> H ` set cs"
proof -
  have keys: "map (fst \<circ> snd) N = map H (dedup H (dom m) cs)"
    using arg_cong [OF N, of "map fst"] by (simp add: comp_def)
  then show d: "distinct (map (fst \<circ> snd) N)"
    by (simp add: distinct_dedup)
  have ks: "fst ` snd ` set N = H ` set cs - dom m"
    using arg_cong [OF keys, of set] by (simp add: image_comp set_dedup)
  then show "fst ` snd ` set N \<inter> dom m = {}"
    by blast
  have "h \<in> dom m' \<longleftrightarrow> h \<in> dom m \<or> h \<in> fst ` snd ` set N" for h
  proof (cases "h \<in> fst ` snd ` set N")
    case True
    then obtain n x where "(n, h, x) \<in> set N"
      by (auto simp: image_iff)
    then have "m' h = Some n"
      by (rule names_ok_in [OF names d])
    then show ?thesis
      using True by (simp add: domI)
  next
    case False
    then show ?thesis
      using names_ok_notin [OF names] by (simp add: dom_def)
  qed
  then show "dom m' = dom m \<union> H ` set cs"
    unfolding ks by blast
qed

section \<open>The relation between the receiver and the abstract upload\<close>

text \<open>
  \<open>L0\<close> and \<open>m0\<close> are what the connection and the index held at the start, \<open>b0\<close> the value of the counter
  of the first container, \<open>op\<close> the paths that can be opened.
\<close>

definition writer_open :: "ofstream \<Rightarrow> bytes \<Rightarrow> filesys \<Rightarrow> bool" where
  "writer_open h path fs \<longleftrightarrow> (\<exists>c. writer_at h path c fs)"

definition receiver_ok :: "Configure \<Rightarrow> ('s \<Rightarrow> bytes list) \<Rightarrow> (bytes \<Rightarrow> bool) \<Rightarrow> evp_api \<Rightarrow> (bytes \<Rightarrow> bytes) \<Rightarrow> bytes
    \<Rightarrow> (bytes \<rightharpoonup> bytes) \<Rightarrow> bytes list \<Rightarrow> ('d, 's) receiver \<Rightarrow> bool" where
  "receiver_ok cfg out op evp H name disk answers r \<longleftrightarrow>
     hashes_with evp (ix_crypto (rv_ix r)) H \<and> ix_sendChunkBatchSize (rv_ix r) = 256 \<and>
     sb_size (cv_recvChunkBuf (rv_cv r)) = 16 + 256 * sizeof_Chunk \<and> cv_optType (rv_cv r) = opt_code UPLOAD_OPT \<and>
     name_ok cfg op name \<and> cv_recipePath (rv_cv r) = recipe_path cfg name \<and>
     cv_keyRecipePath (rv_cv r) = key_recipe_path cfg name \<and> cv_secureRecipePath (rv_cv r) = secure_recipe_path cfg name \<and>
     writer_open (cv_recipeW (rv_cv r)) (recipe_path cfg name) (w_fs (rv_w r)) \<and>
     writer_open (cv_keyRecipeW (rv_cv r)) (key_recipe_path cfg name) (w_fs (rv_w r)) \<and>
     writer_open (cv_secureRecipeW (rv_cv r)) (secure_recipe_path cfg name) (w_fs (rv_w r)) \<and>
     files (w_fs (rv_w r)) = disk \<and>
     openable (w_fs (rv_w r)) = op \<and> out (rv_conn r) = answers"

definition stored_rel :: "u32 \<Rightarrow> (bytes \<times> bytes \<times> bytes) list \<Rightarrow> (bytes \<rightharpoonup> bytes) \<Rightarrow> upload_abs \<Rightarrow> (bytes \<rightharpoonup> bytes) \<Rightarrow> ClientVar \<Rightarrow> bool" where
  "stored_rel b0 L0 m0 a m cv \<longleftrightarrow> ua_known a = dom m \<and>
     (\<exists>N. client_holds b0 cv (L0 @ N) \<and> map snd N = ua_stored a \<and> index_extends m0 N m)"

lemma client_holds_cong:
  "cv_pushed cv' = cv_pushed cv \<Longrightarrow> cv_curContainer cv' = cv_curContainer cv \<Longrightarrow> client_holds b0 cv' L = client_holds b0 cv L"
  by (simp add: client_holds_def client_rep_def store_log_def)

lemma stored_rel_cong:
  "stored_rel b0 L0 m0 a m cv \<Longrightarrow> ua_known a' = ua_known a \<Longrightarrow> ua_stored a' = ua_stored a \<Longrightarrow>
   cv_pushed cv' = cv_pushed cv \<Longrightarrow> cv_curContainer cv' = cv_curContainer cv \<Longrightarrow> stored_rel b0 L0 m0 a' m cv'"
  unfolding stored_rel_def by (metis client_holds_cong)

lemma stored_rel_upd [simp]:
  "stored_rel b0 L0 m0 a m (cv\<lparr>cv_uploadDataSize := x\<rparr>) = stored_rel b0 L0 m0 a m cv"
  "stored_rel b0 L0 m0 a m (cv\<lparr>cv_recvChunkBuf := b\<rparr>) = stored_rel b0 L0 m0 a m cv"
  by (simp_all add: stored_rel_def client_holds_def client_rep_def store_log_def)

lemma stored_rel_batch:
  assumes N0: "map snd N0 = ua_stored a" "index_extends m0 N0 m" "ua_known a = dom m"
    and N: "map snd N = map (\<lambda>c. (H c, c)) (dedup H (dom m) cs)" and names: "names_ok N m m'"
    and holds: "client_holds b0 cv' ((L0 @ N0) @ N)"
  shows "stored_rel b0 L0 m0 (upload_step cfg H k (Chunks cs) a) m' cv'"
proof -
  have "index_extends m0 (N0 @ N) m'"
    using index_extends_append [OF N0(2) names] batch_names [OF N names] by blast
  moreover have "client_holds b0 cv' (L0 @ N0 @ N)"
    using holds by simp
  ultimately show ?thesis
    using N N0 batch_names(3) [OF N names] unfolding stored_rel_def by (auto intro!: exI [of _ "N0 @ N"])
qed

text \<open>Writing entries to one of the three recipe files.\<close>

lemma os_write_writer:
  assumes "writer_open h path fs"
  shows "\<exists>h'. os_write h bs fs = (h', fs\<lparr>files := append_file path bs (files fs)\<rparr>) \<and>
     writer_open h' path (fs\<lparr>files := append_file path bs (files fs)\<rparr>)"
proof -
  obtain c where "writer_at h path c fs"
    using assms by (auto simp: writer_open_def)
  then have "os_write h bs fs = (h\<lparr>os_pos := length (c @ bs)\<rparr>, fs\<lparr>files := append_file path bs (files fs)\<rparr>)"
      "writer_at (h\<lparr>os_pos := length (c @ bs)\<rparr>) path (c @ bs) (fs\<lparr>files := append_file path bs (files fs)\<rparr>)"
    by (simp_all add: writer_at_def os_write_def append_file_def)
  then show ?thesis
    unfolding writer_open_def by blast
qed

lemma writer_open_other:
  "writer_open h path fs \<Longrightarrow> files fs' (c_path path) = files fs (c_path path) \<Longrightarrow> writer_open h path fs'"
  by (simp add: writer_open_def writer_at_def)

lemma append_file_other: "c_path path \<noteq> c_path other \<Longrightarrow> append_file other bs d (c_path path) = d (c_path path)"
  by (simp add: append_file_def)

lemma same_frame_recipes:
  assumes "same_frame cv cv'"
  shows "cv_optType cv' = cv_optType cv" "cv_recipePath cv' = cv_recipePath cv" "cv_keyRecipePath cv' = cv_keyRecipePath cv"
    "cv_secureRecipePath cv' = cv_secureRecipePath cv" "cv_recipeW cv' = cv_recipeW cv" "cv_keyRecipeW cv' = cv_keyRecipeW cv"
    "cv_secureRecipeW cv' = cv_secureRecipeW cv"
  using assms unfolding same_frame_def by (cases cv, cases cv', simp)+

definition upload_rel :: "Configure \<Rightarrow> ('d \<Rightarrow> bool) \<Rightarrow> ('d \<Rightarrow> bytes \<rightharpoonup> bytes) \<Rightarrow> ('s \<Rightarrow> bytes list) \<Rightarrow> (bytes \<Rightarrow> bool) \<Rightarrow> evp_api
    \<Rightarrow> (bytes \<Rightarrow> bytes) \<Rightarrow> u32 \<Rightarrow> (bytes \<times> bytes \<times> bytes) list \<Rightarrow> (bytes \<rightharpoonup> bytes) \<Rightarrow> upload_abs \<Rightarrow> ('d, 's) receiver \<Rightarrow> bool" where
  "upload_rel cfg I A out op evp H b0 L0 m0 a r \<longleftrightarrow> I (ix_indexStore (rv_ix r)) \<and>
     receiver_ok cfg out op evp H (ua_name a) (ua_disk a) (ua_answers a) r \<and>
     stored_rel b0 L0 m0 a (A (ix_indexStore (rv_ix r))) (rv_cv r)"

text \<open>The message in the receive buffer.\<close>

definition msg_in :: "u32 \<Rightarrow> upload_msg \<Rightarrow> ('d, 's) receiver \<Rightarrow> bool" where
  "msg_in k m r \<longleftrightarrow> header (cv_recvChunkBuf (rv_cv r)) = upload_head k m \<and>
     data_read (cv_recvChunkBuf (rv_cv r)) 0 (length (upload_data m)) = upload_data m"

lemma msg_code: "msg_in k m r \<Longrightarrow> edge_of_code (messageType (header (cv_recvChunkBuf (rv_cv r)))) = Some (upload_code m)"
  by (simp add: msg_in_def upload_head_def del: edge_code.simps)

lemma concat_hashes: "hash_list hs \<Longrightarrow> length (concat hs) = length hs * CHUNK_HASH_SIZE"
  by (induction hs) auto

lemma upload_ok_size: "upload_ok cfg op m \<Longrightarrow> length (upload_data m) \<le> 256 * sizeof_Chunk"
  by (cases m) (auto simp: const_simps)

lemma length_chunks_le: "length cs \<le> length (chunks_enc cs)"
  by (induction cs) auto

lemma head_at_spec:
  assumes "data_read b 0 (length (n @ frh_enc h)) = n @ frh_enc h" and "length n + 16 \<le> data_size b"
  shows "head_at b (length n) = Inr h" and "data_read b 0 (length n) = n"
proof -
  have "data_read b 0 (length n) @ data_read b (length n) 16 = n @ frh_enc h"
    using assms(1) by (simp add: data_read_def mem_read_add)
  then have "data_read b 0 (length n) = n" "data_read b (length n) 16 = frh_enc h"
    by (simp_all add: append_eq_append_conv data_read_def)
  then show "head_at b (length n) = Inr h" "data_read b 0 (length n) = n"
    using assms(2) by (simp_all add: head_at_def sizeof_FileRecipeHead_def)
qed

lemma ChangeFile_spec:
  assumes up: "cv_optType cv = opt_code UPLOAD_OPT" and n: "name_ok cfg (openable (w_fs w)) n"
  shows "\<exists>cv' w'. ChangeFile cfg n f t cv w = Inr (cv', w') \<and>
     cv_recipePath cv' = recipe_path cfg n \<and> cv_keyRecipePath cv' = key_recipe_path cfg n \<and>
     cv_secureRecipePath cv' = secure_recipe_path cfg n \<and> cv_optType cv' = cv_optType cv \<and>
     cv_recvChunkBuf cv' = cv_recvChunkBuf cv \<and> cv_pushed cv' = cv_pushed cv \<and> cv_curContainer cv' = cv_curContainer cv \<and>
     recipes_open cv' (frh_enc \<lparr>fileSize = f, totalChunkNum = t\<rparr>) (frh_enc \<lparr>fileSize = f, totalChunkNum = t\<rparr>)
       (frh_enc \<lparr>fileSize = f, totalChunkNum = t\<rparr>) (w_fs w') \<and>
     files (w_fs w') = (files (w_fs w))(c_path (recipe_path cfg n) \<mapsto> frh_enc \<lparr>fileSize = f, totalChunkNum = t\<rparr>,
       c_path (key_recipe_path cfg n) \<mapsto> frh_enc \<lparr>fileSize = f, totalChunkNum = t\<rparr>,
       c_path (secure_recipe_path cfg n) \<mapsto> frh_enc \<lparr>fileSize = f, totalChunkNum = t\<rparr>) \<and>
     openable (w_fs w') = openable (w_fs w)"
proof -
  define cv1 where "cv1 = cv\<lparr>cv_recipePath := recipe_path cfg n, cv_secureRecipePath := secure_recipe_path cfg n,
     cv_keyRecipePath := key_recipe_path cfg n, cv_fileSize := f, cv_totalChunkNum := t,
     cv_recipeW := os_close (cv_recipeW cv), cv_keyRecipeW := os_close (cv_keyRecipeW cv),
     cv_secureRecipeW := os_close (cv_secureRecipeW cv)\<rparr>"
  have ch: "ChangeFile cfg n f t cv w = init_recipes cv1 w"
    using up by (simp add: ChangeFile_def Let_def cv1_def)
  have "paths_distinct cv1" "openable (w_fs w) (c_path (cv_recipePath cv1))" "openable (w_fs w) (c_path (cv_keyRecipePath cv1))"
      "openable (w_fs w) (c_path (cv_secureRecipePath cv1))"
    using n by (simp_all add: name_ok_def paths_distinct_def cv1_def)
  note ir = init_recipes_ok [OF this]
  have head: "recipe_head cv1 = frh_enc \<lparr>fileSize = f, totalChunkNum = t\<rparr>"
    by (simp add: recipe_head_def cv1_def)
  show ?thesis
    using ir unfolding ch head by (elim exE conjE) (simp add: cv1_def)
qed

lemma entry_bytes_entries:
  assumes "header b = \<lparr>messageType = t, clientID = k, dataSize = of_nat (length (concat hs)), currentItemNum = of_nat (length hs)\<rparr>"
    and "data_read b 0 (length (concat hs)) = concat hs" and "hash_list hs"
    and "length (concat hs) \<le> 256 * sizeof_Chunk" and "data_size b = 256 * sizeof_Chunk"
  shows "entry_bytes b = Inr (concat hs)"
proof -
  have l: "length hs * CHUNK_HASH_SIZE \<le> 256 * sizeof_Chunk"
    using assms(3,4) concat_hashes by metis
  have "(of_nat (length hs) :: u32) * of_nat CHUNK_HASH_SIZE = of_nat (length hs * CHUNK_HASH_SIZE)"
    by simp
  then have "unat ((of_nat (length hs) :: u32) * of_nat CHUNK_HASH_SIZE) = length (concat hs)"
    using l concat_hashes [OF assms(3)] by (simp only:) (rule unat_of_nat_u32, simp add: const_simps)
  then show ?thesis
    using assms l concat_hashes [OF assms(3)] by (simp add: entry_bytes_def Let_def)
qed

lemma finish_upload_spec:
  assumes "client_holds b0 (rv_cv r) L"
  shows "\<exists>r' info fl. finish_upload r = Inr (r', info) \<and> cv_done (rv_cv r') \<and> w_fs (rv_w r') = w_fs (rv_w r) \<and>
     rv_ix r' = rv_ix r \<and> rv_conn r' = rv_conn r \<and> length (cv_pushed (rv_cv r')) = length fl \<and>
     (\<forall>i < length fl. file_rep (base_at b0 i) (cv_pushed (rv_cv r') ! i) (fl ! i)) \<and> concat (map file_log fl) = L"
proof -
  let ?cv = "rv_cv r" and ?ix = "rv_ix r"
  define info where "info = \<lparr>ei_uniqueChunkNum = ix_uniqueChunkNum ?ix, ei_uniqueDataSize = ix_uniqueDataSize ?ix,
     ei_logicalChunkNum = ix_logicalChunkNum ?ix, ei_logicalDataSize = ix_logicalDataSize ?ix,
     ei_compressedSize = ix_compressedDataSize ?ix\<rparr>"
  obtain fl es where rep: "client_rep b0 ?cv fl es" and L: "L = store_log ?cv fl es"
    using assms by (auto simp: client_holds_def)
  have cont: "cont_rep (base_at b0 (length fl)) (cv_curContainer ?cv) es"
    using rep by (simp add: client_rep_def)
  then have empty: "ic_currentHeaderSize (cv_curContainer ?cv) = 0 \<longleftrightarrow> es = []"
    by (auto simp: cont_rep_def simp flip: unat_eq_0)
  show ?thesis
  proof (cases "es = []")
    case True
    then show ?thesis
      using rep L empty by (intro exI [of _ "r\<lparr>rv_cv := ?cv\<lparr>cv_done := True\<rparr>\<rparr>"] exI [of _ info] exI [of _ fl])
        (simp add: finish_upload_def Let_def info_def client_rep_def store_log_def file_log_def)
  next
    case False
    obtain k w' where k: "Ocall_WriteContainer ?cv (rv_w r) = Inr (?cv\<lparr>cv_pushed := cv_pushed ?cv @ [k]\<rparr>, w')"
        "ct_containerID k = ic_containerID (cv_curContainer ?cv)" "ct_bytes k = file_enc (base_at b0 (length fl) + of_nat (length es)) es"
        "w_fs w' = w_fs (rv_w r)"
      using Ocall_WriteContainer_spec [OF cont] by blast
    let ?f = "(ic_containerID (cv_curContainer ?cv), es)"
    have "file_rep (base_at b0 (length fl)) k ?f"
      using k cont False by (simp add: file_rep_def cont_rep_def)
    then have "\<forall>i < length (fl @ [?f]). file_rep (base_at b0 i) ((cv_pushed ?cv @ [k]) ! i) ((fl @ [?f]) ! i)"
      using rep by (auto simp: client_rep_def nth_append less_Suc_eq)
    then show ?thesis
      using rep L k False empty by (intro exI [of _ "r\<lparr>rv_cv := ?cv\<lparr>cv_pushed := cv_pushed ?cv @ [k], cv_done := True\<rparr>, rv_w := w'\<rparr>"] exI [of _ info] exI [of _ "fl @ [?f]"])
        (simp add: finish_upload_def Let_def info_def client_rep_def store_log_def)
  qed
qed

definition unhandled :: "u32 \<Rightarrow> bool" where
  "unhandled t \<longleftrightarrow> edge_of_code t \<notin> Some ` {EDGE_MIGRATION_CHUNK, EDGE_MIGRATION_CHUNK_FINAL, EDGE_UPLOAD_SEC_RECIPE,
     EDGE_UPLOAD_SEC_RECIPE_END, EDGE_MIGRATION_NEWFILE, EDGE_UPLOAD_RECIPE, EDGE_UPLOAD_KEY_RECIPE, EDGE_UPLOAD_RECIPE_END}"

context key_value_store
begin

lemma handle_chunks:
  assumes rel: "upload_rel cfg inv abs out op evp H b0 L0 m0 a r" and ok: "upload_ok cfg op (Chunks cs)" and msg: "msg_in k (Chunks cs) r"
  shows "\<exists>r'. handle_message cfg api vt evp r = Some (Inr r') \<and> rv_conn r' = rv_conn r \<and>
     upload_rel cfg inv abs out op evp H b0 L0 m0 (upload_step cfg H k (Chunks cs) a) r'"
proof -
  let ?ix = "rv_ix r" and ?cv = "rv_cv r" and ?m = "abs (ix_indexStore (rv_ix r))"
  have inv0: "inv (ix_indexStore ?ix)" and rok: "receiver_ok cfg out op evp H (ua_name a) (ua_disk a) (ua_answers a) r"
    using rel by (auto simp: upload_rel_def)
  obtain N0 where N0: "client_holds b0 ?cv (L0 @ N0)" "map snd N0 = ua_stored a" "index_extends m0 N0 ?m" "ua_known a = dom ?m"
    using rel by (auto simp: upload_rel_def stored_rel_def)
  have fits: "list_all chunk_fits cs" and len: "length (chunks_enc cs) \<le> 256 * sizeof_Chunk"
    using ok by simp_all
  have "unat (of_nat (length cs) :: u32) = length cs"
    using len length_chunks_le [of cs] by (intro unat_of_nat_u32) (simp add: const_simps)
  then have m: "msg_is (cv_recvChunkBuf ?cv) cs"
    using msg len rok by (simp add: msg_is_def msg_in_def upload_head_def receiver_ok_def data_size_def sizeof_NetworkHead_def)
  have hash: "hashes_with evp (ix_crypto ?ix) H"
    and buf: "unat (ix_sendChunkBatchSize ?ix) * sizeof_Chunk \<le> data_size (cv_recvChunkBuf ?cv)"
    using rok by (simp_all add: receiver_ok_def data_size_def sizeof_NetworkHead_def)
  obtain N :: "(bytes \<times> bytes \<times> bytes) list" and ix' cv' w' b where p: "ProcessOneBatch vt evp ?ix ?cv (rv_w r) = Inr (ix', cv', w')"
      "inv (ix_indexStore ix')" "w_fs w' = w_fs (rv_w r)" "client_holds b0 cv' ((L0 @ N0) @ N)"
      "map snd N = map (\<lambda>c. (H c, c)) (dedup H (dom ?m) cs)" "names_ok N ?m (abs (ix_indexStore ix'))"
      "ix_crypto ix' = ix_crypto ?ix" "ix_sendChunkBatchSize ix' = ix_sendChunkBatchSize ?ix"
      "same_frame (?cv\<lparr>cv_recvChunkBuf := b\<rparr>) cv'" "sb_size b = sb_size (cv_recvChunkBuf ?cv)"
    using ProcessOneBatch_frame [OF inv0 N0(1) hash fits m buf, of "rv_w r"] by blast
  let ?r = "r\<lparr>rv_ix := ix', rv_cv := cv', rv_w := w', rv_dr := (rv_dr r)\<lparr>dr_batchNum := dr_batchNum (rv_dr r) + 1\<rparr>\<rparr>"
  have "handle_message cfg api vt evp r = Some (Inr ?r)"
    using msg_code [OF msg] p(1) by (simp add: handle_message_def Let_def)
  moreover have "receiver_ok cfg out op evp H (ua_name a) (ua_disk a) (ua_answers a) ?r"
    using rok p(3,7,8,10) same_frame_recipes [OF p(9)] same_frame_recv [OF p(9)] by (simp add: receiver_ok_def)
  moreover have "stored_rel b0 L0 m0 (upload_step cfg H k (Chunks cs) a) (abs (ix_indexStore ix')) cv'"
    by (rule stored_rel_batch [OF N0(2-4) p(5,6,4)])
  ultimately show ?thesis
    using p(2) by (intro exI [of _ ?r]) (simp add: upload_rel_def)
qed

lemma handle_plain:
  assumes rel: "upload_rel cfg inv abs out op evp H b0 L0 m0 a r" and ok: "upload_ok cfg op (PlainEntries hs)"
    and msg: "msg_in k (PlainEntries hs) r"
  shows "\<exists>r'. handle_message cfg api vt evp r = Some (Inr r') \<and> rv_conn r' = rv_conn r \<and>
     upload_rel cfg inv abs out op evp H b0 L0 m0 (upload_step cfg H k (PlainEntries hs) a) r'"
proof -
  let ?fs = "w_fs (rv_w r)" and ?p = "recipe_path cfg (ua_name a)"
  have rok: "receiver_ok cfg out op evp H (ua_name a) (ua_disk a) (ua_answers a) r"
    using rel by (auto simp: upload_rel_def)
  have e: "entry_bytes (cv_recvChunkBuf (rv_cv r)) = Inr (concat hs)"
    using msg ok rok by (intro entry_bytes_entries) (auto simp: msg_in_def upload_head_def receiver_ok_def data_size_def sizeof_NetworkHead_def)
  obtain h' where h: "os_write (cv_recipeW (rv_cv r)) (concat hs) ?fs = (h', ?fs\<lparr>files := append_file ?p (concat hs) (files ?fs)\<rparr>)"
      "writer_open h' ?p (?fs\<lparr>files := append_file ?p (concat hs) (files ?fs)\<rparr>)"
    using os_write_writer rok unfolding receiver_ok_def by blast
  let ?r = "r\<lparr>rv_cv := (rv_cv r)\<lparr>cv_recipeW := h'\<rparr>, rv_w := (rv_w r)\<lparr>w_fs := ?fs\<lparr>files := append_file ?p (concat hs) (files ?fs)\<rparr>\<rparr>\<rparr>"
  have "handle_message cfg api vt evp r = Some (Inr ?r)"
    using msg_code [OF msg] e h(1) by (simp add: handle_message_def Let_def)
  moreover have "receiver_ok cfg out op evp H (ua_name a) (append_file ?p (concat hs) (ua_disk a)) (ua_answers a) ?r"
    using rok h(2) by (auto simp: receiver_ok_def name_ok_def append_file_other elim!: writer_open_other)
  moreover have "stored_rel b0 L0 m0 (upload_step cfg H k (PlainEntries hs) a) (abs (ix_indexStore (rv_ix r))) (rv_cv ?r)"
    using rel unfolding upload_rel_def by (elim conjE, elim stored_rel_cong) simp_all
  ultimately show ?thesis
    using rel by (intro exI [of _ ?r]) (simp add: upload_rel_def)
qed

lemma handle_key:
  assumes rel: "upload_rel cfg inv abs out op evp H b0 L0 m0 a r" and ok: "upload_ok cfg op (KeyEntries hs)"
    and msg: "msg_in k (KeyEntries hs) r"
  shows "\<exists>r'. handle_message cfg api vt evp r = Some (Inr r') \<and> rv_conn r' = rv_conn r \<and>
     upload_rel cfg inv abs out op evp H b0 L0 m0 (upload_step cfg H k (KeyEntries hs) a) r'"
proof -
  let ?fs = "w_fs (rv_w r)" and ?p = "key_recipe_path cfg (ua_name a)"
  have rok: "receiver_ok cfg out op evp H (ua_name a) (ua_disk a) (ua_answers a) r"
    using rel by (auto simp: upload_rel_def)
  have e: "entry_bytes (cv_recvChunkBuf (rv_cv r)) = Inr (concat hs)"
    using msg ok rok by (intro entry_bytes_entries) (auto simp: msg_in_def upload_head_def receiver_ok_def data_size_def sizeof_NetworkHead_def)
  obtain h' where h: "os_write (cv_keyRecipeW (rv_cv r)) (concat hs) ?fs = (h', ?fs\<lparr>files := append_file ?p (concat hs) (files ?fs)\<rparr>)"
      "writer_open h' ?p (?fs\<lparr>files := append_file ?p (concat hs) (files ?fs)\<rparr>)"
    using os_write_writer rok unfolding receiver_ok_def by blast
  let ?r = "r\<lparr>rv_cv := (rv_cv r)\<lparr>cv_keyRecipeW := h'\<rparr>, rv_w := (rv_w r)\<lparr>w_fs := ?fs\<lparr>files := append_file ?p (concat hs) (files ?fs)\<rparr>\<rparr>\<rparr>"
  have "handle_message cfg api vt evp r = Some (Inr ?r)"
    using msg_code [OF msg] e h(1) by (simp add: handle_message_def Let_def)
  moreover have "receiver_ok cfg out op evp H (ua_name a) (append_file ?p (concat hs) (ua_disk a)) (ua_answers a) ?r"
    using rok h(2) by (auto simp: receiver_ok_def name_ok_def append_file_other elim!: writer_open_other)
  moreover have "stored_rel b0 L0 m0 (upload_step cfg H k (KeyEntries hs) a) (abs (ix_indexStore (rv_ix r))) (rv_cv ?r)"
    using rel unfolding upload_rel_def by (elim conjE, elim stored_rel_cong) simp_all
  ultimately show ?thesis
    using rel by (intro exI [of _ ?r]) (simp add: upload_rel_def)
qed

lemma handle_secure:
  assumes laws: "ssl_laws api inc out" and rel: "upload_rel cfg inv abs out op evp H b0 L0 m0 a r"
    and ok: "upload_ok cfg op (SecEntries hs)" and msg: "msg_in k (SecEntries hs) r"
  shows "\<exists>r'. handle_message cfg api vt evp r = Some (Inr r') \<and> inc (rv_conn r') = inc (rv_conn r) \<and>
     upload_rel cfg inv abs out op evp H b0 L0 m0 (upload_step cfg H k (SecEntries hs) a) r'"
proof -
  let ?fs = "w_fs (rv_w r)" and ?p = "secure_recipe_path cfg (ua_name a)" and ?b = "cv_recvChunkBuf (rv_cv r)"
  let ?m = "abs (ix_indexStore (rv_ix r))"
  have inv0: "inv (ix_indexStore (rv_ix r))" and rok: "receiver_ok cfg out op evp H (ua_name a) (ua_disk a) (ua_answers a) r"
    and known: "ua_known a = dom ?m"
    using rel by (auto simp: upload_rel_def stored_rel_def)
  have hs: "hash_list hs" and len: "length (concat hs) \<le> 256 * sizeof_Chunk"
    using ok by simp_all
  have n: "unat (of_nat (length hs) :: u32) = length hs" and hb: "length hs \<le> 256 * sizeof_Chunk"
    using len concat_hashes [OF hs] by (simp_all add: const_simps unat_of_nat_u32)
  obtain c where c: "writer_at (cv_secureRecipeW (rv_cv r)) ?p c ?fs"
    using rok by (auto simp: receiver_ok_def writer_open_def)
  have hd: "header ?b = \<lparr>messageType = edge_code EDGE_UPLOAD_SEC_RECIPE, clientID = k,
      dataSize = of_nat (length (concat hs)), currentItemNum = of_nat (length hs)\<rparr>"
    and dr: "data_read ?b 0 (length (concat hs)) = concat hs"
    using msg by (simp_all add: msg_in_def upload_head_def)
  have sz: "length (concat hs) \<le> data_size ?b" "length (concat hs) < 2 ^ 32"
    using len rok by (simp_all add: receiver_ok_def data_size_def const_simps)
  obtain h' b' fs' where p: "ProcessRecipeBatch vt (rv_ix r) (rv_cv r) (rv_w r)
         = Inr ((rv_cv r)\<lparr>cv_secureRecipeW := h', cv_recvChunkBuf := b'\<rparr>, (rv_w r)\<lparr>w_fs := fs'\<rparr>)"
      "header b' = \<lparr>messageType = CLOUD_QUERY_RETURN, clientID = k, dataSize = of_nat (length hs), currentItemNum = of_nat (length hs)\<rparr>"
      "data_read b' 0 (length hs) = map (\<lambda>h. if h \<in> dom ?m then 0 else 1) hs" "sb_size b' = sb_size ?b"
      "writer_at h' ?p (c @ concat hs) fs'" "files fs' = (files ?fs)(c_path ?p \<mapsto> c @ concat hs)" "openable fs' = openable ?fs"
      "mem_read (sendBuffer b') 0 sizeof_NetworkHead = nh_enc (header b')"
    using ProcessRecipeBatch_spec [OF inv0 hs hd dr sz refl c] by blast
  have files: "files fs' = append_file ?p (concat hs) (files ?fs)"
    using p(6) c by (simp add: append_file_def writer_at_def)
  have ans: "mem_read (sendBuffer b') 0 (sizeof_NetworkHead + length hs) = query_answer k (ua_known a) hs"
    using p(2,3,8) known
    by (simp add: mem_read_add query_answer_def data_read_def)
  have "length (query_answer k (ua_known a) hs) < 2 ^ 31"
    using hb by (simp add: query_answer_def const_simps)
  then obtain c' where c': "SendData api (rv_conn r) (query_answer k (ua_known a) hs) = Some (True, c')"
      "out c' = out (rv_conn r) @ sent_frame (query_answer k (ua_known a) hs)" "inc c' = inc (rv_conn r)"
    using SendData_law [OF laws] by blast
  let ?r = "r\<lparr>rv_cv := (rv_cv r)\<lparr>cv_secureRecipeW := h', cv_recvChunkBuf := b'\<rparr>, rv_w := (rv_w r)\<lparr>w_fs := fs'\<rparr>, rv_conn := c',
     rv_dr := (rv_dr r)\<lparr>dr_recipeBatchNum := dr_recipeBatchNum (rv_dr r) + 1\<rparr>\<rparr>"
  have "sizeof_NetworkHead + length hs \<le> sb_size b'"
    using rok p(4) hb by (simp add: receiver_ok_def sizeof_NetworkHead_def)
  then have "handle_message cfg api vt evp r = Some (Inr ?r)"
    using msg_code [OF msg] p(1,2) n ans c'(1) by (simp add: handle_message_def Let_def)
  moreover have "receiver_ok cfg out op evp H (ua_name a) (append_file ?p (concat hs) (ua_disk a))
      (ua_answers a @ sent_frame (query_answer k (ua_known a) hs)) ?r"
    using rok p(4,5,7) files c'(2)
    by (auto simp: receiver_ok_def name_ok_def append_file_other writer_open_def [of h'] elim!: writer_open_other)
  moreover have "stored_rel b0 L0 m0 (upload_step cfg H k (SecEntries hs) a) ?m (rv_cv ?r)"
    using rel unfolding upload_rel_def by (elim conjE, elim stored_rel_cong) simp_all
  ultimately show ?thesis
    using inv0 c'(3) by (intro exI [of _ ?r]) (simp add: upload_rel_def)
qed

lemma handle_newfile:
  assumes rel: "upload_rel cfg inv abs out op evp H b0 L0 m0 a r" and ok: "upload_ok cfg op (NewFile n h)" and msg: "msg_in k (NewFile n h) r"
  shows "\<exists>r'. handle_message cfg api vt evp r = Some (Inr r') \<and> rv_conn r' = rv_conn r \<and>
     upload_rel cfg inv abs out op evp H b0 L0 m0 (upload_step cfg H k (NewFile n h) a) r'"
proof -
  let ?b = "cv_recvChunkBuf (rv_cv r)" and ?fs = "w_fs (rv_w r)"
  have inv0: "inv (ix_indexStore (rv_ix r))" and rok: "receiver_ok cfg out op evp H (ua_name a) (ua_disk a) (ua_answers a) r"
    using rel by (auto simp: upload_rel_def)
  have n: "length n = CHUNK_HASH_SIZE * 2" "name_ok cfg (openable ?fs) n"
    using ok rok by (auto simp: receiver_ok_def)
  have rd: "head_at ?b (CHUNK_HASH_SIZE * 2) = Inr h" "data_read ?b 0 (CHUNK_HASH_SIZE * 2) = n"
    using head_at_spec [of ?b n h] msg n(1) rok by (simp_all add: msg_in_def receiver_ok_def data_size_def const_simps)
  have h: "\<lparr>fileSize = fileSize h, totalChunkNum = totalChunkNum h\<rparr> = h"
    by simp
  have up: "cv_optType (rv_cv r) = opt_code UPLOAD_OPT"
    using rok by (simp add: receiver_ok_def)
  obtain cv' w' where c: "ChangeFile cfg n (fileSize h) (totalChunkNum h) (rv_cv r) (rv_w r) = Inr (cv', w')"
      "cv_recipePath cv' = recipe_path cfg n" "cv_keyRecipePath cv' = key_recipe_path cfg n"
      "cv_secureRecipePath cv' = secure_recipe_path cfg n" "cv_optType cv' = cv_optType (rv_cv r)"
      "cv_recvChunkBuf cv' = ?b" "cv_pushed cv' = cv_pushed (rv_cv r)" "cv_curContainer cv' = cv_curContainer (rv_cv r)"
      "recipes_open cv' (frh_enc h) (frh_enc h) (frh_enc h) (w_fs w')"
      "files (w_fs w') = (files ?fs)(c_path (recipe_path cfg n) \<mapsto> frh_enc h, c_path (key_recipe_path cfg n) \<mapsto> frh_enc h,
         c_path (secure_recipe_path cfg n) \<mapsto> frh_enc h)" "openable (w_fs w') = openable ?fs"
    using ChangeFile_spec [OF up n(2), of "fileSize h" "totalChunkNum h"] unfolding h by blast
  let ?r = "r\<lparr>rv_cv := cv', rv_w := w'\<rparr>"
  have "handle_message cfg api vt evp r = Some (Inr ?r)"
    using msg_code [OF msg] rd c(1) by (simp add: handle_message_def Let_def)
  moreover have "receiver_ok cfg out op evp H n (ua_disk (upload_step cfg H k (NewFile n h) a)) (ua_answers a) ?r"
    using rok c(2-6,9-11) n(2) by (auto simp: receiver_ok_def recipes_open_def writer_open_def)
  moreover have "stored_rel b0 L0 m0 (upload_step cfg H k (NewFile n h) a) (abs (ix_indexStore (rv_ix r))) cv'"
    using rel c(7,8) unfolding upload_rel_def by (elim conjE, elim stored_rel_cong) simp_all
  ultimately show ?thesis
    using inv0 by (intro exI [of _ ?r]) (simp add: upload_rel_def)
qed

lemma handle_ends:
  assumes rel: "upload_rel cfg inv abs out op evp H b0 L0 m0 a r" and msg: "msg_in k m r"
    and m: "m = ChunksEnd \<or> m = SecEnd \<or> m = RecipeEnd h"
  shows "\<exists>r'. handle_message cfg api vt evp r = Some (Inr r') \<and> rv_conn r' = rv_conn r \<and>
     upload_rel cfg inv abs out op evp H b0 L0 m0 (upload_step cfg H k m a) r'"
proof -
  let ?b = "cv_recvChunkBuf (rv_cv r)"
  let ?r = "case m of RecipeEnd h \<Rightarrow> r\<lparr>rv_dr := (rv_dr r)\<lparr>dr_recipeEndNum := dr_recipeEndNum (rv_dr r) + 1\<rparr>,
                 rv_cv := (rv_cv r)\<lparr>cv_uploadDataSize := fileSize h\<rparr>\<rparr> | _ \<Rightarrow> r"
  have "head_at ?b 0 = Inr h" if "m = RecipeEnd h"
    using head_at_spec [of ?b "[]" h] msg rel that by (simp add: msg_in_def upload_rel_def receiver_ok_def data_size_def const_simps)
  then have "handle_message cfg api vt evp r = Some (Inr ?r)"
    using msg_code [OF msg] m by (auto simp: handle_message_def Let_def)
  moreover have "upload_rel cfg inv abs out op evp H b0 L0 m0 (upload_step cfg H k m a) ?r" "rv_conn ?r = rv_conn r"
    using rel m by (auto simp: upload_rel_def receiver_ok_def elim: stored_rel_cong)
  ultimately show ?thesis
    by blast
qed

lemma handle_message_refines:
  assumes "ssl_laws api inc out" and "upload_rel cfg inv abs out op evp H b0 L0 m0 a r" and "upload_ok cfg op m" and "msg_in k m r"
  shows "\<exists>r'. handle_message cfg api vt evp r = Some (Inr r') \<and> inc (rv_conn r') = inc (rv_conn r) \<and>
     upload_rel cfg inv abs out op evp H b0 L0 m0 (upload_step cfg H k m a) r'"
  using assms handle_chunks [of cfg out op evp H b0 L0 m0 a r] handle_plain [of cfg out op evp H b0 L0 m0 a r]
    handle_key [of cfg out op evp H b0 L0 m0 a r] handle_secure [of api inc out cfg op evp H b0 L0 m0 a r]
    handle_newfile [of cfg out op evp H b0 L0 m0 a r] handle_ends [of cfg out op evp H b0 L0 m0 a r k m]
  by (cases m) metis+

lemma receiver_loop_prefix:
  assumes laws: "ssl_laws api inc out" and "upload_rel cfg inv abs out op evp H b0 L0 m0 a r" and "list_all (upload_ok cfg op) ms"
    and "inc (rv_conn r) = rs @ rest" and "carries (map (upload_bytes k) ms) rs"
  shows "\<exists>r'. receiver_loop cfg api vt evp r = receiver_loop cfg api vt evp r' \<and> inc (rv_conn r') = rest \<and>
     upload_rel cfg inv abs out op evp H b0 L0 m0 (fold (upload_step cfg H k) ms a) r'"
  using assms(2-)
proof (induction ms arbitrary: a r rs)
  case Nil
  then show ?case
    by auto
next
  case (Cons m ms)
  let ?b = "cv_recvChunkBuf (rv_cv r)"
  have ok: "upload_ok cfg op m" "list_all (upload_ok cfg op) ms" and sb: "sb_size ?b = 16 + 256 * sizeof_Chunk"
    using Cons.prems by (simp_all add: upload_rel_def receiver_ok_def)
  obtain r1 r2 where rs: "inc (rv_conn r) = r1 @ r2 @ rest" "frame_records (upload_bytes k m) r1" "carries (map (upload_bytes k) ms) r2"
    using Cons.prems(3,4) by auto
  have len: "length (upload_bytes k m) < 2 ^ 31" "length (upload_bytes k m) \<le> sb_size ?b"
    using upload_ok_size [OF ok(1)] sb by (simp_all add: upload_bytes_def const_simps)
  obtain c1 where c1: "ReceiveData api (rv_conn r) (sendBuffer ?b) (sb_size ?b) 0
        = Some (Inr (True, mem_write (sendBuffer ?b) 0 (upload_bytes k m), of_nat (length (upload_bytes k m)), c1))"
      "inc c1 = r2 @ rest" "out c1 = out (rv_conn r)"
    using ReceiveData_law [OF laws rs(1,2) len] by blast
  define s where "s = r\<lparr>rv_cv := (rv_cv r)\<lparr>cv_recvChunkBuf := ?b\<lparr>sendBuffer := mem_write (sendBuffer ?b) 0 (upload_bytes k m)\<rparr>\<rparr>, rv_conn := c1\<rparr>"
  have "upload_rel cfg inv abs out op evp H b0 L0 m0 a s"
    using Cons.prems(1) c1(3) by (simp add: upload_rel_def receiver_ok_def s_def)
  moreover have "msg_in k m s"
    unfolding msg_in_def by (intro conjI received_message) (simp_all add: s_def upload_bytes_def)
  ultimately obtain s' where s': "handle_message cfg api vt evp s = Some (Inr s')" "inc (rv_conn s') = inc (rv_conn s)"
      "upload_rel cfg inv abs out op evp H b0 L0 m0 (upload_step cfg H k m a) s'"
    using handle_message_refines [OF laws _ ok(1)] by blast
  have "receiver_loop cfg api vt evp r = receiver_loop cfg api vt evp s'"
    using c1(1) s'(1) by (subst receiver_loop.simps) (simp add: s_def)
  then show ?case
    using Cons.IH [OF s'(3) ok(2), of r2] s'(2) c1(2) rs(3) by (simp add: s_def)
qed

lemma receiver_loop_refines:
  assumes laws: "ssl_laws api inc out" and rel: "upload_rel cfg inv abs out op evp H b0 L0 m0 a r" and ok: "list_all (upload_ok cfg op) ms"
    and msgs: "carries (map (upload_bytes k) ms) (inc (rv_conn r))"
  shows "\<exists>r'. receiver_loop cfg api vt evp r = Some (Inr r') \<and>
     upload_rel cfg inv abs out op evp H b0 L0 m0 (fold (upload_step cfg H k) ms a) r'"
proof -
  obtain s where s: "receiver_loop cfg api vt evp r = receiver_loop cfg api vt evp s" "inc (rv_conn s) = []"
      "upload_rel cfg inv abs out op evp H b0 L0 m0 (fold (upload_step cfg H k) ms a) s"
    using receiver_loop_prefix [OF laws rel ok _ msgs, of "[]"] by auto
  let ?b = "cv_recvChunkBuf (rv_cv s)"
  obtain c' where "ReceiveData api (rv_conn s) (sendBuffer ?b) (sb_size ?b) 0 = Some (Inr (False, sendBuffer ?b, 0, c'))"
      "out c' = out (rv_conn s)"
    using ReceiveData_closed [OF laws s(2), of "sendBuffer ?b" "sb_size ?b" 0] by auto
  then show ?thesis
    using s(3) unfolding s(1) by (subst receiver_loop.simps) (simp add: upload_rel_def receiver_ok_def)
qed

text \<open>A message that the switch does not name ends the process, whatever was received before it.\<close>

lemma receiver_loop_unknown:
  assumes laws: "ssl_laws api inc out" and rel: "upload_rel cfg inv abs out op evp H b0 L0 m0 a r" and ok: "list_all (upload_ok cfg op) ms"
    and i: "inc (rv_conn r) = rs @ bad @ rest" and msgs: "carries (map (upload_bytes k) ms) rs"
    and bad: "frame_records (nh_enc h @ p) bad" "length p \<le> 256 * sizeof_Chunk" "unhandled (messageType h)"
  shows "receiver_loop cfg api vt evp r = Some (Inl ExitFailure)"
proof -
  obtain s where s: "receiver_loop cfg api vt evp r = receiver_loop cfg api vt evp s" "inc (rv_conn s) = bad @ rest"
      "upload_rel cfg inv abs out op evp H b0 L0 m0 (fold (upload_step cfg H k) ms a) s"
    using receiver_loop_prefix [OF laws rel ok i msgs] by auto
  let ?b = "cv_recvChunkBuf (rv_cv s)" and ?m = "nh_enc h @ p"
  have "length ?m < 2 ^ 31" "length ?m \<le> sb_size ?b"
    using s(3) bad(2) by (simp_all add: upload_rel_def receiver_ok_def const_simps)
  then obtain c1 where c1: "ReceiveData api (rv_conn s) (sendBuffer ?b) (sb_size ?b) 0
        = Some (Inr (True, mem_write (sendBuffer ?b) 0 ?m, of_nat (length ?m), c1))"
    using ReceiveData_law [OF laws s(2) bad(1)] by blast
  define t where "t = s\<lparr>rv_cv := (rv_cv s)\<lparr>cv_recvChunkBuf := ?b\<lparr>sendBuffer := mem_write (sendBuffer ?b) 0 ?m\<rparr>\<rparr>, rv_conn := c1\<rparr>"
  have "header (cv_recvChunkBuf (rv_cv t)) = h"
    by (rule received_message) (simp add: t_def)
  then have "handle_message cfg api vt evp t = Some (Inl ExitFailure)"
    using bad(3) by (simp add: handle_message_def Let_def unhandled_def split: option.splits EDGE_PROTCOL_CODE_SET.splits)
  then show ?thesis
    unfolding s(1) using c1 by (subst receiver_loop.simps) (simp add: t_def)
qed

text \<open>A whole upload: the chunks stored by it are in the pushed containers, the index names them.\<close>

lemma upload_run_frame:
  assumes laws: "ssl_laws api inc out" and rel: "upload_rel cfg inv abs out op evp H b0 [] m0 a r"
    and ok: "list_all (upload_ok cfg op) ms" and msgs: "carries (map (upload_bytes k) ms) (inc (rv_conn r))"
  defines "a' \<equiv> fold (upload_step cfg H k) ms a"
  shows "\<exists>r' info fl. DataReceiver_Run cfg api vt evp r = Some (Inr (r', info)) \<and> cv_done (rv_cv r') \<and>
     length (cv_pushed (rv_cv r')) = length fl \<and>
     (\<forall>i < length fl. file_rep (base_at b0 i) (cv_pushed (rv_cv r') ! i) (fl ! i)) \<and>
     concat (map snd fl) = ua_stored a' \<and> inv (ix_indexStore (rv_ix r')) \<and>
     index_extends m0 (concat (map file_log fl)) (abs (ix_indexStore (rv_ix r'))) \<and> dom (abs (ix_indexStore (rv_ix r'))) = ua_known a' \<and>
     files (w_fs (rv_w r')) = ua_disk a' \<and> out (rv_conn r') = ua_answers a' \<and> openable (w_fs (rv_w r')) = op \<and>
     hashes_with evp (ix_crypto (rv_ix r')) H \<and> ix_sendChunkBatchSize (rv_ix r') = 256"
proof -
  define r1 where "r1 = r\<lparr>rv_ix := (rv_ix r)\<lparr>ix_logicalDataSize := ix_logicalDataSize (rv_ix r) + cv_fileSize (rv_cv r),
     ix_logicalChunkNum := ix_logicalChunkNum (rv_ix r) + cv_totalChunkNum (rv_cv r)\<rparr>\<rparr>"
  have "upload_rel cfg inv abs out op evp H b0 [] m0 a r1"
    using rel by (simp add: upload_rel_def receiver_ok_def r1_def)
  moreover have "carries (map (upload_bytes k) ms) (inc (rv_conn r1))"
    using msgs by (simp add: r1_def)
  ultimately obtain r2 where r2: "receiver_loop cfg api vt evp r1 = Some (Inr r2)" "upload_rel cfg inv abs out op evp H b0 [] m0 a' r2"
    using receiver_loop_refines [OF laws _ ok] unfolding a'_def by blast
  obtain N where N: "client_holds b0 (rv_cv r2) N" "map snd N = ua_stored a'" "index_extends m0 N (abs (ix_indexStore (rv_ix r2)))"
    using r2(2) by (auto simp: upload_rel_def stored_rel_def)
  obtain r' info fl where f: "finish_upload r2 = Inr (r', info)" "cv_done (rv_cv r')" "w_fs (rv_w r') = w_fs (rv_w r2)"
      "rv_ix r' = rv_ix r2" "rv_conn r' = rv_conn r2" "length (cv_pushed (rv_cv r')) = length fl"
      "\<forall>i < length fl. file_rep (base_at b0 i) (cv_pushed (rv_cv r') ! i) (fl ! i)" "concat (map file_log fl) = N"
    using finish_upload_spec [OF N(1)] by blast
  have "map snd (file_log x) = snd x" for x
    by (simp add: file_log_def comp_def case_prod_unfold)
  then have "concat (map snd fl) = map snd (concat (map file_log fl))"
    by (simp add: map_concat comp_def)
  then have "concat (map snd fl) = ua_stored a'"
    using N(2) f(8) by simp
  moreover have "DataReceiver_Run cfg api vt evp r = Some (Inr (r', info))"
    using r2(1) f(1) by (simp add: DataReceiver_Run_def r1_def Let_def liftO_def)
  ultimately show ?thesis
    using f r2(2) N(3) by (intro exI [of _ r'] exI [of _ info] exI [of _ fl]) (auto simp: upload_rel_def receiver_ok_def stored_rel_def)
qed

lemma upload_run_spec:
  assumes laws: "ssl_laws api inc out" and rel: "upload_rel cfg inv abs out op evp H b0 [] m0 a r"
    and ok: "list_all (upload_ok cfg op) ms" and msgs: "carries (map (upload_bytes k) ms) (inc (rv_conn r))"
  defines "a' \<equiv> fold (upload_step cfg H k) ms a"
  shows "\<exists>r' info fl. DataReceiver_Run cfg api vt evp r = Some (Inr (r', info)) \<and> cv_done (rv_cv r') \<and>
     length (cv_pushed (rv_cv r')) = length fl \<and>
     (\<forall>i < length fl. file_rep (base_at b0 i) (cv_pushed (rv_cv r') ! i) (fl ! i)) \<and>
     concat (map snd fl) = ua_stored a' \<and> inv (ix_indexStore (rv_ix r')) \<and>
     index_extends m0 (concat (map file_log fl)) (abs (ix_indexStore (rv_ix r'))) \<and> dom (abs (ix_indexStore (rv_ix r'))) = ua_known a' \<and>
     files (w_fs (rv_w r')) = ua_disk a' \<and> out (rv_conn r') = ua_answers a'"
  using upload_run_frame [OF assms(1-4)] unfolding a'_def by blast

end

section \<open>Properties\<close>

text \<open>A connection whose upload starts, and what the abstract upload starts from.\<close>

definition upload_ready :: "Configure \<Rightarrow> ('d \<Rightarrow> bool) \<Rightarrow> ('s \<Rightarrow> bytes list) \<Rightarrow> evp_api \<Rightarrow> (bytes \<Rightarrow> bytes) \<Rightarrow> u32 \<Rightarrow> bytes
    \<Rightarrow> ('d, 's) receiver \<Rightarrow> bool" where
  "upload_ready cfg I out evp H b0 name r \<longleftrightarrow> I (ix_indexStore (rv_ix r)) \<and> client_holds b0 (rv_cv r) [] \<and>
     receiver_ok cfg out (openable (w_fs (rv_w r))) evp H name (files (w_fs (rv_w r))) (out (rv_conn r)) r"

definition upload_begin :: "('d \<Rightarrow> bytes \<rightharpoonup> bytes) \<Rightarrow> ('s \<Rightarrow> bytes list) \<Rightarrow> bytes \<Rightarrow> ('d, 's) receiver \<Rightarrow> upload_abs" where
  "upload_begin A out name r = \<lparr>ua_known = dom (A (ix_indexStore (rv_ix r))), ua_stored = [], ua_name = name,
     ua_disk = files (w_fs (rv_w r)), ua_answers = out (rv_conn r)\<rparr>"

lemma upload_rel_begin:
  "upload_ready cfg I out evp H b0 name r \<Longrightarrow>
   upload_rel cfg I A out (openable (w_fs (rv_w r))) evp H b0 [] (A (ix_indexStore (rv_ix r))) (upload_begin A out name r) r"
  by (simp add: upload_rel_def upload_ready_def upload_begin_def stored_rel_def index_extends_def)

text \<open>C6: An upload refines the abstract upload. On a fresh connection over a correct transport, whatever well-formed
  messages the client sends before it closes, the receiver ends normally, and its effect is that of the abstract
  upload on the same messages: the containers handed to the writer hold, in order, exactly the new chunks, each
  once; the index names the container of each stored chunk and is otherwise as before; the three recipe files of each
  file received have their head and the entries in order; the client got the answer to each secure recipe batch,
  computed from the index at that moment; nothing stays in memory and the writer is told that the upload is done.\<close>

theorem upload_refines:
  fixes r :: "(InMemoryDatabase, 's) receiver"
  assumes "ssl_laws api inc out" and "upload_ready cfg inmem_inv out evp H b0 name r"
    and "list_all (upload_ok cfg (openable (w_fs (rv_w r)))) ms" and "carries (map (upload_bytes k) ms) (inc (rv_conn r))"
  defines "a' \<equiv> fold (upload_step cfg H k) ms (upload_begin inmem_abs out name r)"
  shows "\<exists>r' info fl. DataReceiver_Run cfg api inmem_vtable evp r = Some (Inr (r', info)) \<and> cv_done (rv_cv r') \<and>
     length (cv_pushed (rv_cv r')) = length fl \<and>
     (\<forall>i < length fl. file_rep (base_at b0 i) (cv_pushed (rv_cv r') ! i) (fl ! i)) \<and>
     concat (map snd fl) = ua_stored a' \<and> inmem_inv (ix_indexStore (rv_ix r')) \<and>
     index_extends (inmem_abs (ix_indexStore (rv_ix r))) (concat (map file_log fl)) (inmem_abs (ix_indexStore (rv_ix r'))) \<and>
     dom (inmem_abs (ix_indexStore (rv_ix r'))) = ua_known a' \<and> files (w_fs (rv_w r')) = ua_disk a' \<and> out (rv_conn r') = ua_answers a'"
  unfolding a'_def by (rule inmem.upload_run_spec [OF assms(1) upload_rel_begin [OF assms(2)] assms(3,4)])

text \<open>C33: A message type that the receiver does not know stops the whole server, after any well-formed beginning of an
  upload and whatever follows; the end message of a key recipe, which the protocol defines, is one of them.\<close>

theorem unknown_message_stops:
  fixes r :: "(InMemoryDatabase, 's) receiver"
  assumes "ssl_laws api inc out" and "upload_ready cfg inmem_inv out evp H b0 name r"
    and "list_all (upload_ok cfg (openable (w_fs (rv_w r)))) ms" and "carries (map (upload_bytes k) ms) rs"
    and "inc (rv_conn r) = rs @ bad @ rest" and "frame_records (nh_enc h @ p) bad" and "length p \<le> 256 * sizeof_Chunk"
    and "unhandled (messageType h)"
  shows "DataReceiver_Run cfg api inmem_vtable evp r = Some (Inl ExitFailure) \<and> unhandled (edge_code EDGE_UPLOAD_KEY_RECIPE_END)"
proof -
  let ?ix = "rv_ix r"
  let ?r = "r\<lparr>rv_ix := ?ix\<lparr>ix_logicalDataSize := ix_logicalDataSize ?ix + cv_fileSize (rv_cv r),
     ix_logicalChunkNum := ix_logicalChunkNum ?ix + cv_totalChunkNum (rv_cv r)\<rparr>\<rparr>"
  have "upload_ready cfg inmem_inv out evp H b0 name ?r"
    using assms(2) by (simp add: upload_ready_def receiver_ok_def)
  then have "receiver_loop cfg api inmem_vtable evp ?r = Some (Inl ExitFailure)"
    using inmem.receiver_loop_unknown [OF assms(1) upload_rel_begin, of cfg evp H b0 name ?r ms rs bad rest k h p] assms(3-) by simp
  then show ?thesis
    by (simp add: DataReceiver_Run_def Let_def unhandled_def del: edge_code.simps)
qed

definition demo_name :: bytes where
  "demo_name = replicate 64 97"

definition demo_upload :: "bytes list \<Rightarrow> (InMemoryDatabase, bytes list \<times> bytes list) receiver" where
  "demo_upload frames = \<lparr>rv_dr = DataReceiver_new, rv_ix = demo_index,
     rv_cv = (demo_client \<lparr>sendBuffer = (\<lambda>_. 0), sb_size = 16 + 256 * sizeof_Chunk\<rparr>)\<lparr>
        cv_recipePath := recipe_path demo_cfg demo_name, cv_keyRecipePath := key_recipe_path demo_cfg demo_name,
        cv_secureRecipePath := secure_recipe_path demo_cfg demo_name,
        cv_recipeW := \<lparr>os_path = c_path (recipe_path demo_cfg demo_name), os_pos = 0, os_is_open = True\<rparr>,
        cv_keyRecipeW := \<lparr>os_path = c_path (key_recipe_path demo_cfg demo_name), os_pos = 0, os_is_open = True\<rparr>,
        cv_secureRecipeW := \<lparr>os_path = c_path (secure_recipe_path demo_cfg demo_name), os_pos = 0, os_is_open = True\<rparr>\<rparr>,
     rv_w = demo_world\<lparr>w_fs := \<lparr>files = (\<lambda>_. Some []), openable = (\<lambda>_. True)\<rparr>\<rparr>, rv_conn = (frames, [])\<rparr>"

lemma demo_name_ok: "name_ok demo_cfg (\<lambda>_. True) demo_name"
  by code_simp

lemma demo_upload_ready: "upload_ready demo_cfg inmem_inv snd demo_evp demo_hash 0 demo_name (demo_upload frames)"
proof -
  have "client_holds 0 (rv_cv (demo_upload frames)) []"
    using demo_client_holds [of "\<lparr>sendBuffer = (\<lambda>_. 0), sb_size = 16 + 256 * sizeof_Chunk\<rparr>"]
    by (simp add: demo_upload_def client_holds_def client_rep_def store_log_def)
  then show ?thesis
    using demo_name_ok demo_hashes
    by (simp add: upload_ready_def receiver_ok_def demo_upload_def inmem_inv_def demo_index_def demo_client_def
        writer_open_def writer_at_def opt_code_def)
qed

definition demo_messages :: "upload_msg list" where
  "demo_messages = [Chunks [[1, 2], [1, 2], [3]], SecEntries [demo_hash [3], demo_hash [4]]]"

lemma demo_messages_ok: "list_all (upload_ok demo_cfg (\<lambda>_. True)) demo_messages"
  by (simp add: demo_messages_def chunk_fits_def const_simps demo_hash_def)

theorem upload_refines_witness:
  "\<exists>r' info. DataReceiver_Run demo_cfg queue_api inmem_vtable demo_evp
       (demo_upload (concat (map sent_frame (map (upload_bytes 1) demo_messages)))) = Some (Inr (r', info)) \<and>
     dom (inmem_abs (ix_indexStore (rv_ix r'))) = {demo_hash [1, 2], demo_hash [3]} \<and>
     snd (rv_conn r') = sent_frame (query_answer 1 {demo_hash [1, 2], demo_hash [3]} [demo_hash [3], demo_hash [4]])"
proof -
  let ?r = "demo_upload (concat (map sent_frame (map (upload_bytes 1) demo_messages)))"
  have c: "carries (map (upload_bytes 1) demo_messages) (fst (rv_conn ?r))" "openable (w_fs (rv_w ?r)) = (\<lambda>_. True)"
    using carries_sent [of "map (upload_bytes 1) demo_messages"] by (simp_all add: demo_upload_def)
  have a: "fold (upload_step demo_cfg demo_hash 1) demo_messages (upload_begin inmem_abs snd demo_name ?r) =
     (let d = append_file (secure_recipe_path demo_cfg demo_name) (demo_hash [3] @ demo_hash [4]) (\<lambda>_. Some []) in
      \<lparr>ua_known = {demo_hash [1, 2], demo_hash [3]}, ua_stored = [(demo_hash [1, 2], [1, 2]), (demo_hash [3], [3])],
       ua_name = demo_name, ua_disk = d,
       ua_answers = sent_frame (query_answer 1 {demo_hash [1, 2], demo_hash [3]} [demo_hash [3], demo_hash [4]])\<rparr>)"
    by (simp add: demo_messages_def upload_begin_def demo_upload_def demo_index_def inmem_abs_def Let_def demo_hash_def insert_commute)
  show ?thesis
    using upload_refines [OF queue_api_laws demo_upload_ready _ c(1)] demo_messages_ok unfolding a c(2) by (auto simp: Let_def)
qed

theorem unknown_message_stops_witness:
  "DataReceiver_Run demo_cfg queue_api inmem_vtable demo_evp (demo_upload (sent_frame (nh_enc
     \<lparr>messageType = edge_code EDGE_UPLOAD_KEY_RECIPE_END, clientID = 1, dataSize = 0, currentItemNum = 0\<rparr>))) = Some (Inl ExitFailure)"
proof -
  let ?h = "\<lparr>messageType = edge_code EDGE_UPLOAD_KEY_RECIPE_END, clientID = 1, dataSize = 0, currentItemNum = 0\<rparr>"
  have "unhandled (messageType ?h)"
    by (simp add: unhandled_def del: edge_code.simps)
  then show ?thesis
    using unknown_message_stops [OF queue_api_laws demo_upload_ready, of "sent_frame (nh_enc ?h)" "[]" 0 "[]" "sent_frame (nh_enc ?h)" "[]" ?h "[]"]
      frame_records_sent [of "nh_enc ?h"] by (simp add: demo_upload_def)
qed

end
