(* ===== verification/Container_Names.thy ===== *)
theory Container_Names
  imports Data_Receiver
begin

text \<open>
  The names of the containers of a connection (\<open>Tool::CreateUUID\<close> as \<open>ClientVar\<close> and \<open>StorageCore::WriteContainer\<close> call it).
  The lemmas show that through a whole upload, whatever the client sends, the name of the container in memory and of
  each container handed to the writer is a drawn one: eight characters of the alphabet.
\<close>

definition uuid_name :: "bytes \<Rightarrow> bool" where
  "uuid_name n \<longleftrightarrow> length n = CONTAINER_ID_LENGTH \<and> set n \<subseteq> set ALPHABET"

definition named :: "ClientVar \<Rightarrow> bool" where
  "named cv \<longleftrightarrow> uuid_name (ic_containerID (cv_curContainer cv)) \<and> (\<forall>k \<in> set (cv_pushed cv). uuid_name (ct_containerID k))"

lemma new_uuid_name [simp]: "uuid_name (fst (new_uuid w))"
  using CreateUUID_alphabet [of CONTAINER_ID_LENGTH "w_rng w"] by (simp add: uuid_name_def new_uuid_def split_beta)

lemma named_cong: "cv_curContainer cv' = cv_curContainer cv \<Longrightarrow> cv_pushed cv' = cv_pushed cv \<Longrightarrow> named cv' = named cv"
  by (simp add: named_def)

lemma named_upd [simp]:
  "named (cv\<lparr>cv_recvChunkBuf := b\<rparr>) = named cv" "named (cv\<lparr>cv_recipeW := h\<rparr>) = named cv" "named (cv\<lparr>cv_keyRecipeW := h\<rparr>) = named cv"
  "named (cv\<lparr>cv_secureRecipeW := h\<rparr>) = named cv" "named (cv\<lparr>cv_uploadDataSize := n\<rparr>) = named cv" "named (cv\<lparr>cv_done := d\<rparr>) = named cv"
  by (simp_all add: named_def)

section \<open>Storing chunks\<close>

lemma Ocall_WriteContainer_named: "Ocall_WriteContainer cv w = Inr (cv', w') \<Longrightarrow> named cv \<Longrightarrow> named cv'"
  by (auto simp: Ocall_WriteContainer_def Let_def split_beta bindR_eq_Inr named_def)

lemma append_chunk_named: "append_chunk d h cv = Inr (n, cv') \<Longrightarrow> named cv \<Longrightarrow> named cv'"
  by (auto simp: append_chunk_def Let_def bindR_eq_Inr named_def)

lemma WriteContainer_named: "WriteContainer d h cv w = Inr (n, cv', w') \<Longrightarrow> named cv \<Longrightarrow> named cv'"
proof -
  assume run: "WriteContainer d h cv w = Inr (n, cv', w')" and cv: "named cv"
  have renewed: "named (cv1\<lparr>cv_curContainer := (cv_curContainer cv1)\<lparr>ic_containerID := fst (new_uuid w1),
      ic_currentBodySize := 0, ic_currentHeaderSize := 0, ic_chunkNum := 0\<rparr>\<rparr>)"
    if "Ocall_WriteContainer cv w = Inr (cv1, w1)" for cv1 w1
    using Ocall_WriteContainer_named [OF that cv] by (simp add: named_def)
  show "named cv'"
    using run cv
    by (auto simp: WriteContainer_def Let_def split_beta bindR_eq_Inr split: if_splits intro: append_chunk_named renewed)
qed

lemma SaveChunk_named: "SaveChunk d h sc cv w = Inr (n, sc', cv', w') \<Longrightarrow> named cv \<Longrightarrow> named cv'"
  by (auto simp: SaveChunk_def bindR_eq_Inr intro: WriteContainer_named)

lemma process_chunk_named: "process_chunk vt evp off n ix cv w = Inr (off', n', ix', cv', w') \<Longrightarrow> named cv \<Longrightarrow> named cv'"
  by (auto simp: process_chunk_def Let_def split_beta bindR_eq_Inr split: if_splits intro: SaveChunk_named)

lemma process_chunks_named: "process_chunks vt evp m off n ix cv w = Inr (ix', cv', w') \<Longrightarrow> named cv \<Longrightarrow> named cv'"
  by (induction m arbitrary: off n ix cv w) (auto simp: bindR_eq_Inr dest: process_chunk_named)

lemma ProcessOneBatch_named: "ProcessOneBatch vt evp ix cv w = Inr (ix', cv', w') \<Longrightarrow> named cv \<Longrightarrow> named cv'"
  by (auto simp: ProcessOneBatch_def Let_def bindR_eq_Inr dest: process_chunks_named)

section \<open>The message loop\<close>

lemma ProcessRecipeBatch_named: "ProcessRecipeBatch vt ix cv w = Inr (cv', w') \<Longrightarrow> named cv \<Longrightarrow> named cv'"
  by (auto simp: ProcessRecipeBatch_def Let_def split_beta bindR_eq_Inr)

lemma ChangeFile_named: "ChangeFile cfg n a b cv w = Inr (cv', w') \<Longrightarrow> named cv \<Longrightarrow> named cv'"
  by (auto simp: ChangeFile_def init_recipes_def open_recipes_def Let_def split_beta bindR_eq_Inr named_def split: if_splits)

lemma handle_message_named: "handle_message cfg api vt evp r = Some (Inr r') \<Longrightarrow> named (rv_cv r) \<Longrightarrow> named (rv_cv r')"
  by (auto simp: handle_message_def Let_def split_beta bindO_eq_Inr liftO_def
      split: option.splits EDGE_PROTCOL_CODE_SET.splits
      intro: ProcessOneBatch_named ChangeFile_named)
    (rule ProcessRecipeBatch_named)

lemma receiver_loop_named:
  assumes run: "receiver_loop cfg api vt evp r = Some (Inr r')" and r: "named (rv_cv r)"
  shows "named (rv_cv r')"
proof -
  have "\<forall>s. y = Inr s \<longrightarrow> named (rv_cv r) \<longrightarrow> named (rv_cv s)" if "receiver_loop cfg api vt evp r = Some y" for y
  proof (rule receiver_loop.raw_induct [where P = "\<lambda>_ _ _ _ r y. \<forall>s. y = Inr s \<longrightarrow> named (rv_cv r) \<longrightarrow> named (rv_cv s)", OF _ that])
    fix loop cfg api vt evp r y
    assume IH: "\<And>cfg api vt evp r y. loop cfg api vt evp r = Some y \<Longrightarrow> \<forall>s. y = Inr s \<longrightarrow> named (rv_cv r) \<longrightarrow> named (rv_cv s)"
      and body: "(let b = cv_recvChunkBuf (rv_cv r) in
      bindO (ReceiveData api (rv_conn r) (sendBuffer b) (sb_size b) 0) (\<lambda>(ok, m, _, c').
        let r1 = r\<lparr>rv_cv := (rv_cv r)\<lparr>cv_recvChunkBuf := b\<lparr>sendBuffer := m\<rparr>\<rparr>, rv_conn := c'\<rparr> in
        if \<not> ok then Some (Inr r1)
        else bindO (handle_message cfg api vt evp r1) (\<lambda>r2. loop cfg api vt evp r2))) = Some y"
    show "\<forall>s. y = Inr s \<longrightarrow> named (rv_cv r) \<longrightarrow> named (rv_cv s)"
      using body by (fastforce simp: Let_def bindO_eq_Inr split: if_splits dest: handle_message_named IH)
  qed
  then show ?thesis
    using run r by blast
qed

lemma finish_upload_named: "finish_upload r = Inr (r', info) \<Longrightarrow> named (rv_cv r) \<Longrightarrow> named (rv_cv r')"
  by (auto simp: finish_upload_def Let_def bindR_eq_Inr split: if_splits dest: Ocall_WriteContainer_named)

lemma DataReceiver_Run_named:
  assumes "DataReceiver_Run cfg api vt evp r = Some (Inr (r', info))" and "named (rv_cv r)"
  shows "named (rv_cv r')"
proof -
  obtain ix r2 where "receiver_loop cfg api vt evp (r\<lparr>rv_ix := ix\<rparr>) = Some (Inr r2)" "finish_upload r2 = Inr (r', info)"
    using assms(1) by (auto simp: DataReceiver_Run_def Let_def bindO_eq_Inr liftO_def)
  then show ?thesis
    using receiver_loop_named [of cfg api vt evp "r\<lparr>rv_ix := ix\<rparr>" r2] finish_upload_named [of r2 r' info] assms(2) by simp
qed

end
