(* ===== verification/Archive.thy ===== *)
theory Archive
  imports Upload_Session Restore_Session Data_Writer Container_Names
begin

text \<open>
  The archive: the containers on disk together with the index. It is what an upload session and the writer leave
  behind and what a restore session reads. The lemmas show that a whole upload keeps the invariant of the archive,
  and that a restore from an archive returns the chunks whose hashes it is asked for.
\<close>

section \<open>The chunks of an upload\<close>

fun msg_chunks :: "upload_msg \<Rightarrow> bytes set" where
  "msg_chunks (Chunks cs) = set cs"
| "msg_chunks _ = {}"

definition uploaded :: "upload_msg list \<Rightarrow> bytes set" where
  "uploaded ms = (\<Union>m \<in> set ms. msg_chunks m)"

lemma uploaded_simps [simp]: "uploaded [] = {}" "uploaded (m # ms) = msg_chunks m \<union> uploaded ms"
  by (simp_all add: uploaded_def)

text \<open>What the abstract upload stores when it starts from the hashes \<open>K0\<close>.\<close>

definition stored_ok :: "(bytes \<Rightarrow> bytes) \<Rightarrow> bytes set \<Rightarrow> bytes set \<Rightarrow> upload_abs \<Rightarrow> bool" where
  "stored_ok H K0 U a \<longleftrightarrow> ua_known a = K0 \<union> H ` U \<and> distinct (map fst (ua_stored a)) \<and>
     fst ` set (ua_stored a) = H ` U - K0 \<and> (\<forall>h d. (h, d) \<in> set (ua_stored a) \<longrightarrow> h = H d \<and> d \<in> U)"

lemma stored_ok_chunks:
  assumes "stored_ok H K0 U a"
  shows "stored_ok H K0 (U \<union> set cs) (upload_step cfg H k (Chunks cs) a)"
proof -
  let ?n = "dedup H (ua_known a) cs"
  have known: "ua_known a = K0 \<union> H ` U" and st: "distinct (map fst (ua_stored a))" "fst ` set (ua_stored a) = H ` U - K0"
    using assms by (simp_all add: stored_ok_def)
  have new: "H ` set ?n = H ` set cs - ua_known a" "distinct (map H ?n)" "set ?n \<subseteq> set cs"
    by (rule set_dedup, rule distinct_dedup, rule set_dedup_subset)
  have keys: "fst ` set (map (\<lambda>c. (H c, c)) ?n) = H ` set cs - ua_known a" "map fst (map (\<lambda>c. (H c, c)) ?n) = map H ?n"
    using new(1) by (simp_all add: image_image)
  have dis: "fst ` set (ua_stored a) \<inter> fst ` set (map (\<lambda>c. (H c, c)) ?n) = {}"
    unfolding keys(1) using st(2) known by blast
  have "distinct (map fst (ua_stored a @ map (\<lambda>c. (H c, c)) ?n))"
    unfolding map_append distinct_append keys(2) using st(1) new(2) dis keys(2) by (metis set_map)
  moreover have "fst ` set (ua_stored a @ map (\<lambda>c. (H c, c)) ?n) = H ` (U \<union> set cs) - K0"
    unfolding set_append image_Un keys(1) using st(2) known by blast
  ultimately show ?thesis
    using assms new(3) known by (auto simp: stored_ok_def)
qed

lemma stored_ok_fold: "stored_ok H K0 U a \<Longrightarrow> stored_ok H K0 (U \<union> uploaded ms) (fold (upload_step cfg H k) ms a)"
proof (induction ms arbitrary: U a)
  case (Cons m ms)
  have "stored_ok H K0 (U \<union> msg_chunks m) (upload_step cfg H k m a)"
  proof (cases m)
    case (Chunks cs)
    then show ?thesis
      using stored_ok_chunks [OF Cons.prems] by simp
  qed (use Cons.prems in \<open>simp_all add: stored_ok_def\<close>)
  then show ?case
    using Cons.IH [of "U \<union> msg_chunks m" "upload_step cfg H k m a"] by (simp add: Un_assoc)
qed simp

lemma stored_ok_begin: "stored_ok H (dom (A (ix_indexStore (rv_ix r)))) {} (upload_begin A out name r)"
  by (simp add: stored_ok_def upload_begin_def)

section \<open>The archive\<close>

definition archive_ok :: "Configure \<Rightarrow> (bytes \<Rightarrow> bytes) \<Rightarrow> filesys \<Rightarrow> containers \<Rightarrow> (bytes \<rightharpoonup> bytes) \<Rightarrow> bool" where
  "archive_ok cfg H fs C m \<longleftrightarrow> on_disk cfg fs C \<and>
     (\<forall>h name. m h = Some name \<longleftrightarrow> (\<exists>es. C name = Some es \<and> h \<in> fst ` set es)) \<and>
     (\<forall>name \<in> dom C. length name = CONTAINER_ID_LENGTH) \<and>
     (\<forall>name es. C name = Some es \<longrightarrow> (\<forall>h d. (h, d) \<in> set es \<longrightarrow> h = H d))"

text \<open>The names drawn for the new containers: no two of one file, none of an old container.\<close>

definition fresh_names :: "Configure \<Rightarrow> containers \<Rightarrow> Container_t list \<Rightarrow> bool" where
  "fresh_names cfg C ks \<longleftrightarrow> distinct (map (container_file cfg \<circ> ct_containerID) ks) \<and>
     (\<forall>k \<in> set ks. length (ct_containerID k) = CONTAINER_ID_LENGTH \<and>
        container_file cfg (ct_containerID k) \<notin> container_file cfg ` dom C)"

lemma archive_parts:
  assumes "archive_ok cfg H fs C m"
  shows "on_disk cfg fs C" "index_points C m" "hashes_apart C"
proof -
  have iff: "m h = Some name \<longleftrightarrow> (\<exists>es. C name = Some es \<and> h \<in> fst ` set es)" for h name
    using assms unfolding archive_ok_def by blast
  show "on_disk cfg fs C" "index_points C m"
    using assms by (auto simp: archive_ok_def index_points_def)
  show "hashes_apart C"
    unfolding hashes_apart_def
  proof (intro allI impI equals0I)
    fix n n' es es' h
    assume C: "C n = Some es" "C n' = Some es'" "n \<noteq> n'" and h: "h \<in> fst ` set es \<inter> fst ` set es'"
    have "m h = Some n" "m h = Some n'"
      unfolding iff using C h by blast+
    then show False
      using C(3) by simp
  qed
qed

lemma archive_chunk:
  assumes ar: "archive_ok cfg H fs C m" and c: "H c \<in> dom m" and inj: "inj_on H U" "c \<in> U" "\<And>es. es \<in> ran C \<Longrightarrow> snd ` set es \<subseteq> U"
  shows "chunk_of C m (H c) = c"
proof -
  obtain name es where n: "m (H c) = Some name" "C name = Some es" "H c \<in> fst ` set es"
    using ar c unfolding archive_ok_def by blast
  then obtain d where d: "map_of es (H c) = Some d"
    by (metis option.exhaust map_of_eq_None_iff)
  then have "(H c, d) \<in> set es"
    by (rule map_of_SomeD)
  then have "H c = H d" "d \<in> U"
    using ar n(2) inj(3) [OF ranI [of C name, OF n(2)]] unfolding archive_ok_def by (blast, force)
  then have "d = c"
    using inj(1,2) by (simp add: inj_on_def)
  then show ?thesis
    using n d by (simp add: chunk_of_def)
qed

text \<open>The files \<open>fl\<close> that the pushed containers \<open>ks\<close> stand for, under fresh names.\<close>

definition new_files :: "Configure \<Rightarrow> containers \<Rightarrow> Container_t list \<Rightarrow> (bytes \<times> (bytes \<times> bytes) list) list \<Rightarrow> bool" where
  "new_files cfg C ks fl \<longleftrightarrow> fresh_names cfg C ks \<and> length ks = length fl \<and>
     (\<forall>i < length fl. file_rep (base_at 0 i) (ks ! i) (fl ! i))"

lemma new_files_container:
  assumes "new_files cfg C ks fl" and "(n, es) \<in> set fl"
  obtains k where "k \<in> set ks" "ct_containerID k = n" "hashes_ok es" "file_size es < MAX_CONTAINER_SIZE"
    "ct_bytes k = file_enc (of_nat (length es)) es" "length n = CONTAINER_ID_LENGTH" "C n = None"
proof -
  obtain i where i: "i < length fl" "fl ! i = (n, es)"
    using assms(2) by (metis in_set_conv_nth)
  have rep: "file_rep (base_at 0 i) (ks ! i) (n, es)" and k: "ks ! i \<in> set ks" and fresh: "fresh_names cfg C ks"
    using assms(1) i by (auto simp: new_files_def)
  have id: "ct_containerID (ks ! i) = n" "length n = CONTAINER_ID_LENGTH" "container_file cfg n \<notin> container_file cfg ` dom C"
    using rep k fresh by (auto simp: file_rep_def fresh_names_def)
  then have "C n = None"
    by (meson domIff image_eqI)
  then show thesis
    using that [OF k id(1)] rep id(2) by (simp add: file_rep_def base_at_def)
qed

lemma new_files_lookup:
  assumes nf: "new_files cfg C ks fl"
  shows "(C ++ map_of fl) n = Some es \<longleftrightarrow> (n, es) \<in> set fl \<or> C n = Some es"
proof -
  have "length ks = length fl" "ct_containerID (ks ! i) = fst (fl ! i)" if "i < length fl" for i
    using nf that unfolding new_files_def file_rep_def by blast+
  then have "map ct_containerID ks = map fst fl"
    using nf by (intro nth_equalityI) (simp_all add: new_files_def)
  then have "distinct (map (container_file cfg) (map fst fl))"
    using nf unfolding new_files_def fresh_names_def by (metis map_map)
  then have "distinct (map fst fl)"
    using distinct_map by blast
  then have new: "map_of fl n = Some es \<longleftrightarrow> (n, es) \<in> set fl"
    by (simp add: map_of_eq_Some_iff)
  have "map_of fl n = None" if "C n = Some es"
  proof (rule ccontr)
    assume "map_of fl n \<noteq> None"
    then obtain es' where "(n, es') \<in> set fl"
      by (auto dest: map_of_SomeD)
    then show False
      using new_files_container [OF nf, of n es'] that by auto
  qed
  then show ?thesis
    using new by (auto simp: map_add_Some_iff)
qed

lemma new_files_on_disk:
  assumes nf: "new_files cfg C ks fl" and old: "on_disk cfg fs C" and d: "distinct (map fst (concat (map snd fl)))"
    and sz: "\<And>h x. (h, x) \<in> set (concat (map snd fl)) \<Longrightarrow> length x \<le> MAX_CHUNK_SIZE"
    and fs': "files fs' = write_all cfg ks (files fs)"
  shows "on_disk cfg fs' (C ++ map_of fl)"
  unfolding on_disk_def
proof (intro allI impI)
  fix n es
  assume "(C ++ map_of fl) n = Some es"
  then consider "(n, es) \<in> set fl" | "C n = Some es"
    unfolding new_files_lookup [OF nf] by blast
  then show "container_ok es \<and> files fs' (container_file cfg n) = Some (file_enc (of_nat (length es)) es)"
  proof cases
    case 1
    obtain k where k: "k \<in> set ks" "ct_containerID k = n" "hashes_ok es" "file_size es < MAX_CONTAINER_SIZE"
        "ct_bytes k = file_enc (of_nat (length es)) es"
      using new_files_container [OF nf 1] by blast
    have "distinct (map fst es)"
      using d split_list [OF 1] by auto
    moreover have "length x \<le> MAX_CHUNK_SIZE" if "(h, x) \<in> set es" for h x
      using sz [of h x] 1 that by force
    moreover have "files fs' (container_file cfg n) = Some (ct_bytes k)"
      using write_all_in [OF _ k(1), of cfg "files fs"] nf k(2) unfolding fs' new_files_def fresh_names_def by simp
    ultimately show ?thesis
      using k by (auto simp: container_ok_def)
  next
    case 2
    have "container_file cfg n \<notin> container_file cfg ` ct_containerID ` set ks"
    proof
      assume "container_file cfg n \<in> container_file cfg ` ct_containerID ` set ks"
      then obtain k where k: "k \<in> set ks" "container_file cfg n = container_file cfg (ct_containerID k)"
        by blast
      have "container_file cfg n \<in> container_file cfg ` dom C"
        using 2 by (intro imageI domI)
      then show False
        using nf k unfolding new_files_def fresh_names_def by simp
    qed
    then show ?thesis
      using old 2 write_all_other [of _ cfg ks "files fs"] unfolding fs' on_disk_def by metis
  qed
qed

lemma new_files_index:
  assumes nf: "new_files cfg C ks fl" and old: "\<And>h n. m0 h = Some n \<longleftrightarrow> (\<exists>es. C n = Some es \<and> h \<in> fst ` set es)"
    and idx: "index_extends m0 (concat (map file_log fl)) m" and d: "fst ` set (concat (map snd fl)) \<inter> dom m0 = {}"
  shows "m h = Some n \<longleftrightarrow> (\<exists>es. (C ++ map_of fl) n = Some es \<and> h \<in> fst ` set es)"
proof -
  define N where "N = concat (map file_log fl)"
  have N: "(n, h, x) \<in> set N \<longleftrightarrow> (\<exists>es. (n, es) \<in> set fl \<and> (h, x) \<in> set es)" for n h x
    unfolding N_def file_log_def by force
  show ?thesis
  proof (cases "\<exists>n0 x. (n0, h, x) \<in> set N")
    case True
    then obtain n0 x es0 where n0: "(n0, h, x) \<in> set N" "(n0, es0) \<in> set fl" "(h, x) \<in> set es0"
      using N by blast
    have mh: "m h = Some n'" if "(n', h, y) \<in> set N" for n' y
      using idx that unfolding N_def [symmetric] index_extends_def by fast
    have "h \<in> fst ` set (concat (map snd fl))"
      using n0(2,3) by force
    then have "m0 h = None"
      using d by blast
    then have "C n = Some es \<Longrightarrow> h \<notin> fst ` set es" for es
      using old by (metis option.distinct(1))
    moreover have "m h = Some n" if "(n, es) \<in> set fl" "h \<in> fst ` set es" for es
      using mh N that by force
    moreover have "\<exists>es. (n, es) \<in> set fl \<and> h \<in> fst ` set es" if "m h = Some n"
      using mh [OF n0(1)] n0(2,3) that by force
    ultimately show ?thesis
      unfolding new_files_lookup [OF nf] by blast
  next
    case False
    then have "h \<notin> fst ` snd ` set N"
      by force
    then have "m h = m0 h"
      using idx unfolding N_def [symmetric] index_extends_def by blast
    moreover have "h \<notin> fst ` set es" if "(n, es) \<in> set fl" for es
      using False N that by force
    ultimately show ?thesis
      unfolding new_files_lookup [OF nf] using old by metis
  qed
qed

lemma archive_extend:
  assumes ar: "archive_ok cfg H fs C m0" and nf: "new_files cfg C ks fl"
    and idx: "index_extends m0 (concat (map file_log fl)) m"
    and d: "distinct (map fst (concat (map snd fl)))" "fst ` set (concat (map snd fl)) \<inter> dom m0 = {}"
    and e: "\<And>h x. (h, x) \<in> set (concat (map snd fl)) \<Longrightarrow> h = H x \<and> length x \<le> MAX_CHUNK_SIZE"
    and fs': "files fs' = write_all cfg ks (files fs)"
  shows "archive_ok cfg H fs' (C ++ map_of fl) m"
proof -
  note C' = new_files_lookup [OF nf]
  have old: "m0 h = Some n \<longleftrightarrow> (\<exists>es. C n = Some es \<and> h \<in> fst ` set es)" for h n
    using ar unfolding archive_ok_def by blast
  have disk: "on_disk cfg fs' (C ++ map_of fl)"
    using new_files_on_disk [OF nf _ d(1) _ fs'] ar e unfolding archive_ok_def by blast
  have index: "m h = Some n \<longleftrightarrow> (\<exists>es. (C ++ map_of fl) n = Some es \<and> h \<in> fst ` set es)" for h n
    by (rule new_files_index [OF nf old idx d(2)])
  have len: "length n = CONTAINER_ID_LENGTH" if nd: "n \<in> dom (C ++ map_of fl)" for n
  proof -
    obtain es where "(C ++ map_of fl) n = Some es"
      using domD [OF nd] by (elim exE) (rule that)
    then consider "(n, es) \<in> set fl" | "C n = Some es"
      unfolding C' by blast
    then show ?thesis
      using new_files_container [OF nf] ar unfolding archive_ok_def by cases (blast, metis domI)
  qed
  have hash: "h = H x" if "(C ++ map_of fl) n = Some es" "(h, x) \<in> set es" for n es h x
  proof (cases "(n, es) \<in> set fl")
    case True
    then have "(h, x) \<in> set (concat (map snd fl))"
      using that(2) by force
    then show ?thesis
      using e by blast
  next
    case False
    then have "C n = Some es"
      using that(1) unfolding C' by blast
    then show ?thesis
      using that(2) ar unfolding archive_ok_def by blast
  qed
  show ?thesis
    unfolding archive_ok_def by (intro conjI allI ballI impI) (rule disk index len hash, assumption?)+
qed

section \<open>A whole upload and a whole restore\<close>

text \<open>Every chunk in the archive.\<close>

definition archived :: "containers \<Rightarrow> bytes set" where
  "archived C = (\<Union>es \<in> ran C. snd ` set es)"

text \<open>A decoder of a new connection: its cache is empty.\<close>

definition decoder_fresh :: "Configure \<Rightarrow> RecvDecoder \<Rightarrow> ClientVar \<Rightarrow> bool" where
  "decoder_fresh cfg rd cv \<longleftrightarrow> decoder_idle cfg Map.empty rd cv \<and> rc_lookup (cv_containerCache cv) = Map.empty"

lemma decoder_fresh_idle: "decoder_fresh cfg rd cv \<Longrightarrow> decoder_idle cfg C rd cv"
  by (simp add: decoder_fresh_def decoder_idle_def cache_ok_def)

context key_value_store
begin

lemma upload_archive:
  assumes laws: "ssl_laws api inc out" and ready: "upload_ready cfg inv out evp H 0 name r"
    and ok: "list_all (upload_ok cfg (openable (w_fs (rv_w r)))) ms" and msgs: "carries (map (upload_bytes k) ms) (inc (rv_conn r))"
    and ar: "archive_ok cfg H fs C (abs (ix_indexStore (rv_ix r)))" and sz: "\<And>c. c \<in> uploaded ms \<Longrightarrow> length c \<le> MAX_CHUNK_SIZE"
    and run: "DataReceiver_Run cfg api vt evp r = Some (Inr (r', info))" and fresh: "fresh_names cfg C (cv_pushed (rv_cv r'))"
    and fs': "files fs' = write_all cfg (cv_pushed (rv_cv r')) (files fs)"
  shows "\<exists>C'. archive_ok cfg H fs' C' (abs (ix_indexStore (rv_ix r'))) \<and> C \<subseteq>\<^sub>m C' \<and> inv (ix_indexStore (rv_ix r')) \<and>
     dom (abs (ix_indexStore (rv_ix r'))) = dom (abs (ix_indexStore (rv_ix r))) \<union> H ` uploaded ms \<and>
     archived C' \<subseteq> archived C \<union> uploaded ms"
proof -
  let ?old = "abs (ix_indexStore (rv_ix r))" and ?m = "abs (ix_indexStore (rv_ix r'))"
  define a where "a = fold (upload_step cfg H k) ms (upload_begin abs out name r)"
  obtain r2 info2 fl where f: "DataReceiver_Run cfg api vt evp r = Some (Inr (r2, info2))"
      "length (cv_pushed (rv_cv r2)) = length fl"
      "\<forall>i < length fl. file_rep (base_at 0 i) (cv_pushed (rv_cv r2) ! i) (fl ! i)" "concat (map snd fl) = ua_stored a"
      "inv (ix_indexStore (rv_ix r2))" "index_extends ?old (concat (map file_log fl)) (abs (ix_indexStore (rv_ix r2)))"
      "dom (abs (ix_indexStore (rv_ix r2))) = ua_known a"
    using upload_run_spec [OF laws upload_rel_begin [OF ready] ok msgs] unfolding a_def by blast
  have "r2 = r'"
    using f(1) run by simp
  note fl = f(2-) [unfolded this]
  have st: "stored_ok H (dom ?old) (uploaded ms) a"
    using stored_ok_fold [OF stored_ok_begin] unfolding a_def by fastforce
  have nf: "new_files cfg C (cv_pushed (rv_cv r')) fl"
    using fresh fl(1,2) by (simp add: new_files_def)
  have ent: "h = H x \<and> length x \<le> MAX_CHUNK_SIZE \<and> x \<in> uploaded ms" if "(h, x) \<in> set (concat (map snd fl))" for h x
    using st that sz unfolding fl(3) stored_ok_def by blast
  have "distinct (map fst (concat (map snd fl)))" "fst ` set (concat (map snd fl)) \<inter> dom ?old = {}"
    using st unfolding fl(3) stored_ok_def by blast+
  then have "archive_ok cfg H fs' (C ++ map_of fl) ?m"
    using archive_extend [OF ar nf fl(5) _ _ _ fs'] ent by blast
  moreover have "C \<subseteq>\<^sub>m C ++ map_of fl"
    unfolding map_le_def using new_files_lookup [OF nf] by (metis domD)
  moreover have "archived (C ++ map_of fl) \<subseteq> archived C \<union> uploaded ms"
  proof
    fix x
    assume "x \<in> archived (C ++ map_of fl)"
    then obtain es h where e: "es \<in> ran (C ++ map_of fl)" "(h, x) \<in> set es"
      unfolding archived_def by fastforce
    obtain n where "(C ++ map_of fl) n = Some es"
      using e(1) unfolding ran_def by (elim CollectE exE) (rule that)
    note es = this e(2)
    show "x \<in> archived C \<union> uploaded ms"
    proof (cases "(n, es) \<in> set fl")
      case True
      then have "(h, x) \<in> set (concat (map snd fl))"
        using es(2) by force
      then show ?thesis
        using ent by blast
    next
      case False
      then have "C n = Some es"
        using es(1) unfolding new_files_lookup [OF nf] by blast
      then show ?thesis
        using es(2) unfolding archived_def ran_def by force
    qed
  qed
  ultimately show ?thesis
    using fl(4,6) st unfolding stored_ok_def by (intro exI [of _ "C ++ map_of fl"]) simp
qed

lemma archive_restore:
  assumes laws: "ssl_laws api inc out" and store: "inv (ix_indexStore ix)" and ar: "archive_ok cfg H fs C (abs (ix_indexStore ix))"
    and idle: "decoder_idle cfg C rd cv" and msgs: "carries (ready_msg k p # map (batch_msg k) (map (map H) css)) (inc c)"
    and p: "length p \<le> MAX_CHUNK_SIZE" and len: "\<And>x. length (H x) = CHUNK_HASH_SIZE"
    and req: "\<And>cs. cs \<in> set css \<Longrightarrow> length cs \<le> 256 \<and> H ` set cs \<subseteq> dom (abs (ix_indexStore ix))"
    and inj: "inj_on H (archived C \<union> \<Union> (set ` set css))"
  shows "\<exists>rd' cv' c'. RecvDecoder_Run api vt ix fs rd cv c = Some (Inr (rd', cv', c')) \<and>
     out c' = out c @ concat (map (batch_answer k) css)"
proof -
  let ?m = "abs (ix_indexStore ix)"
  have "list_all (servable C ?m) (map (map H) css)"
    using req len by (auto simp: servable_def list_all_iff)
  moreover have "map (chunk_of C ?m) (map H cs) = cs" if "cs \<in> set css" for cs
  proof -
    have "chunk_of C ?m (H x) = x" if x: "x \<in> set cs" for x
      by (rule archive_chunk [OF ar _ inj]) (use x \<open>cs \<in> set css\<close> req in \<open>auto simp: archived_def\<close>)
    then show ?thesis
      by (simp add: map_idI)
  qed
  then have "map (\<lambda>hs. batch_answer k (map (chunk_of C ?m) hs)) (map (map H) css) = map (batch_answer k) css"
    by simp
  ultimately show ?thesis
    using restore_session_spec [OF laws store archive_parts(1,3,2) [OF ar] _ idle msgs p] by metis
qed

end

text \<open>An upload that stores one chunk hands one container to the writer.\<close>

context key_value_store
begin

lemma single_pushed:
  assumes laws: "ssl_laws api inc out" and ready: "upload_ready cfg inv out evp H b0 name r"
    and ok: "list_all (upload_ok cfg (openable (w_fs (rv_w r)))) ms" and msgs: "carries (map (upload_bytes k) ms) (inc (rv_conn r))"
    and one: "ua_stored (fold (upload_step cfg H k) ms (upload_begin abs out name r)) = [e]"
    and run: "DataReceiver_Run cfg api vt evp r = Some (Inr (r', info))"
  shows "\<exists>x. cv_pushed (rv_cv r') = [x] \<and> ct_bytes x = file_enc (b0 + 1) [e] \<and> unat (ct_currentSize x) \<le> MAX_CONTAINER_SIZE"
proof -
  obtain r2 info2 fl where r: "DataReceiver_Run cfg api vt evp r = Some (Inr (r2, info2))" "length (cv_pushed (rv_cv r2)) = length fl"
      "\<forall>i < length fl. file_rep (base_at b0 i) (cv_pushed (rv_cv r2) ! i) (fl ! i)" "concat (map snd fl) = [e]"
    using upload_run_spec [OF laws upload_rel_begin [OF ready] ok msgs] unfolding one by blast
  have nonempty: "snd f \<noteq> []" if "f \<in> set fl" for f
    using r(3) that by (auto simp: in_set_conv_nth file_rep_def)
  obtain f where f: "fl = [f]" "snd f = [e]"
    using r(4) nonempty by (cases fl; cases "tl fl") (auto simp: append_eq_Cons_conv)
  then obtain x where x: "cv_pushed (rv_cv r2) = [x]" "file_rep b0 x f"
    using r(2,3) by (auto simp: length_Suc_conv base_at_def)
  then have bytes: "ct_bytes x = file_enc (b0 + 1) [e]" "hashes_ok [e]" "file_size [e] < MAX_CONTAINER_SIZE"
    using f(2) by (simp_all add: file_rep_def)
  then have "length (ct_bytes x) < MAX_CONTAINER_SIZE"
    using length_file_enc [of "[e]"] by simp
  then have "unat (ct_currentSize x) \<le> MAX_CONTAINER_SIZE"
    by (simp add: ct_bytes_def)
  then show ?thesis
    using r(1) run x(1) bytes(1) by simp
qed

end

section \<open>A small archive\<close>

definition small_archive :: containers where
  "small_archive = [str ''old-0001'' \<mapsto> [(demo_hash [5, 6], [5, 6])]]"

definition small_disk :: filesys where
  "small_disk = \<lparr>files = [container_file demo_cfg (str ''old-0001'') \<mapsto> file_enc 1 [(demo_hash [5, 6], [5, 6])]], openable = (\<lambda>_. True)\<rparr>"

definition small_messages :: "upload_msg list" where
  "small_messages = [Chunks [[5, 6], [1], [5, 6]], ChunksEnd]"

definition small_upload :: "(InMemoryDatabase, bytes list \<times> bytes list) receiver" where
  "small_upload = (demo_upload (concat (map sent_frame (map (upload_bytes 1) small_messages))))\<lparr>rv_ix :=
     demo_index\<lparr>ix_indexStore := \<lparr>db_name = [], indexObj = [(demo_hash [5, 6], str ''old-0001'')]\<rparr>\<rparr>\<rparr>"

abbreviation small_decoder :: ClientVar where
  "small_decoder \<equiv> demo_client \<lparr>sendBuffer = (\<lambda>_. 0), sb_size = send_buf_size\<rparr>"

lemma small_index: "inmem_abs (ix_indexStore (rv_ix small_upload)) = [demo_hash [5, 6] \<mapsto> str ''old-0001'']"
  by (simp add: small_upload_def inmem_abs_def)

lemma small_archive_ok: "archive_ok demo_cfg demo_hash small_disk small_archive (inmem_abs (ix_indexStore (rv_ix small_upload)))"
proof -
  have "container_ok [(demo_hash [5, 6], [5, 6])]"
    by (simp add: container_ok_def hashes_ok_def demo_hash_def CHUNK_HASH_SIZE_def file_size_def MAX_CONTAINER_SIZE_def MAX_CHUNK_SIZE_def)
  then show ?thesis
    by (auto simp: archive_ok_def small_index on_disk_def small_archive_def small_disk_def CONTAINER_ID_LENGTH_def str_def split: if_splits)
qed

lemma small_ready: "upload_ready demo_cfg inmem_inv snd demo_evp demo_hash 0 demo_name small_upload"
  using demo_upload_ready [of "concat (map sent_frame (map (upload_bytes 1) small_messages))"]
  by (simp add: upload_ready_def receiver_ok_def small_upload_def inmem_inv_def demo_index_def demo_upload_def)

lemma small_messages_ok: "list_all (upload_ok demo_cfg (openable (w_fs (rv_w small_upload)))) small_messages"
  "carries (map (upload_bytes 1) small_messages) (fst (rv_conn small_upload))" "uploaded small_messages = {[5, 6], [1]}"
  using carries_sent [of "map (upload_bytes 1) small_messages"]
  by (simp_all add: small_messages_def small_upload_def demo_upload_def chunk_fits_def const_simps insert_commute)

lemma small_hash_inj: "inj_on demo_hash (archived small_archive \<union> uploaded small_messages)"
  by (auto simp: small_messages_ok(3) archived_def small_archive_def demo_hash_def inj_on_def)

lemma small_decoder_fresh: "decoder_fresh demo_cfg (AbsRecvDecoder_new demo_cfg) small_decoder"
proof -
  have "rc_inv (ReadCache_new demo_cfg (\<lambda>_ _. 0))"
    by (rule rc_inv_new) (simp_all add: GetReadCacheSize_def demo_cfg_def)
  moreover have "rc_lookup (ReadCache_new demo_cfg (\<lambda>_ _. 0)) = Map.empty"
    by (simp add: rc_lookup_def ReadCache_new_def lru_abs_new fun_eq_iff)
  ultimately show ?thesis
    by (simp add: decoder_fresh_def decoder_idle_def decoder_for_def cache_ok_def AbsRecvDecoder_new_def GetSendChunkBatchSize_def demo_client_def)
qed

text \<open>The upload stores the one chunk that is new, in a container with a drawn name, and the writer puts it on disk.\<close>

lemma demo_upload_named: "named (rv_cv (demo_upload frames))"
  by (simp add: named_def demo_upload_def demo_client_def uuid_name_def CONTAINER_ID_LENGTH_def ALPHABET_def str_def)

lemma small_names: "uuid_name n \<Longrightarrow> container_file demo_cfg n \<noteq> container_file demo_cfg (str ''old-0001'')"
proof
  assume n: "uuid_name n" and eq: "container_file demo_cfg n = container_file demo_cfg (str ''old-0001'')"
  have "0 \<notin> set n" "n \<noteq> str ''old-0001''"
    using n ALPHABET_no_nul_slash(1) by (auto simp: uuid_name_def ALPHABET_def str_def)
  moreover have "0 \<notin> set (GetContainerRootPath demo_cfg)" "0 \<notin> set (GetContainerSuffix demo_cfg)" "0 \<notin> set (str ''old-0001'')"
    by (simp_all add: GetContainerRootPath_def GetContainerSuffix_def demo_cfg_def str_def)
  ultimately show False
    using eq by (simp add: container_file_def container_path_def c_path_id)
qed

lemma small_fresh: "uuid_name (ct_containerID x) \<Longrightarrow> fresh_names demo_cfg small_archive [x]"
  using small_names by (auto simp: fresh_names_def small_archive_def uuid_name_def)

lemma small_stored:
  assumes "rv_ix r = rv_ix small_upload"
  shows "ua_stored (fold (upload_step demo_cfg demo_hash 1) small_messages (upload_begin inmem_abs snd demo_name r)) = [(demo_hash [1], [1])]"
  using assms by (simp add: small_messages_def upload_begin_def small_index demo_hash_def)

lemma small_run:
  "\<exists>r' info x mq s. DataReceiver_Run demo_cfg queue_api inmem_vtable demo_evp small_upload = Some (Inr (r', info)) \<and>
     cv_pushed (rv_cv r') = [x] \<and> ct_bytes x = file_enc 1 [(demo_hash [1], [1])] \<and> fresh_names demo_cfg small_archive [x] \<and>
     MessageQueue_new (\<lambda>_. True) (of_nat CONTAINER_QUEUE_SIZE) = Inr mq \<and>
     step\<^sup>*\<^sup>* (upload_start mq [x] demo_cfg small_disk) s \<and> up_pc s = Stopped"
proof -
  obtain r' info where r: "DataReceiver_Run demo_cfg queue_api inmem_vtable demo_evp small_upload = Some (Inr (r', info))"
    using inmem.upload_run_spec [OF queue_api_laws upload_rel_begin [OF small_ready] small_messages_ok(1,2)] by blast
  obtain x where x: "cv_pushed (rv_cv r') = [x]" "ct_bytes x = file_enc 1 [(demo_hash [1], [1])]" "unat (ct_currentSize x) \<le> MAX_CONTAINER_SIZE"
    using inmem.single_pushed [OF queue_api_laws small_ready small_messages_ok(1,2) small_stored [OF refl] r] by auto
  have "named (rv_cv r')"
    using DataReceiver_Run_named [OF r] demo_upload_named by (simp add: small_upload_def)
  then have fresh: "fresh_names demo_cfg small_archive [x]"
    using x(1) by (intro small_fresh) (simp add: named_def)
  obtain mq :: "Container_t MessageQueue" where mq: "MessageQueue_new (\<lambda>_. True) (of_nat CONTAINER_QUEUE_SIZE) = Inr mq"
    using new_queue by blast
  have "savable demo_cfg small_disk [x]"
    using x(3) by (simp add: savable_def small_disk_def)
  then obtain s where "step\<^sup>*\<^sup>* (upload_start mq [x] demo_cfg small_disk) s" "up_pc s = Stopped"
    using writer_finishes [OF mq rtranclp.rtrancl_refl] by blast
  then show ?thesis
    using r mq x(1,2) fresh by blast
qed

end
