(* ===== verification/Recipe_Sender.thy ===== *)
theory Recipe_Sender
  imports Restore_Session
begin

text \<open>
  \<open>RecipeSender\<close> (\<open>src/Server/recipeSender.cc\<close>): the download of the three recipe files of a file, one batch
  per message, each batch acknowledged by the client. The lemmas show that the batches sent for a file are its
  contents behind the head, cut into pieces of the batch size.
\<close>

section \<open>Model\<close>

record RecipeSender =
  rs_sendRecipeBatchSize :: u64

definition RecipeSender_new :: "Configure \<Rightarrow> RecipeSender" where
  "RecipeSender_new cfg = \<lparr>rs_sendRecipeBatchSize = GetSendRecipeBatchSize cfg\<rparr>"

text \<open>Waiting for the ready message of the client, which overwrites the buffer.\<close>

definition await_ready :: "'s ssl_api \<Rightarrow> SendMsgBuffer_t \<Rightarrow> 's \<Rightarrow> (SendMsgBuffer_t \<times> 's) run" where
  "await_ready api b c =
     bindO (receive_into api b c) (\<lambda>(ok, b', c').
       if \<not> ok then Some (Inl ExitFailure)
       else if messageType (header b') \<noteq> edge_code EDGE_RECEIVE_READY then Some (Inl ExitFailure)
       else Some (Inr (b', c')))"

text \<open>The loop over one file; the three loops of the code differ in the stream and the message type \<open>t\<close>. The send and
  its error branch are those of \<open>SendBatchChunks\<close>.\<close>

partial_function (option) recipe_loop :: "'s ssl_api \<Rightarrow> EDGE_PROTCOL_CODE_SET \<Rightarrow> RecipeSender \<Rightarrow> filesys \<Rightarrow> ifstream
    \<Rightarrow> SendMsgBuffer_t \<Rightarrow> 's \<Rightarrow> (ifstream \<times> SendMsgBuffer_t \<times> 's) run" where
  "recipe_loop api t rs fs h b c =
     (let (got, h1) = is_read h (sizeof_RecipeEntry * unat (rs_sendRecipeBatchSize rs)) fs;
          readCnt = length got in
      bindO (guardO (readCnt \<le> data_size b) OutOfBounds) (\<lambda>_.
        let b1 = data_write b 0 got in
        if readCnt = 0 then Some (Inr (h1, b1, c))
        else let b2 = set_header ((header b1)\<lparr>currentItemNum := of_nat (readCnt div sizeof_RecipeEntry),
                        dataSize := of_nat readCnt, messageType := edge_code t\<rparr>) b1 in
          bindO (SendBatchChunks api b2 c) (\<lambda>c1.
          bindO (await_ready api b2 c1) (\<lambda>(b3, c2).
            if is_eof h1 then Some (Inr (h1, b3, c2))
            else recipe_loop api t rs fs h1 b3 c2))))"

definition RecipeSender_Run :: "'s ssl_api \<Rightarrow> RecipeSender \<Rightarrow> filesys \<Rightarrow> ClientVar \<Rightarrow> 's \<Rightarrow> (ClientVar \<times> 's) run" where
  "RecipeSender_Run api rs fs cv c =
     bindO (await_ready api (cv_sendRecipeBuf cv) c) (\<lambda>(b0, c0).
     bindO (recipe_loop api CLOUD_SEND_RECIPE rs fs (cv_recipeR cv) b0 c0) (\<lambda>(h1, b1, c1).
     let (_, s0) = is_read (cv_secureRecipeR cv) sizeof_FileRecipeHead fs in
     bindO (recipe_loop api CLOUD_SEND_SECURE_RECIPE rs fs s0 b1 c1) (\<lambda>(h2, b2, c2).
     let (_, k0) = is_read (cv_keyRecipeR cv) sizeof_FileRecipeHead fs in
     bindO (recipe_loop api CLOUD_SEND_KEY_RECIPE rs fs k0 b2 c2) (\<lambda>(h3, b3, c3).
     let b4 = set_header ((header b3)\<lparr>currentItemNum := 0, dataSize := 0, messageType := edge_code CLOUD_SEND_RECIPE_END\<rparr>) b3 in
     bindO (SendBatchChunks api b4 c3) (\<lambda>c4.
     bindO (receive_into api b4 c4) (\<lambda>(_, b5, c5).
       Some (Inr (cv\<lparr>cv_sendRecipeBuf := b5, cv_recipeR := h1, cv_secureRecipeR := h2, cv_keyRecipeR := h3\<rparr>, c5))))))))"

section \<open>What is sent for one file\<close>

fun batches :: "nat \<Rightarrow> 'a list \<Rightarrow> 'a list list" where
  "batches n xs = (if xs = [] \<or> n = 0 then [] else take n xs # batches n (drop n xs))"

declare batches.simps [simp del]

lemma batches_Nil [simp]: "batches n [] = []"
  by (simp add: batches.simps)

lemma concat_batches: "0 < n \<Longrightarrow> concat (batches n xs) = xs"
proof (induction n xs rule: batches.induct)
  case (1 n xs)
  then show ?case
    by (subst batches.simps) auto
qed

lemma batches_size: "x \<in> set (batches n xs) \<Longrightarrow> x \<noteq> [] \<and> length x \<le> n"
proof (induction n xs rule: batches.induct)
  case (1 n xs)
  then show ?case
    using batches.simps [of n xs] by (auto split: if_splits)
qed

definition recipe_frame :: "u32 \<Rightarrow> EDGE_PROTCOL_CODE_SET \<Rightarrow> bytes \<Rightarrow> bytes" where
  "recipe_frame k t p = nh_enc \<lparr>messageType = edge_code t, clientID = k, dataSize = of_nat (length p),
     currentItemNum = of_nat (length p div sizeof_RecipeEntry)\<rparr> @ p"

definition recipe_frames :: "RecipeSender \<Rightarrow> u32 \<Rightarrow> EDGE_PROTCOL_CODE_SET \<Rightarrow> bytes \<Rightarrow> bytes list" where
  "recipe_frames rs k t body = map (recipe_frame k t) (batches (sizeof_RecipeEntry * unat (rs_sendRecipeBatchSize rs)) body)"

text \<open>A send buffer with room for a batch, whose header has the identifier of the client.\<close>

definition recipe_buf :: "RecipeSender \<Rightarrow> u32 \<Rightarrow> SendMsgBuffer_t \<Rightarrow> bool" where
  "recipe_buf rs k b \<longleftrightarrow> clientID (header b) = k \<and>
     sb_size b = sizeof_NetworkHead + sizeof_RecipeEntry * unat (rs_sendRecipeBatchSize rs)"

definition sender_ok :: "RecipeSender \<Rightarrow> bool" where
  "sender_ok rs \<longleftrightarrow> 0 < rs_sendRecipeBatchSize rs \<and> unat (rs_sendRecipeBatchSize rs) \<le> 2 ^ 20"

definition ready_fits :: "RecipeSender \<Rightarrow> bytes \<Rightarrow> bool" where
  "ready_fits rs p \<longleftrightarrow> length p \<le> sizeof_RecipeEntry * unat (rs_sendRecipeBatchSize rs)"

lemma await_ready_spec:
  assumes laws: "ssl_laws api inc out" and i: "inc c = r @ rest" and f: "frame_records (ready_msg k p) r"
    and ok: "sender_ok rs" "ready_fits rs p" and sb: "sb_size b = sizeof_NetworkHead + sizeof_RecipeEntry * unat (rs_sendRecipeBatchSize rs)"
  shows "\<exists>b' c'. await_ready api b c = Some (Inr (b', c')) \<and> recipe_buf rs k b' \<and> inc c' = rest \<and> out c' = out c"
proof -
  have len: "length (ready_msg k p) < 2 ^ 31" "length (ready_msg k p) \<le> sb_size b"
    using ok sb by (simp_all add: ready_msg_def ready_fits_def sender_ok_def const_simps)
  define b1 where "b1 = b\<lparr>sendBuffer := mem_write (sendBuffer b) 0 (ready_msg k p)\<rparr>"
  obtain c1 where c1: "receive_into api b c = Some (Inr (True, b1, c1))" "inc c1 = rest" "out c1 = out c"
    using receive_into_message [OF laws i f len] by (auto simp: b1_def)
  have "header b1 = \<lparr>messageType = edge_code EDGE_RECEIVE_READY, clientID = k, dataSize = of_nat (length p), currentItemNum = 0\<rparr>"
    unfolding b1_def ready_msg_def by (rule header_message)
  then show ?thesis
    using c1 sb by (intro exI [of _ b1] exI [of _ c1]) (simp add: await_ready_def recipe_buf_def b1_def)
qed

lemma send_message:
  assumes laws: "ssl_laws api inc out" and h: "dataSize h = of_nat (length p)" and len: "length p < 2 ^ 30" "length p + 16 \<le> sb_size b"
  shows "\<exists>c'. SendBatchChunks api (set_header h (data_write b 0 p)) c = Some (Inr c') \<and> inc c' = inc c \<and>
     out c' = out c @ sent_frame (nh_enc h @ p)"
proof -
  let ?b = "set_header h (data_write b 0 p)"
  have n: "unat (dataSize (header ?b)) = length p"
    using h len by (simp add: unat_of_nat_u32)
  have "data_read ?b 0 (length p) = p"
    by simp
  then have m: "mem_read (sendBuffer ?b) 0 (sizeof_NetworkHead + length p) = nh_enc h @ p"
    unfolding send_buf_bytes header_bytes by simp
  obtain c' where "SendData api c (nh_enc h @ p) = Some (True, c')" "out c' = out c @ sent_frame (nh_enc h @ p)" "inc c' = inc c"
    using SendData_law [OF laws, of "nh_enc h @ p"] len by auto
  then show ?thesis
    using n m len by (simp add: SendBatchChunks_def sizeof_NetworkHead_def)
qed

lemma data_write_Nil: "data_write b off [] = b"
proof -
  have "mem_write m i [] = m" for m i
    by (auto simp: mem_write_def fun_eq_iff)
  then show ?thesis
    by (simp add: data_write_def)
qed

text \<open>The loop sends the rest of the file behind \<open>pos\<close>, given one ready message per batch.\<close>

lemma recipe_loop_spec:
  assumes laws: "ssl_laws api inc out" and ok: "sender_ok rs" "list_all (ready_fits rs) ps"
    and "is_good_at h path pos" and fc: "files fs path = Some content" and "pos \<le> length content" and "recipe_buf rs k b"
    and "length ps = length (recipe_frames rs k t (drop pos content))"
    and "inc c = r @ rest" and "carries (map (ready_msg k) ps) r"
  shows "\<exists>h' b' c'. recipe_loop api t rs fs h b c = Some (Inr (h', b', c')) \<and> recipe_buf rs k b' \<and> inc c' = rest \<and>
     out c' = out c @ concat (map sent_frame (recipe_frames rs k t (drop pos content)))"
  using assms(3,4,6-)
proof (induction ps arbitrary: h pos b c r)
  case Nil
  let ?n = "sizeof_RecipeEntry * unat (rs_sendRecipeBatchSize rs)"
  have n: "0 < ?n"
    using ok(1) by (simp add: sender_ok_def const_simps word_gt_0 unat_gt_0)
  then have e: "drop pos content = []"
    using Nil.prems(5) batches.simps [of ?n "drop pos content"] by (auto simp: recipe_frames_def split: if_splits)
  then have "is_read h ?n fs = ([], h\<lparr>is_eof := True, is_fail := True\<rparr>)"
    using is_read_at_end [OF Nil.prems(2) fc _ n] Nil.prems(3) by simp
  moreover have "recipe_buf rs k (data_write b 0 [])"
    using Nil.prems(4) by (simp add: recipe_buf_def)
  ultimately show ?case
    using Nil.prems(4,6,7) e by (subst recipe_loop.simps) (simp add: recipe_frames_def)
next
  case (Cons p ps)
  let ?n = "sizeof_RecipeEntry * unat (rs_sendRecipeBatchSize rs)"
  let ?body = "drop pos content"
  let ?got = "take ?n ?body"
  have n: "0 < ?n" "?n < 2 ^ 30"
    using ok(1) by (simp_all add: sender_ok_def const_simps word_gt_0 unat_gt_0)
  have body: "?body \<noteq> []"
    using Cons.prems(5) by (auto simp: recipe_frames_def)
  have dr: "drop ?n ?body = drop (pos + length ?got) content"
    by (cases "?n \<le> length ?body") (simp_all add: add.commute)
  have fr: "recipe_frames rs k t ?body = recipe_frame k t ?got # recipe_frames rs k t (drop (pos + length ?got) content)"
    using n body batches.simps [of ?n ?body] unfolding recipe_frames_def dr [symmetric] by simp
  define h1 where "h1 = h\<lparr>is_pos := pos + length ?got, is_eof := (length ?got < ?n), is_fail := (length ?got < ?n)\<rparr>"
  have rd: "is_read h ?n fs = (?got, h1)"
    using Cons.prems(2) fc by (simp add: is_read_def is_good_at_def is_content_def h1_def)
  have got: "?got \<noteq> []" "length ?got \<le> ?n" "length ?got < 2 ^ 30"
    using n body by auto
  have sb: "sb_size b = sizeof_NetworkHead + ?n" and cid: "clientID (header b) = k"
    using Cons.prems(4) by (simp_all add: recipe_buf_def)
  define hd2 where "hd2 = (header (data_write b 0 ?got))\<lparr>currentItemNum := of_nat (length ?got div sizeof_RecipeEntry),
     dataSize := of_nat (length ?got), messageType := edge_code t\<rparr>"
  have frame: "nh_enc hd2 @ ?got = recipe_frame k t ?got"
    using cid by (cases "header b") (simp add: hd2_def recipe_frame_def)
  obtain c1 where c1: "SendBatchChunks api (set_header hd2 (data_write b 0 ?got)) c = Some (Inr c1)" "inc c1 = inc c"
      "out c1 = out c @ sent_frame (recipe_frame k t ?got)"
    using send_message [OF laws _ got(3), of hd2 b c] got(2) sb unfolding frame by (auto simp: hd2_def sizeof_NetworkHead_def)
  obtain r1 r2 where r: "inc c1 = r1 @ r2 @ rest" "frame_records (ready_msg k p) r1" "carries (map (ready_msg k) ps) r2"
    using Cons.prems(6,7) c1(2) by auto
  obtain b3 c2 where b3: "await_ready api (set_header hd2 (data_write b 0 ?got)) c1 = Some (Inr (b3, c2))" "recipe_buf rs k b3"
      "inc c2 = r2 @ rest" "out c2 = out c1"
    using await_ready_spec [OF laws r(1,2) ok(1), of "set_header hd2 (data_write b 0 ?got)"] Cons.prems(1) sb by auto
  have step: "recipe_loop api t rs fs h b c =
      (if is_eof h1 then Some (Inr (h1, b3, c2)) else recipe_loop api t rs fs h1 b3 c2)"
    using rd got sb c1(1) b3(1) by (subst recipe_loop.simps) (simp add: hd2_def data_size_def)
  show ?case
  proof (cases "is_eof h1")
    case True
    then have "drop (pos + length ?got) content = []"
      by (auto simp: h1_def)
    moreover from this have "ps = []"
      using Cons.prems(5) unfolding fr by (simp add: recipe_frames_def)
    ultimately show ?thesis
      using True step c1(3) b3(2-) r(3) fr by (simp add: recipe_frames_def)
  next
    case False
    then have "is_good_at h1 path (pos + length ?got)"
      using Cons.prems(2) by (simp add: h1_def is_good_at_def)
    moreover have "pos + length ?got \<le> length content"
      using Cons.prems(3) by simp
    ultimately show ?thesis
      using Cons.IH [of h1 "pos + length ?got" b3 c2 r2] Cons.prems(1,5) b3(2-) r(3) fr step False c1(3) by simp
  qed
qed

section \<open>A whole download\<close>

lemma carries_append: "carries (ms @ ms') rs \<longleftrightarrow> (\<exists>r1 r2. rs = r1 @ r2 \<and> carries ms r1 \<and> carries ms' r2)"
proof (induction ms arbitrary: rs)
  case (Cons m ms)
  then show ?case
    by (auto simp del: append_assoc simp: append_assoc [symmetric]) (metis append_assoc)+
qed auto

lemma after_head:
  assumes "is_good_at h p 0" and "files fs p = Some (frh_enc hh @ body)"
  shows "\<exists>h'. is_read h sizeof_FileRecipeHead fs = (frh_enc hh, h') \<and> is_good_at h' p sizeof_FileRecipeHead"
  using is_read_full [OF assms(1,2), of sizeof_FileRecipeHead] by (simp add: sizeof_FileRecipeHead_def) (metis surj_pair)

text \<open>The connection when the login has been answered: the head of the plain recipe has been read, the other two streams are
  at the start of their files.\<close>

definition download_ready :: "RecipeSender \<Rightarrow> ClientVar \<Rightarrow> filesys \<Rightarrow> bytes \<Rightarrow> bytes \<Rightarrow> bytes \<Rightarrow> bool" where
  "download_ready rs cv fs plain sec key \<longleftrightarrow>
     sb_size (cv_sendRecipeBuf cv) = sizeof_NetworkHead + sizeof_RecipeEntry * unat (rs_sendRecipeBatchSize rs) \<and>
     (\<exists>p h. is_good_at (cv_recipeR cv) p sizeof_FileRecipeHead \<and> files fs p = Some (frh_enc h @ plain)) \<and>
     (\<exists>p h. is_good_at (cv_secureRecipeR cv) p 0 \<and> files fs p = Some (frh_enc h @ sec)) \<and>
     (\<exists>p h. is_good_at (cv_keyRecipeR cv) p 0 \<and> files fs p = Some (frh_enc h @ key))"

definition end_frame :: "u32 \<Rightarrow> bytes" where
  "end_frame k = nh_enc \<lparr>messageType = edge_code CLOUD_SEND_RECIPE_END, clientID = k, dataSize = 0, currentItemNum = 0\<rparr>"

lemma recipe_download_spec:
  assumes laws: "ssl_laws api inc out" and rs: "sender_ok rs" and ready: "download_ready rs cv fs plain sec key"
    and fits: "list_all (ready_fits rs) (p0 # ps)"
    and n: "length ps = length (recipe_frames rs k CLOUD_SEND_RECIPE plain @ recipe_frames rs k CLOUD_SEND_SECURE_RECIPE sec @
       recipe_frames rs k CLOUD_SEND_KEY_RECIPE key)"
    and msgs: "carries (map (ready_msg k) (p0 # ps)) (inc c)"
  shows "\<exists>cv' c'. RecipeSender_Run api rs fs cv c = Some (Inr (cv', c')) \<and>
     out c' = out c @ concat (map sent_frame (recipe_frames rs k CLOUD_SEND_RECIPE plain @
       recipe_frames rs k CLOUD_SEND_SECURE_RECIPE sec @ recipe_frames rs k CLOUD_SEND_KEY_RECIPE key @ [end_frame k]))"
proof -
  let ?A = "recipe_frames rs k CLOUD_SEND_RECIPE plain" and ?B = "recipe_frames rs k CLOUD_SEND_SECURE_RECIPE sec"
    and ?K = "recipe_frames rs k CLOUD_SEND_KEY_RECIPE key"
  obtain ps1 ps2 ps3 where ps: "ps = ps1 @ ps2 @ ps3" "length ps1 = length ?A" "length ps2 = length ?B" "length ps3 = length ?K"
  proof
    show "ps = take (length ?A) ps @ take (length ?B) (drop (length ?A) ps) @ drop (length ?A + length ?B) ps"
      by (metis append_take_drop_id drop_drop add.commute)
  qed (use n in simp_all)
  obtain r0 r1 r2 r3 where r: "inc c = r0 @ r1 @ r2 @ r3" "frame_records (ready_msg k p0) r0" "carries (map (ready_msg k) ps1) r1"
      "carries (map (ready_msg k) ps2) r2" "carries (map (ready_msg k) ps3) r3"
    using msgs unfolding ps(1) by (auto simp: carries_append)
  have f: "ready_fits rs p0" "list_all (ready_fits rs) ps1" "list_all (ready_fits rs) ps2" "list_all (ready_fits rs) ps3"
    using fits unfolding ps(1) by simp_all
  have sb: "sb_size (cv_sendRecipeBuf cv) = sizeof_NetworkHead + sizeof_RecipeEntry * unat (rs_sendRecipeBatchSize rs)"
    using ready by (simp add: download_ready_def)
  obtain p1 h1 p2 h2 p3 h3 where s: "is_good_at (cv_recipeR cv) p1 sizeof_FileRecipeHead" "files fs p1 = Some (frh_enc h1 @ plain)"
      "is_good_at (cv_secureRecipeR cv) p2 0" "files fs p2 = Some (frh_enc h2 @ sec)"
      "is_good_at (cv_keyRecipeR cv) p3 0" "files fs p3 = Some (frh_enc h3 @ key)"
    using ready unfolding download_ready_def by blast
  obtain s0 where s0: "is_read (cv_secureRecipeR cv) sizeof_FileRecipeHead fs = (frh_enc h2, s0)" "is_good_at s0 p2 sizeof_FileRecipeHead"
    using after_head [OF s(3,4)] by blast
  obtain k0 where k0: "is_read (cv_keyRecipeR cv) sizeof_FileRecipeHead fs = (frh_enc h3, k0)" "is_good_at k0 p3 sizeof_FileRecipeHead"
    using after_head [OF s(5,6)] by blast
  have d: "drop sizeof_FileRecipeHead (frh_enc h @ x) = x" "sizeof_FileRecipeHead \<le> length (frh_enc h @ x)" for h x
    by (simp_all add: sizeof_FileRecipeHead_def)
  note loop = recipe_loop_spec [OF laws rs, unfolded d]
  obtain b0 c0 where 0: "await_ready api (cv_sendRecipeBuf cv) c = Some (Inr (b0, c0))" "recipe_buf rs k b0" "inc c0 = r1 @ r2 @ r3" "out c0 = out c"
    using await_ready_spec [OF laws r(1,2) rs f(1) sb] by blast
  obtain i1 b1 c1 where 1: "recipe_loop api CLOUD_SEND_RECIPE rs fs (cv_recipeR cv) b0 c0 = Some (Inr (i1, b1, c1))" "recipe_buf rs k b1"
      "inc c1 = r2 @ r3" "out c1 = out c0 @ concat (map sent_frame ?A)"
    using recipe_loop_spec [OF laws rs f(2) s(1,2) d(2) 0(2) _ 0(3) r(3), unfolded d] ps(2) by blast
  obtain i2 b2 c2 where 2: "recipe_loop api CLOUD_SEND_SECURE_RECIPE rs fs s0 b1 c1 = Some (Inr (i2, b2, c2))" "recipe_buf rs k b2"
      "inc c2 = r3" "out c2 = out c1 @ concat (map sent_frame ?B)"
    using recipe_loop_spec [OF laws rs f(3) s0(2) s(4) d(2) 1(2) _ 1(3) r(4), unfolded d] ps(3) by blast
  have r3: "inc c2 = r3 @ []"
    using 2(3) by simp
  obtain i3 b3 c3 where 3: "recipe_loop api CLOUD_SEND_KEY_RECIPE rs fs k0 b2 c2 = Some (Inr (i3, b3, c3))" "recipe_buf rs k b3"
      "inc c3 = []" "out c3 = out c2 @ concat (map sent_frame ?K)"
    using recipe_loop_spec [OF laws rs f(4) k0(2) s(6) d(2) 2(2) _ r3 r(5), unfolded d] ps(4) by blast
  let ?h = "\<lparr>messageType = edge_code CLOUD_SEND_RECIPE_END, clientID = k, dataSize = 0, currentItemNum = 0\<rparr>"
  have h: "(header b3)\<lparr>currentItemNum := 0, dataSize := 0, messageType := edge_code CLOUD_SEND_RECIPE_END\<rparr> = ?h"
    using 3(2) by (cases "header b3") (simp add: recipe_buf_def)
  obtain c4 where c4: "SendBatchChunks api (set_header ?h b3) c3 = Some (Inr c4)" "inc c4 = []" "out c4 = out c3 @ sent_frame (end_frame k)"
    using send_message [OF laws, of ?h "[]" b3 c3] 3(2,3) by (auto simp: end_frame_def recipe_buf_def sizeof_NetworkHead_def data_write_Nil)
  obtain c5 where c5: "receive_into api (set_header ?h b3) c4 = Some (Inr (False, set_header ?h b3, c5))" "out c5 = out c4"
    using receive_into_closed [OF laws c4(2)] by blast
  have "\<exists>cv'. RecipeSender_Run api rs fs cv c = Some (Inr (cv', c5))"
    using 0(1) 1(1) 2(1) 3(1) s0(1) k0(1) c4(1) c5(1) by (simp add: RecipeSender_Run_def Let_def h del: edge_code.simps)
  then show ?thesis
    using 0(4) 1(4) 2(4) 3(4) c4(3) c5(2) by auto
qed

section \<open>Properties\<close>

text \<open>C14: A recipe download sends the three files. When the client sends its first ready message and one more for each
  batch, and then closes, the sender ends normally, and what it sent is, for the plain, the secure and the key
  recipe in this order, the contents of the file behind its head, cut into batches that follow each other without
  gap or overlap, and the end message. No batch is empty or larger than the send buffer.\<close>

theorem recipe_download:
  assumes "ssl_laws api inc out" and "download_ready (RecipeSender_new cfg) cv fs plain sec key"
    and "list_all (ready_fits (RecipeSender_new cfg)) (p0 # ps)"
    and "length ps = length (recipe_frames (RecipeSender_new cfg) k CLOUD_SEND_RECIPE plain @
       recipe_frames (RecipeSender_new cfg) k CLOUD_SEND_SECURE_RECIPE sec @ recipe_frames (RecipeSender_new cfg) k CLOUD_SEND_KEY_RECIPE key)"
    and "carries (map (ready_msg k) (p0 # ps)) (inc c)"
  shows "\<exists>cv' c' as bs ds. RecipeSender_Run api (RecipeSender_new cfg) fs cv c = Some (Inr (cv', c')) \<and>
     out c' = out c @ concat (map sent_frame (map (recipe_frame k CLOUD_SEND_RECIPE) as @
       map (recipe_frame k CLOUD_SEND_SECURE_RECIPE) bs @ map (recipe_frame k CLOUD_SEND_KEY_RECIPE) ds @ [end_frame k])) \<and>
     concat as = plain \<and> concat bs = sec \<and> concat ds = key \<and>
     (\<forall>x \<in> set (as @ bs @ ds). x \<noteq> [] \<and> length x + sizeof_NetworkHead \<le> sb_size (cv_sendRecipeBuf cv))"
proof -
  let ?rs = "RecipeSender_new cfg"
  let ?n = "sizeof_RecipeEntry * unat (rs_sendRecipeBatchSize ?rs)"
  have rs: "sender_ok ?rs" and n: "0 < ?n"
    by (simp_all add: sender_ok_def RecipeSender_new_def GetSendRecipeBatchSize_def const_simps)
  have "\<forall>x \<in> set (batches ?n plain @ batches ?n sec @ batches ?n key). x \<noteq> [] \<and> length x + sizeof_NetworkHead \<le> sb_size (cv_sendRecipeBuf cv)"
    using batches_size [of _ ?n] assms(2) by (auto simp: download_ready_def)
  then show ?thesis
    using recipe_download_spec [OF assms(1) rs assms(2-)] concat_batches [OF n] unfolding recipe_frames_def by blast
qed

definition demo_recipe :: "bytes \<Rightarrow> bytes" where
  "demo_recipe body = frh_enc \<lparr>fileSize = 1, totalChunkNum = 1\<rparr> @ body"

definition recipe_fs :: filesys where
  "recipe_fs = \<lparr>files = [[1] \<mapsto> demo_recipe (replicate 32 7), [2] \<mapsto> demo_recipe [], [3] \<mapsto> demo_recipe (replicate 32 9)],
     openable = (\<lambda>_. True)\<rparr>"

definition recipe_client :: ClientVar where
  "recipe_client = (demo_client \<lparr>sendBuffer = (\<lambda>_. 0), sb_size = 16400\<rparr>)\<lparr>
     cv_recipeR := \<lparr>is_path = [1], is_pos = 16, is_is_open = True, is_eof = False, is_fail = False\<rparr>,
     cv_secureRecipeR := \<lparr>is_path = [2], is_pos = 0, is_is_open = True, is_eof = False, is_fail = False\<rparr>,
     cv_keyRecipeR := \<lparr>is_path = [3], is_pos = 0, is_is_open = True, is_eof = False, is_fail = False\<rparr>\<rparr>"

theorem recipe_download_witness:
  "\<exists>cv' c'. RecipeSender_Run queue_api (RecipeSender_new demo_cfg) recipe_fs recipe_client
     (concat (map sent_frame [ready_msg 5 [], ready_msg 5 [], ready_msg 5 []]), []) = Some (Inr (cv', c'))"
proof -
  let ?c = "(concat (map sent_frame [ready_msg 5 [], ready_msg 5 [], ready_msg 5 []]), []) :: bytes list \<times> bytes list"
  have n: "sizeof_RecipeEntry * unat (rs_sendRecipeBatchSize (RecipeSender_new demo_cfg)) = 16384"
    by (simp add: RecipeSender_new_def GetSendRecipeBatchSize_def demo_cfg_def const_simps)
  have ready: "download_ready (RecipeSender_new demo_cfg) recipe_client recipe_fs (replicate 32 7) [] (replicate 32 9)"
    unfolding download_ready_def n
    by (intro conjI exI [of _ "[1]"] exI [of _ "[2]"] exI [of _ "[3]"] exI [of _ "\<lparr>fileSize = 1, totalChunkNum = 1\<rparr>"])
      (simp_all add: recipe_client_def recipe_fs_def demo_recipe_def demo_client_def is_good_at_def const_simps)
  have fits: "list_all (ready_fits (RecipeSender_new demo_cfg)) ([] # [[], []])"
    by (simp add: ready_fits_def)
  have one: "length (batches 16384 (replicate 32 (x :: u8))) = 1" for x
    by (simp add: batches.simps)
  then have len: "length [[], [] :: bytes] = length (recipe_frames (RecipeSender_new demo_cfg) 5 CLOUD_SEND_RECIPE (replicate 32 7) @
       recipe_frames (RecipeSender_new demo_cfg) 5 CLOUD_SEND_SECURE_RECIPE [] @
       recipe_frames (RecipeSender_new demo_cfg) 5 CLOUD_SEND_KEY_RECIPE (replicate 32 9))"
    unfolding recipe_frames_def n by simp
  have car: "carries (map (ready_msg 5) ([] # [[], []])) (fst ?c)"
    using carries_sent [of "[ready_msg 5 [], ready_msg 5 [], ready_msg 5 []]"] by simp
  show ?thesis
    using recipe_download [OF queue_api_laws ready fits len car] by blast
qed

end
