(* ===== verification/Login_Locks.thy ===== *)
theory Login_Locks
  imports Chunk_Structure
begin

text \<open>
  The locks of \<open>ServerOptThread::Run\<close> (\<open>src/Server/serverOptThread.cc\<close>). Every connection is served by its own thread.
  A thread reads the login message, takes \<open>clientLockSetLock_\<close>, finds or creates the mutex of its client in
  \<open>clientLockIndex_\<close>, locks it while it still holds the first lock, and releases the first lock; it unlocks the
  mutex of the client at the end of the session. Taking the mutex and the release of the first lock right behind it are one
  step: the release never waits. The lemmas show mutual exclusion of the sessions of one client,
  that no thread is blocked for good, and that a second login of a busy client keeps all other logins waiting.
\<close>

section \<open>Model\<close>

type_synonym thread = nat

datatype login_pc = AtLogin | WantSet u32 | WantClient u32 | InSession u32 | Finished

text \<open>\<open>lk_index\<close> is \<open>clientLockIndex_\<close>: for each client that has a mutex, the thread that holds it.\<close>

record lock_state =
  lk_set :: "thread option"
  lk_index :: "u32 \<rightharpoonup> thread option"
  lk_pc :: "thread \<Rightarrow> login_pc"

definition login_start :: lock_state where
  "login_start = \<lparr>lk_set = None, lk_index = Map.empty, lk_pc = (\<lambda>_. AtLogin)\<rparr>"

text \<open>\<open>find\<close> and, for a new client, the creation of its mutex.\<close>

definition find_lock :: "u32 \<Rightarrow> (u32 \<rightharpoonup> thread option) \<Rightarrow> (u32 \<rightharpoonup> thread option)" where
  "find_lock cid m = (if cid \<in> dom m then m else m(cid \<mapsto> None))"

inductive login_step :: "lock_state \<Rightarrow> lock_state \<Rightarrow> bool" where
  Receive: "lk_pc s t = AtLogin \<Longrightarrow> login_step s (s\<lparr>lk_pc := (lk_pc s)(t := WantSet cid)\<rparr>)"
| LockSet: "lk_pc s t = WantSet cid \<Longrightarrow> lk_set s = None \<Longrightarrow>
    login_step s (s\<lparr>lk_set := Some t, lk_index := find_lock cid (lk_index s), lk_pc := (lk_pc s)(t := WantClient cid)\<rparr>)"
| LockClient: "lk_pc s t = WantClient cid \<Longrightarrow> lk_index s cid = Some None \<Longrightarrow>
    login_step s (s\<lparr>lk_set := None, lk_index := (lk_index s)(cid \<mapsto> Some t), lk_pc := (lk_pc s)(t := InSession cid)\<rparr>)"
| Unlock: "lk_pc s t = InSession cid \<Longrightarrow>
    login_step s (s\<lparr>lk_index := (lk_index s)(cid \<mapsto> None), lk_pc := (lk_pc s)(t := Finished)\<rparr>)"

inductive_cases login_stepE: "login_step s s'"

section \<open>Invariant\<close>

definition login_inv :: "lock_state \<Rightarrow> bool" where
  "login_inv s \<longleftrightarrow>
     (\<forall>t cid. lk_index s cid = Some (Some t) \<longleftrightarrow> lk_pc s t = InSession cid) \<and>
     (\<forall>t. lk_set s = Some t \<longleftrightarrow> (\<exists>cid. lk_pc s t = WantClient cid)) \<and>
     (\<forall>t cid. lk_pc s t = WantClient cid \<longrightarrow> cid \<in> dom (lk_index s))"

lemma login_inv_start: "login_inv login_start"
  by (simp add: login_inv_def login_start_def)

lemma login_invD:
  assumes "login_inv s"
  shows "lk_pc s t = InSession cid \<Longrightarrow> lk_index s cid = Some (Some t)" "lk_index s cid = Some (Some t) \<Longrightarrow> lk_pc s t = InSession cid"
    "lk_pc s t = WantClient cid \<Longrightarrow> lk_set s = Some t" "lk_pc s t = WantClient cid \<Longrightarrow> cid \<in> dom (lk_index s)"
    "lk_set s = Some t \<Longrightarrow> \<exists>cid. lk_pc s t = WantClient cid"
  using assms unfolding login_inv_def by metis+

lemma login_inv_step:
  assumes "login_step s s'" and inv: "login_inv s"
  shows "login_inv s'"
  using assms(1)
proof cases
  case (Receive t cid)
  have "lk_index s c = Some (Some u) \<longleftrightarrow> lk_pc s u = InSession c" "lk_set s = Some u \<longleftrightarrow> (\<exists>c. lk_pc s u = WantClient c)" for u c
    using login_invD [OF inv] by blast+
  then show ?thesis
    using Receive login_invD(4) [OF inv] unfolding login_inv_def by auto
next
  case (LockSet t cid)
  have "find_lock cid (lk_index s) c = Some (Some u) \<longleftrightarrow> lk_index s c = Some (Some u)" for u c
    by (auto simp: find_lock_def)
  then have "find_lock cid (lk_index s) c = Some (Some u) \<longleftrightarrow> lk_pc s u = InSession c" for u c
    using login_invD(1,2) [OF inv] by blast
  moreover have "lk_pc s u \<noteq> WantClient c" for u c
    using login_invD(3) [OF inv] LockSet by fastforce
  moreover have "cid \<in> dom (find_lock cid (lk_index s))"
    by (auto simp: find_lock_def)
  ultimately show ?thesis
    using LockSet unfolding login_inv_def by auto
next
  case (LockClient t cid)
  have set: "lk_set s = Some t"
    using login_invD(3) [OF inv] LockClient by blast
  have "lk_index s c = Some (Some u) \<longleftrightarrow> lk_pc s u = InSession c" for u c
    using login_invD(1,2) [OF inv] by blast
  moreover have "lk_pc s u \<noteq> InSession cid" for u
    using login_invD(1) [OF inv, of u cid] LockClient by auto
  moreover have "u \<noteq> t \<Longrightarrow> lk_pc s u \<noteq> WantClient c" for u c
    using login_invD(3) [OF inv] set by fastforce
  ultimately show ?thesis
    using LockClient unfolding login_inv_def by auto
next
  case (Unlock t cid)
  have "lk_index s c = Some (Some u) \<longleftrightarrow> lk_pc s u = InSession c" "lk_set s = Some u \<longleftrightarrow> (\<exists>c. lk_pc s u = WantClient c)" for u c
    using login_invD [OF inv] by blast+
  moreover have "u \<noteq> t \<Longrightarrow> lk_pc s u \<noteq> InSession cid" for u
    using login_invD(1) [OF inv, of u cid] login_invD(1) [OF inv, of t cid] Unlock by auto
  ultimately show ?thesis
    using Unlock login_invD(4) [OF inv] unfolding login_inv_def by auto
qed

lemma login_inv_reach: "login_step\<^sup>*\<^sup>* s s' \<Longrightarrow> login_inv s \<Longrightarrow> login_inv s'"
  by (induction rule: rtranclp_induct) (auto intro: login_inv_step)

section \<open>Properties\<close>

text \<open>C13: At most one session per client: in every state that the login protocol can reach, under every interleaving of the
  connections, two threads that serve the same client are one, and the mutex of that client is held by it.\<close>

theorem client_exclusion:
  assumes "login_step\<^sup>*\<^sup>* login_start s" and "lk_pc s t = InSession cid"
  shows "lk_index s cid = Some (Some t) \<and> (\<forall>u. lk_pc s u = InSession cid \<longrightarrow> u = t)"
proof -
  note inv = login_invD [OF login_inv_reach [OF assms(1) login_inv_start]]
  show ?thesis
    using inv(1) [OF assms(2)] inv(1) by (metis option.inject)
qed

text \<open>A thread that holds the lock of the set can go on once the client it waits for is free; then the set is free, and
  a thread that waits for it still does.\<close>

lemma reach_session:
  assumes inv: "login_inv s" and t: "lk_pc s t = WantClient cid"
  shows "\<exists>s'. login_step\<^sup>*\<^sup>* s s' \<and> lk_pc s' t = InSession cid \<and> lk_set s' = None \<and>
     (\<forall>v c. lk_pc s v = WantSet c \<longrightarrow> lk_pc s' v = WantSet c)"
proof (cases "lk_index s cid = Some None")
  case True
  show ?thesis
    by (rule exI, rule conjI, rule r_into_rtranclp [of login_step, OF LockClient [OF t True]]) (use t in auto)
next
  case False
  then obtain u where u: "lk_index s cid = Some (Some u)"
    using login_invD(4) [OF inv t] by auto
  then have pu: "lk_pc s u = InSession cid"
    by (rule login_invD(2) [OF inv])
  let ?s = "s\<lparr>lk_index := (lk_index s)(cid \<mapsto> None), lk_pc := (lk_pc s)(u := Finished)\<rparr>"
  have "t \<noteq> u"
    using t pu by auto
  then have "lk_pc ?s t = WantClient cid" "lk_index ?s cid = Some None"
    using t by simp_all
  note step = LockClient [OF this]
  show ?thesis
    by (rule exI, rule conjI, rule converse_rtranclp_into_rtranclp [of login_step, OF Unlock [OF pu]], rule r_into_rtranclp [of login_step, OF step]) (use t pu in auto)
qed

definition can_finish :: "thread \<Rightarrow> lock_state \<Rightarrow> bool" where
  "can_finish t s \<longleftrightarrow> (\<exists>s'. login_step\<^sup>*\<^sup>* s s' \<and> lk_pc s' t = Finished)"

lemma can_finish_steps: "login_step\<^sup>*\<^sup>* s s' \<Longrightarrow> can_finish t s' \<Longrightarrow> can_finish t s"
  unfolding can_finish_def by (meson rtranclp_trans)

lemma can_finish_step: "login_step s s' \<Longrightarrow> can_finish t s' \<Longrightarrow> can_finish t s"
  by (rule can_finish_steps [OF r_into_rtranclp])

lemma can_finish_session: "lk_pc s t = InSession cid \<Longrightarrow> can_finish t s"
  unfolding can_finish_def by (rule exI, rule conjI, rule r_into_rtranclp, erule Unlock) simp

lemma can_finish_client: "login_inv s \<Longrightarrow> lk_pc s t = WantClient cid \<Longrightarrow> can_finish t s"
  using reach_session can_finish_session can_finish_steps by blast

lemma can_finish_set:
  assumes inv: "login_inv s" and t: "lk_pc s t = WantSet cid"
  shows "can_finish t s"
proof -
  have free: "can_finish t x" if "login_inv x" "lk_pc x t = WantSet cid" "lk_set x = None" for x
  proof -
    note step = LockSet [OF that(2,3)]
    show ?thesis
      by (rule can_finish_step [OF step], rule can_finish_client [OF login_inv_step [OF step that(1)]]) simp
  qed
  show ?thesis
  proof (cases "lk_set s")
    case None
    then show ?thesis
      using free inv t by blast
  next
    case (Some u)
    then obtain c where "lk_pc s u = WantClient c"
      using login_invD(5) [OF inv] by blast
    then obtain s' where s': "login_step\<^sup>*\<^sup>* s s'" "lk_set s' = None" "lk_pc s' t = WantSet cid"
      using reach_session [OF inv] t by blast
    then show ?thesis
      using free login_inv_reach [OF s'(1) inv] can_finish_steps by blast
  qed
qed

text \<open>C15: No login blocks for good: from every reachable state, as long as the sessions in progress can end, every
  thread can reach the end of its own session; there is no deadlock between the two kinds of locks.\<close>

theorem login_no_deadlock:
  assumes "login_step\<^sup>*\<^sup>* login_start s"
  shows "\<exists>s'. login_step\<^sup>*\<^sup>* s s' \<and> lk_pc s' t = Finished"
proof -
  have inv: "login_inv s"
    by (rule login_inv_reach [OF assms login_inv_start])
  have "can_finish t s"
  proof (cases "lk_pc s t")
    case AtLogin
    note step = Receive [OF AtLogin, of 0]
    show ?thesis
      by (rule can_finish_step [OF step], rule can_finish_set [OF login_inv_step [OF step inv]]) simp
  qed (use inv can_finish_set can_finish_client can_finish_session in \<open>auto simp: can_finish_def\<close>)
  then show ?thesis
    by (simp add: can_finish_def)
qed

text \<open>While \<open>t\<close> waits for the client of \<open>u\<close>, no thread but those already in a session gets into one.\<close>

lemma convoy_step:
  assumes "login_step s s'" and "login_inv s" and "lk_pc s t = WantClient cid" and "lk_pc s' u = InSession cid" and "lk_pc s u = InSession cid"
  shows "lk_pc s' t = WantClient cid \<and> (lk_pc s' v = InSession c \<longrightarrow> lk_pc s v = InSession c)"
proof -
  have set: "lk_set s = Some t"
    using login_invD(3) [OF assms(2,3)] .
  show ?thesis
    using assms(1)
  proof cases
    case (Receive w cid')
    then show ?thesis
      using assms(3) by auto
  next
    case (LockSet w cid')
    then show ?thesis
      using set by simp
  next
    case (LockClient w cid')
    then have "w = t" "cid' = cid"
      using set login_invD(3) [OF assms(2), of w cid'] assms(3) by auto
    then show ?thesis
      using login_invD(1) [OF assms(2,5)] LockClient by simp
  next
    case (Unlock w cid')
    then show ?thesis
      using assms(3) by auto
  qed
qed

text \<open>C39: A second login of a busy client stalls the whole server. Once a thread waits for the mutex of a client that another
  thread serves, it does so with the lock of the set held, and until that session ends no connection of any client
  gets into a session.\<close>

theorem busy_client_stalls_logins:
  assumes start: "login_step\<^sup>*\<^sup>* login_start s" and wait: "lk_pc s t = WantClient cid" and busy: "lk_pc s u = InSession cid"
    and run: "(\<lambda>x y. login_step x y \<and> lk_pc y u = InSession cid)\<^sup>*\<^sup>* s s'"
  shows "lk_set s' = Some t \<and> (\<forall>v c. lk_pc s' v = InSession c \<longrightarrow> lk_pc s v = InSession c)"
proof -
  have inv: "login_inv s"
    by (rule login_inv_reach [OF start login_inv_start])
  have "login_inv s' \<and> lk_pc s' t = WantClient cid \<and> lk_pc s' u = InSession cid \<and> (\<forall>v c. lk_pc s' v = InSession c \<longrightarrow> lk_pc s v = InSession c)"
    using run
  proof (induction rule: rtranclp_induct)
    case base
    then show ?case
      using inv wait busy by simp
  next
    case (step x y)
    then show ?case
      using convoy_step [of x y t cid u] login_inv_step by blast
  qed
  then show ?thesis
    using login_invD(3) by blast
qed

text \<open>Two logins of client 5.\<close>

definition demo_logins :: lock_state where
  "demo_logins = \<lparr>lk_set = Some 1, lk_index = [5 \<mapsto> Some 0], lk_pc = (\<lambda>_. AtLogin)(0 := InSession 5, 1 := WantClient 5)\<rparr>"

lemma demo_logins_reach: "login_step\<^sup>*\<^sup>* login_start demo_logins"
proof -
  define s1 where "s1 = login_start\<lparr>lk_pc := (lk_pc login_start)(0 := WantSet 5)\<rparr>"
  define s2 where "s2 = s1\<lparr>lk_set := Some 0, lk_index := find_lock 5 (lk_index s1), lk_pc := (lk_pc s1)(0 := WantClient 5)\<rparr>"
  define s3 where "s3 = s2\<lparr>lk_set := None, lk_index := (lk_index s2)(5 \<mapsto> Some 0), lk_pc := (lk_pc s2)(0 := InSession 5)\<rparr>"
  define s4 where "s4 = s3\<lparr>lk_pc := (lk_pc s3)(1 := WantSet 5)\<rparr>"
  define s5 where "s5 = s4\<lparr>lk_set := Some 1, lk_index := find_lock 5 (lk_index s4), lk_pc := (lk_pc s4)(1 := WantClient 5)\<rparr>"
  note defs = s1_def s2_def s3_def s4_def s5_def login_start_def find_lock_def
  have a: "login_step login_start s1"
    unfolding s1_def by (rule Receive) (simp add: login_start_def)
  have b: "login_step s1 s2"
    unfolding s2_def by (rule LockSet) (simp_all add: defs)
  have c: "login_step s2 s3"
    unfolding s3_def by (rule LockClient) (simp_all add: defs)
  have d: "login_step s3 s4"
    unfolding s4_def by (rule Receive) (simp add: defs)
  have e: "login_step s4 s5"
    unfolding s5_def by (rule LockSet) (simp_all add: defs)
  have "s5 = demo_logins"
    by (simp add: demo_logins_def defs fun_eq_iff)
  then show ?thesis
    using a b c d e by (metis converse_rtranclp_into_rtranclp rtranclp.rtrancl_refl)
qed

theorem client_exclusion_witness: "lk_index demo_logins 5 = Some (Some 0) \<and> {u. lk_pc demo_logins u = InSession 5} = {0}"
proof -
  have 0: "lk_pc demo_logins 0 = InSession 5"
    by (simp add: demo_logins_def)
  show ?thesis
    using client_exclusion [OF demo_logins_reach 0] 0 by blast
qed

theorem login_no_deadlock_witness: "\<exists>s'. login_step\<^sup>*\<^sup>* demo_logins s' \<and> lk_pc s' 1 = Finished"
  by (rule login_no_deadlock [OF demo_logins_reach])

theorem busy_client_stalls_logins_witness: "lk_set demo_logins = Some 1 \<and> {(v, c). lk_pc demo_logins v = InSession c} = {(0, 5)}"
proof -
  have "lk_set demo_logins = Some 1"
    using busy_client_stalls_logins [OF demo_logins_reach, of 1 5 0 demo_logins] by (simp add: demo_logins_def)
  then show ?thesis
    by (auto simp: demo_logins_def split: if_splits)
qed

end
