(* ===== verification/Server_Opt.thy ===== *)
theory Server_Opt
  imports Archive Recipe_Sender
begin

text \<open>
  \<open>ServerOptThread\<close> (\<open>src/Server/serverOptThread.cc\<close>): the objects of the server, and the life of one connection from its login
  message to the end of its session. A connection is served as one function of the server, the world and the connection.
  The threads of an upload are composed as receiver first, writer behind it; the lemmas connect this with every
  interleaving of the two. The thread of a session acts on messages that the client sends after the answer to its
  login, so the answer comes first. The locks of the logins are in the theory of the login locks.
\<close>

section \<open>Model\<close>

record 'd server =
  sv_indexType :: int
  sv_ix :: "'d PlainIndex"
  sv_dr :: DataReceiver
  sv_dw :: DataWriter
  sv_rs :: RecipeSender
  sv_rd :: RecvDecoder
  sv_log :: ofstream

definition logFileName :: bytes where
  "logFileName = str ''server-log''"

definition log_header :: bytes where
  "log_header = str ''logical data size (B), '' @ str ''logical chunk num, '' @ str ''unique data size (B), '' @
     str ''unique chunk num, '' @ str ''compressed data size (B), '' @ str ''total time (s)'' @ [10]"

definition open_log :: "filesys \<Rightarrow> ofstream \<times> filesys" where
  "open_log fs =
     (if \<not> FileExist fs logFileName then let (h, fs1) = os_open_trunc logFileName fs in os_write h log_header fs1
      else os_open_app logFileName fs)"

definition ServerOptThread_new :: "Configure \<Rightarrow> 'd \<Rightarrow> int \<Rightarrow> filesys \<Rightarrow> ('d server \<times> filesys) result" where
  "ServerOptThread_new cfg fp2ChunkDB indexType fs =
     bindR (AbsIndex_new cfg fp2ChunkDB \<lparr>sc_writtenDataSize = 0, sc_writtenChunkNum = 0\<rparr> fs) (\<lambda>ix.
       let (h, fs1) = open_log fs in
       Inr (\<lparr>sv_indexType = indexType, sv_ix = ix, sv_dr = DataReceiver_new, sv_dw = DataWriter_new cfg,
             sv_rs = RecipeSender_new cfg, sv_rd = AbsRecvDecoder_new cfg, sv_log = h\<rparr>, fs1))"

text \<open>Of the objects that the destructor deletes only the index has an effect, on its statistics file.\<close>

definition ServerOptThread_delete :: "'d server \<Rightarrow> filesys \<Rightarrow> 'd server \<times> filesys" where
  "ServerOptThread_delete sv fs = (sv\<lparr>sv_log := os_close (sv_log sv)\<rparr>, AbsIndex_delete (sv_ix sv) fs)"

definition CheckFileStatus :: "bytes \<Rightarrow> int \<Rightarrow> filesys \<Rightarrow> bool" where
  "CheckFileStatus fullRecipePath optType fs =
     (if FileExist fs fullRecipePath then True
      else if optType = opt_code UPLOAD_OPT then True
      else if optType = opt_code DOWNLOAD_RECIPE_OPT then False
      else True)"

definition ClientVar_delete :: "bool \<Rightarrow> ClientVar \<Rightarrow> ClientVar result" where
  "ClientVar_delete queue_empty cv =
     (if cv_optType cv = opt_code UPLOAD_OPT then DestoryUploadBuffer queue_empty cv
      else if cv_optType cv = opt_code DOWNLOAD_RECIPE_OPT then Inr (DestoryDownloadRecipeBuffer cv)
      else Inr cv)"

text \<open>The answer to a login: the type is set and the first \<open>n\<close> bytes of the login buffer are sent.\<close>

definition respond :: "'s ssl_api \<Rightarrow> EDGE_PROTCOL_CODE_SET \<Rightarrow> nat \<Rightarrow> SendMsgBuffer_t \<Rightarrow> 's \<Rightarrow> (SendMsgBuffer_t \<times> 's) run" where
  "respond api t n b c =
     (let b1 = set_header ((header b)\<lparr>messageType := edge_code t\<rparr>) b in
      case SendData api c (mem_read (sendBuffer b1) 0 n) of
        None \<Rightarrow> None
      | Some (ok, c') \<Rightarrow> if ok then Some (Inr (b1, c')) else Some (Inl ExitFailure))"

text \<open>\<open>DataWriter::Run\<close> behind the receiver: the containers in the order of the queue.\<close>

fun save_all :: "DataWriter \<Rightarrow> Container_t list \<Rightarrow> filesys \<Rightarrow> (DataWriter \<times> filesys) result" where
  "save_all dw [] fs = Inr (dw, fs)"
| "save_all dw (k # ks) fs =
     bindR (SaveToFile dw k fs) (\<lambda>fs1. save_all (dw\<lparr>dw_containerNum := dw_containerNum dw + 1\<rparr>) ks fs1)"

definition login_name :: "SendMsgBuffer_t \<Rightarrow> bytes" where
  "login_name b = data_read b 0 (CHUNK_HASH_SIZE * 2)"

text \<open>The first half of an upload: the connection state, built in the memory \<open>raw\<close> and \<open>pool\<close>, and the answer.\<close>

definition upload_connect :: "Configure \<Rightarrow> 's ssl_api \<Rightarrow> (nat \<Rightarrow> buf) \<Rightarrow> ClientVar \<Rightarrow> 'd server
    \<Rightarrow> SendMsgBuffer_t \<Rightarrow> 's \<Rightarrow> world \<Rightarrow> ('d, 's) receiver run" where
  "upload_connect cfg api pool raw sv b c w =
     (let fileName = login_name b;
          tmpRecipeHead = frh_dec (data_read b (CHUNK_HASH_SIZE * 2) sizeof_FileRecipeHead) in
      bindO (liftO (ClientVar_new cfg pool raw (clientID (header b)) (opt_code UPLOAD_OPT) (recipe_path cfg fileName)
        (secure_recipe_path cfg fileName) (key_recipe_path cfg fileName) (fileSize tmpRecipeHead) (totalChunkNum tmpRecipeHead) w)) (\<lambda>(cv, w1).
      bindO (respond api EDGE_LOGIN_RESPONSE sizeof_NetworkHead b c) (\<lambda>(_, c1).
        Some (Inr \<lparr>rv_dr = sv_dr sv, rv_ix = sv_ix sv, rv_cv = cv, rv_w = w1, rv_conn = c1\<rparr>))))"

definition EdgeUploadThread :: "Configure \<Rightarrow> 's ssl_api \<Rightarrow> 'd AbsDatabase \<Rightarrow> evp_api \<Rightarrow> (nat \<Rightarrow> buf) \<Rightarrow> ClientVar \<Rightarrow> 'd server
    \<Rightarrow> SendMsgBuffer_t \<Rightarrow> 's \<Rightarrow> world \<Rightarrow> ('d server \<times> 's \<times> world) run" where
  "EdgeUploadThread cfg api vt evp pool raw sv b c w =
     bindO (upload_connect cfg api pool raw sv b c w) (\<lambda>r0.
     bindO (DataReceiver_Run cfg api vt evp r0) (\<lambda>(r, enclaveInfo).
     bindO (liftO (save_all (sv_dw sv) (cv_pushed (rv_cv r)) (w_fs (rv_w r)))) (\<lambda>(dw, fs).
     bindO (liftO (ClientVar_delete True (rv_cv r))) (\<lambda>_.
       Some (Inr (sv\<lparr>sv_dr := rv_dr r, sv_ix := rv_ix r, sv_dw := dw\<rparr>, rv_conn r, (rv_w r)\<lparr>w_fs := fs\<rparr>))))))"

text \<open>When a recipe is missing, \<open>curClient\<close> is never assigned and the \<open>delete\<close> at the end works on an indeterminate pointer.\<close>

definition EdgeDownloadRecipeThread :: "Configure \<Rightarrow> 's ssl_api \<Rightarrow> (nat \<Rightarrow> buf) \<Rightarrow> ClientVar \<Rightarrow> 'd server
    \<Rightarrow> SendMsgBuffer_t \<Rightarrow> 's \<Rightarrow> world \<Rightarrow> ('d server \<times> 's \<times> world) run" where
  "EdgeDownloadRecipeThread cfg api pool raw sv b c w =
     (let fileName = login_name b; p = recipe_path cfg fileName;
          sp = secure_recipe_path cfg fileName; kp = key_recipe_path cfg fileName in
      if FileExist (w_fs w) p \<and> FileExist (w_fs w) sp \<and> FileExist (w_fs w) kp then
        bindO (liftO (ClientVar_new cfg pool raw (clientID (header b)) (opt_code DOWNLOAD_RECIPE_OPT) p sp kp 0 0 w)) (\<lambda>(cv, w1).
        let (got, h) = is_read (cv_recipeR cv) sizeof_FileRecipeHead (w_fs w1) in
        bindO (respond api EDGE_LOGIN_RESPONSE (sizeof_NetworkHead + sizeof_FileRecipeHead) (data_write b 0 got) c) (\<lambda>(_, c1).
        bindO (RecipeSender_Run api (sv_rs sv) (w_fs w1) (cv\<lparr>cv_recipeR := h\<rparr>) c1) (\<lambda>(cv1, c2).
        bindO (liftO (ClientVar_delete True cv1)) (\<lambda>_. Some (Inr (sv, c2, w1))))))
      else bindO (respond api CLOUD_FILE_NON_EXIST (sizeof_NetworkHead + sizeof_FileRecipeHead) b c) (\<lambda>_. Some (Inl Undefined)))"

definition EdgeDownloadChunkThread :: "Configure \<Rightarrow> 's ssl_api \<Rightarrow> 'd AbsDatabase \<Rightarrow> (nat \<Rightarrow> buf) \<Rightarrow> ClientVar \<Rightarrow> 'd server
    \<Rightarrow> SendMsgBuffer_t \<Rightarrow> 's \<Rightarrow> world \<Rightarrow> ('d server \<times> 's \<times> world) run" where
  "EdgeDownloadChunkThread cfg api vt pool raw sv b c w =
     bindO (liftO (ClientVar_new cfg pool raw (clientID (header b)) (opt_code DOWNLOAD_CHUNK_OPT) [] [] [] 0 0 w)) (\<lambda>(cv, w1).
     bindO (respond api EDGE_LOGIN_RESPONSE sizeof_NetworkHead b c) (\<lambda>(_, c1).
     bindO (RecvDecoder_Run api vt (sv_ix sv) (w_fs w1) (sv_rd sv) cv c1) (\<lambda>(rd, cv1, c2).
     bindO (liftO (ClientVar_delete True cv1)) (\<lambda>_. Some (Inr (sv\<lparr>sv_rd := rd\<rparr>, c2, w1))))))"

definition login_buf_size :: nat where
  "login_buf_size = sizeof_NetworkHead + CHUNK_HASH_SIZE * 2 + sizeof_FileRecipeHead"

definition login_receive :: "'s ssl_api \<Rightarrow> 's \<Rightarrow> world \<Rightarrow> (SendMsgBuffer_t \<times> 's \<times> world) run" where
  "login_receive api c w =
     (let (mem, w1) = fresh_mem w;
          b0 = \<lparr>sendBuffer = mem, sb_size = login_buf_size\<rparr>;
          recvBuf = set_header ((header b0)\<lparr>dataSize := 0\<rparr>) b0 in
      bindO (receive_into api recvBuf c) (\<lambda>(ok, b, c1).
        if ok then Some (Inr (b, c1, w1)) else Some (Inl ExitFailure)))"

definition ServerOptThread_Run :: "Configure \<Rightarrow> 's ssl_api \<Rightarrow> 'd AbsDatabase \<Rightarrow> evp_api \<Rightarrow> (nat \<Rightarrow> buf) \<Rightarrow> ClientVar \<Rightarrow> 'd server
    \<Rightarrow> 's \<Rightarrow> world \<Rightarrow> ('d server \<times> 's \<times> world) run" where
  "ServerOptThread_Run cfg api vt evp pool raw sv c w =
     bindO (login_receive api c w) (\<lambda>(b, c1, w1).
       case edge_of_code (messageType (header b)) of
         Some EDGE_MIGRATE_LOGIN \<Rightarrow> EdgeUploadThread cfg api vt evp pool raw sv b c1 w1
       | Some EDGE_DOWNLOAD_RECIPE_LOGIN \<Rightarrow> EdgeDownloadRecipeThread cfg api pool raw sv b c1 w1
       | Some EDGE_DOWNLOAD_CHUNK_LOGIN \<Rightarrow> EdgeDownloadChunkThread cfg api vt pool raw sv b c1 w1
       | _ \<Rightarrow> Some (Inl ExitFailure))"

end
