(* ===== verification/Server_Session.thy ===== *)
theory Server_Session
  imports Server_Opt
begin

text \<open>
  What a connection to the server does, from the login message to its end, for the three kinds of logins. Each lemma
  takes the server between two connections and the bytes the client sends, and gives the state of the server, the files
  and the bytes sent. An upload over a consistent archive leaves a consistent archive; the recipe files hold the
  entries of the messages in order; a restore and a recipe download answer from these files.
\<close>

section \<open>The writer behind the receiver\<close>

definition writer_for :: "Configure \<Rightarrow> DataWriter \<Rightarrow> bool" where
  "writer_for cfg dw \<longleftrightarrow> dw_containerNamePrefix dw = GetContainerRootPath cfg \<and> dw_containerNameTail dw = GetContainerSuffix cfg"

lemma save_all_ok:
  assumes "writer_for cfg dw" and "savable cfg fs ks"
  shows "\<exists>dw' fs'. save_all dw ks fs = Inr (dw', fs') \<and> writer_for cfg dw' \<and> files fs' = write_all cfg ks (files fs) \<and>
     openable fs' = openable fs"
  using assms
proof (induction ks arbitrary: dw fs)
  case (Cons k ks)
  let ?fs = "fs\<lparr>files := (files fs)(container_file cfg (ct_containerID k) \<mapsto> ct_bytes k)\<rparr>"
  have "SaveToFile dw k fs = Inr ?fs"
    using Cons.prems by (simp add: SaveToFile_def writer_for_def savable_def container_file_def)
  moreover have "savable cfg ?fs ks" "writer_for cfg (dw\<lparr>dw_containerNum := dw_containerNum dw + 1\<rparr>)"
    using Cons.prems by (simp_all add: savable_def writer_for_def)
  ultimately show ?case
    using Cons.IH [of "dw\<lparr>dw_containerNum := dw_containerNum dw + 1\<rparr>" ?fs] by (simp del: fun_upd_apply)
qed simp

lemma pushed_savable:
  assumes "length ks = length fl" and "\<forall>i < length fl. file_rep (base_at b0 i) (ks ! i) (fl ! i)"
    and "\<forall>n. openable fs (container_file cfg n)"
  shows "savable cfg fs ks"
proof -
  have "unat (ct_currentSize k) \<le> MAX_CONTAINER_SIZE" if k: "k \<in> set ks" for k
  proof -
    obtain i where i: "i < length ks" "ks ! i = k"
      using k by (auto simp: in_set_conv_nth)
    then have r: "file_rep (base_at b0 i) k (fl ! i)"
      using assms(1,2) by auto
    have "unat (ct_currentSize k) = length (ct_bytes k)"
      by (simp add: ct_bytes_def)
    also have "\<dots> = file_size (snd (fl ! i))"
      using r by (simp add: file_rep_def length_file_enc)
    finally show ?thesis
      using r by (simp add: file_rep_def)
  qed
  then show ?thesis
    using assms(3) by (simp add: savable_def)
qed

section \<open>Logins\<close>

text \<open>The login message of client \<open>k\<close>, and the server between two connections.\<close>

definition login_msg :: "EDGE_PROTCOL_CODE_SET \<Rightarrow> u32 \<Rightarrow> bytes \<Rightarrow> bytes" where
  "login_msg t k p = nh_enc \<lparr>messageType = edge_code t, clientID = k, dataSize = of_nat (length p), currentItemNum = 0\<rparr> @ p"

definition server_ok :: "Configure \<Rightarrow> ('d \<Rightarrow> bool) \<Rightarrow> evp_api \<Rightarrow> (bytes \<Rightarrow> bytes) \<Rightarrow> 'd server \<Rightarrow> bool" where
  "server_ok cfg I evp H sv \<longleftrightarrow> I (ix_indexStore (sv_ix sv)) \<and> hashes_with evp (ix_crypto (sv_ix sv)) H \<and>
     ix_sendChunkBatchSize (sv_ix sv) = 256 \<and> writer_for cfg (sv_dw sv) \<and> sv_rs sv = RecipeSender_new cfg \<and> decoder_for cfg (sv_rd sv)"

lemma login_received:
  assumes laws: "ssl_laws api inc out" and i: "inc c = r @ rest" "frame_records (login_msg t k p) r" and len: "length p \<le> 80"
  shows "\<exists>b c' w'. login_receive api c w = Some (Inr (b, c', w')) \<and> sb_size b = login_buf_size \<and>
     header b = \<lparr>messageType = edge_code t, clientID = k, dataSize = of_nat (length p), currentItemNum = 0\<rparr> \<and>
     data_read b 0 (length p) = p \<and> inc c' = rest \<and> out c' = out c \<and> w_fs w' = w_fs w"
proof -
  obtain mem w1 where w1: "fresh_mem w = (mem, w1)" "w_fs w1 = w_fs w"
    using fresh_mem_fs(1) [of w] by (cases "fresh_mem w") simp
  define b0 where "b0 = (let b = \<lparr>sendBuffer = mem, sb_size = login_buf_size\<rparr> in set_header ((header b)\<lparr>dataSize := 0\<rparr>) b)"
  have sb: "sb_size b0 = login_buf_size"
    by (simp add: b0_def Let_def)
  have "length (login_msg t k p) < 2 ^ 31" "length (login_msg t k p) \<le> sb_size b0"
    using len by (simp_all add: login_msg_def sb login_buf_size_def const_simps)
  from receive_into_message [OF laws i this] obtain c' where c': "receive_into api b0 c = Some (Inr (True, b0\<lparr>sendBuffer :=
      mem_write (sendBuffer b0) 0 (login_msg t k p)\<rparr>, c'))" "inc c' = rest" "out c' = out c"
    by blast
  then show ?thesis
    using w1 sb header_message [where b = b0 and m = "sendBuffer b0" and p = p]
    by (intro exI [of _ "b0\<lparr>sendBuffer := mem_write (sendBuffer b0) 0 (login_msg t k p)\<rparr>"] exI [of _ c'] exI [of _ w1])
      (simp add: login_receive_def login_msg_def b0_def Let_def)
qed

lemma respond_spec:
  assumes "ssl_laws api inc out" and "n \<le> login_buf_size"
  shows "\<exists>c'. respond api t (sizeof_NetworkHead + n) b c = Some (Inr (set_header ((header b)\<lparr>messageType := edge_code t\<rparr>) b, c')) \<and>
     inc c' = inc c \<and> out c' = out c @ sent_frame (nh_enc ((header b)\<lparr>messageType := edge_code t\<rparr>) @ data_read b 0 n)"
proof -
  let ?b = "set_header ((header b)\<lparr>messageType := edge_code t\<rparr>) b"
  have m: "mem_read (sendBuffer ?b) 0 (sizeof_NetworkHead + n) = nh_enc ((header b)\<lparr>messageType := edge_code t\<rparr>) @ data_read b 0 n"
    unfolding send_buf_bytes header_bytes by simp
  have "length (mem_read (sendBuffer ?b) 0 (sizeof_NetworkHead + n)) < 2 ^ 31"
    using assms(2) by (simp add: login_buf_size_def const_simps)
  from SendData_law [OF assms(1) this, of c] show ?thesis
    unfolding m by (auto simp: respond_def Let_def m)
qed

section \<open>An upload connection\<close>

definition new_upload :: "Configure \<Rightarrow> bytes \<Rightarrow> FileRecipeHead_t \<Rightarrow> (bytes \<rightharpoonup> bytes) \<Rightarrow> (bytes \<rightharpoonup> bytes)" where
  "new_upload cfg n h d = d(c_path (recipe_path cfg n) \<mapsto> frh_enc h, c_path (key_recipe_path cfg n) \<mapsto> frh_enc h,
     c_path (secure_recipe_path cfg n) \<mapsto> frh_enc h)"

lemma upload_client:
  fixes fsz tot :: u64
  assumes name: "name_ok cfg (openable (w_fs w)) name"
  shows "\<exists>cv w'. ClientVar_new cfg pool raw k (opt_code UPLOAD_OPT) (recipe_path cfg name) (secure_recipe_path cfg name)
       (key_recipe_path cfg name) fsz tot w = Inr (cv, w') \<and> client_holds (ic_chunkNum (cv_curContainer raw)) cv [] \<and>
     sb_size (cv_recvChunkBuf cv) = 16 + 256 * sizeof_Chunk \<and> cv_optType cv = opt_code UPLOAD_OPT \<and>
     cv_recipePath cv = recipe_path cfg name \<and> cv_keyRecipePath cv = key_recipe_path cfg name \<and>
     cv_secureRecipePath cv = secure_recipe_path cfg name \<and>
     (\<exists>fh. recipes_open cv fh fh fh (w_fs w')) \<and>
     files (w_fs w') = new_upload cfg name \<lparr>fileSize = fsz, totalChunkNum = tot\<rparr> (files (w_fs w)) \<and>
     openable (w_fs w') = openable (w_fs w)"
proof -
  define cv where "cv = raw\<lparr>cv_clientID := k, cv_optType := opt_code UPLOAD_OPT, cv_recipePath := recipe_path cfg name,
            cv_secureRecipePath := secure_recipe_path cfg name, cv_keyRecipePath := key_recipe_path cfg name,
            cv_fileSize := fsz, cv_totalChunkNum := tot,
            cv_sendChunkBatchSize := GetSendChunkBatchSize cfg,
            cv_sendRecipeBatchSize := GetSendRecipeBatchSize cfg,
            cv_recipeW := os_closed, cv_secureRecipeW := os_closed, cv_keyRecipeW := os_closed,
            cv_uploadDataSize := 0,
            cv_curContainer := (cv_curContainer raw)
                 \<lparr>ic_containerID := fst (new_uuid w), ic_currentBodySize := 0, ic_currentHeaderSize := 0\<rparr>,
            cv_recvChunkBuf := init_msg_buf k (256 * sizeof_Chunk) (fst (fresh_mem (snd (new_uuid w)))),
            cv_pushed := [], cv_done := False\<rparr>"
  define w2 where "w2 = snd (fresh_mem (snd (new_uuid w)))"
  have fs: "w_fs w2 = w_fs w"
    by (simp add: w2_def)
  have init: "ClientVar_new cfg pool raw k (opt_code UPLOAD_OPT) (recipe_path cfg name) (secure_recipe_path cfg name)
       (key_recipe_path cfg name) fsz tot w = init_recipes cv w2"
    by (simp add: ClientVar_new_def InitUploadBuffer_def split_beta Let_def cv_def w2_def
        GetSendChunkBatchSize_def sizeof_Chunk_def)
  have cp: "cv_recipePath cv = recipe_path cfg name" "cv_keyRecipePath cv = key_recipe_path cfg name"
      "cv_secureRecipePath cv = secure_recipe_path cfg name" "recipe_head cv = frh_enc \<lparr>fileSize = fsz, totalChunkNum = tot\<rparr>"
    by (simp_all add: cv_def recipe_head_def)
  have cr: "sb_size (cv_recvChunkBuf cv) = 16 + 256 * sizeof_Chunk" "cv_optType cv = opt_code UPLOAD_OPT" "cv_pushed cv = []"
      "cv_curContainer cv = (cv_curContainer raw)\<lparr>ic_containerID := fst (new_uuid w), ic_currentBodySize := 0, ic_currentHeaderSize := 0\<rparr>"
    by (simp_all add: cv_def init_msg_buf_def Let_def sizeof_NetworkHead_def)
  have "paths_distinct cv"
    using name by (simp add: paths_distinct_def name_ok_def cp)
  then obtain h1 h2 h3 fs' where q: "init_recipes cv w2 = Inr (cv\<lparr>cv_recipeW := h1, cv_keyRecipeW := h2, cv_secureRecipeW := h3\<rparr>, w2\<lparr>w_fs := fs'\<rparr>)"
        "recipes_open (cv\<lparr>cv_recipeW := h1, cv_keyRecipeW := h2, cv_secureRecipeW := h3\<rparr>) (recipe_head cv) (recipe_head cv) (recipe_head cv) fs'"
        "files fs' = (files (w_fs w2))(c_path (cv_recipePath cv) \<mapsto> recipe_head cv,
          c_path (cv_keyRecipePath cv) \<mapsto> recipe_head cv, c_path (cv_secureRecipePath cv) \<mapsto> recipe_head cv)"
        "openable fs' = openable (w_fs w2)"
    using init_recipes_ok [of cv w2] name unfolding name_ok_def fs cp by blast
  moreover have "client_holds (ic_chunkNum (cv_curContainer raw)) (cv\<lparr>cv_recipeW := h1, cv_keyRecipeW := h2, cv_secureRecipeW := h3\<rparr>) []"
    unfolding client_holds_def
    by (intro exI [of _ "[]"]) (simp add: client_rep_def store_log_def cr cont_rep_def file_log_def base_at_def hashes_ok_def MAX_CONTAINER_SIZE_def)
  ultimately show ?thesis
    unfolding init using cp cr fs
    by (intro exI [of _ "cv\<lparr>cv_recipeW := h1, cv_keyRecipeW := h2, cv_secureRecipeW := h3\<rparr>"] exI [of _ "w2\<lparr>w_fs := fs'\<rparr>"])
      (auto simp: new_upload_def)
qed

lemma data_read_split:
  assumes "data_read b off (length xs + length ys) = xs @ ys"
  shows "data_read b off (length xs) = xs" and "data_read b (off + length xs) (length ys) = ys"
  using mem_read_split [of "sendBuffer b" "sizeof_NetworkHead + off" "length xs" "length ys" xs ys] assms
  by (simp_all add: data_read_def add.assoc)

lemma login_parts:
  assumes b: "data_read b 0 (length (name @ frh_enc fh)) = name @ frh_enc fh" and len: "length name = CHUNK_HASH_SIZE * 2"
  shows "login_name b = name" and "frh_dec (data_read b (CHUNK_HASH_SIZE * 2) sizeof_FileRecipeHead) = fh"
  using data_read_split [OF b [unfolded length_append]] len by (simp_all add: login_name_def sizeof_FileRecipeHead_def)

definition login_answer :: "u32 \<Rightarrow> bytes \<Rightarrow> bytes" where
  "login_answer k p = nh_enc \<lparr>messageType = edge_code EDGE_LOGIN_RESPONSE, clientID = k, dataSize = of_nat (length p), currentItemNum = 0\<rparr>"

lemma upload_connected:
  assumes laws: "ssl_laws api inc out" and sv: "server_ok cfg I evp H sv" and name: "name_ok cfg (openable (w_fs w)) name" "length name = CHUNK_HASH_SIZE * 2"
    and b: "header b = \<lparr>messageType = edge_code t, clientID = k, dataSize = of_nat (length (name @ frh_enc fh)), currentItemNum = 0\<rparr>"
      "data_read b 0 (length (name @ frh_enc fh)) = name @ frh_enc fh"
  shows "\<exists>r0. upload_connect cfg api pool raw sv b c w = Some (Inr r0) \<and>
     upload_ready cfg I out evp H (ic_chunkNum (cv_curContainer raw)) name r0 \<and> rv_ix r0 = sv_ix sv \<and> inc (rv_conn r0) = inc c \<and>
     out (rv_conn r0) = out c @ sent_frame (login_answer k (name @ frh_enc fh)) \<and>
     files (w_fs (rv_w r0)) = new_upload cfg name fh (files (w_fs w)) \<and> openable (w_fs (rv_w r0)) = openable (w_fs w)"
proof -
  obtain cv w1 hds where cv: "ClientVar_new cfg pool raw k (opt_code UPLOAD_OPT) (recipe_path cfg name) (secure_recipe_path cfg name)
       (key_recipe_path cfg name) (fileSize fh) (totalChunkNum fh) w = Inr (cv, w1)" "client_holds (ic_chunkNum (cv_curContainer raw)) cv []"
     "sb_size (cv_recvChunkBuf cv) = 16 + 256 * sizeof_Chunk" "cv_optType cv = opt_code UPLOAD_OPT"
     "cv_recipePath cv = recipe_path cfg name" "cv_keyRecipePath cv = key_recipe_path cfg name"
     "cv_secureRecipePath cv = secure_recipe_path cfg name" "recipes_open cv hds hds hds (w_fs w1)"
     "files (w_fs w1) = new_upload cfg name \<lparr>fileSize = fileSize fh, totalChunkNum = totalChunkNum fh\<rparr> (files (w_fs w))"
     "openable (w_fs w1) = openable (w_fs w)"
    using upload_client [OF name(1), of pool raw k "fileSize fh" "totalChunkNum fh"] by blast
  obtain c1 where c1: "respond api EDGE_LOGIN_RESPONSE (sizeof_NetworkHead + 0) b c =
      Some (Inr (set_header ((header b)\<lparr>messageType := edge_code EDGE_LOGIN_RESPONSE\<rparr>) b, c1))" "inc c1 = inc c"
      "out c1 = out c @ sent_frame (nh_enc ((header b)\<lparr>messageType := edge_code EDGE_LOGIN_RESPONSE\<rparr>) @ data_read b 0 0)"
    using respond_spec [OF laws, of 0] by blast
  let ?r = "\<lparr>rv_dr = sv_dr sv, rv_ix = sv_ix sv, rv_cv = cv, rv_w = w1, rv_conn = c1\<rparr>"
  have "upload_connect cfg api pool raw sv b c w = Some (Inr ?r)"
    using cv(1) c1(1) login_parts [OF b(2) name(2)] b(1) by (simp add: upload_connect_def Let_def liftO_def)
  moreover have "upload_ready cfg I out evp H (ic_chunkNum (cv_curContainer raw)) name ?r"
    using sv cv(2-8,10) name(1) by (auto simp: upload_ready_def receiver_ok_def server_ok_def writer_open_def recipes_open_def)
  moreover have "data_read b 0 0 = []"
    by (simp add: data_read_def)
  ultimately show ?thesis
    using cv(9,10) c1(2,3) b(1) by (cases fh) (intro exI [of _ ?r], simp add: login_answer_def)
qed

section \<open>A whole upload\<close>

text \<open>The containers that an upload connection hands to the writer.\<close>

definition session_containers :: "Configure \<Rightarrow> 's ssl_api \<Rightarrow> 'd AbsDatabase \<Rightarrow> evp_api \<Rightarrow> (nat \<Rightarrow> buf) \<Rightarrow> ClientVar \<Rightarrow> 'd server
    \<Rightarrow> 's \<Rightarrow> world \<Rightarrow> Container_t list" where
  "session_containers cfg api vt evp pool raw sv c w =
     (case bindO (login_receive api c w) (\<lambda>(b, c1, w1).
         bindO (upload_connect cfg api pool raw sv b c1 w1) (DataReceiver_Run cfg api vt evp)) of
        Some (Inr (r, _)) \<Rightarrow> cv_pushed (rv_cv r)
      | _ \<Rightarrow> [])"

lemma ClientVar_new_named:
  "ClientVar_new cfg pool raw cid (opt_code UPLOAD_OPT) rp sp kp fsz tot w = Inr (cv, w') \<Longrightarrow> named cv"
  by (auto simp: ClientVar_new_def InitUploadBuffer_def init_recipes_def Let_def split_beta bindR_eq_Inr named_def)

lemma session_containers_named:
  assumes "x \<in> set (session_containers cfg api vt evp pool raw sv c w)"
  shows "uuid_name (ct_containerID x)"
proof -
  define run where "run = bindO (login_receive api c w) (\<lambda>(b, c1, w1).
      bindO (upload_connect cfg api pool raw sv b c1 w1) (DataReceiver_Run cfg api vt evp))"
  obtain r' info where "run = Some (Inr (r', info))" and x: "x \<in> set (cv_pushed (rv_cv r'))"
    using assms unfolding session_containers_def run_def [symmetric] by (auto split: option.splits sum.splits)
  then obtain b c1 w1 r0 where r: "upload_connect cfg api pool raw sv b c1 w1 = Some (Inr r0)"
      "DataReceiver_Run cfg api vt evp r0 = Some (Inr (r', info))"
    by (auto simp: run_def bindO_eq_Inr)
  have "named (rv_cv r0)"
    using r(1) by (auto simp: upload_connect_def Let_def bindO_eq_Inr liftO_def intro: ClientVar_new_named)
  then show ?thesis
    using DataReceiver_Run_named [OF r(2)] x by (simp add: named_def)
qed

definition login_begin :: "Configure \<Rightarrow> ('d \<Rightarrow> bytes \<rightharpoonup> bytes) \<Rightarrow> ('s \<Rightarrow> bytes list) \<Rightarrow> u32 \<Rightarrow> bytes \<Rightarrow> FileRecipeHead_t \<Rightarrow> 'd server
    \<Rightarrow> 's \<Rightarrow> filesys \<Rightarrow> upload_abs" where
  "login_begin cfg A out k name fh sv c fs = \<lparr>ua_known = dom (A (ix_indexStore (sv_ix sv))), ua_stored = [], ua_name = name,
     ua_disk = new_upload cfg name fh (files fs), ua_answers = out c @ sent_frame (login_answer k (name @ frh_enc fh))\<rparr>"

text \<open>The directories of the containers and of the recipes are apart.\<close>

definition roots_apart :: "Configure \<Rightarrow> bool" where
  "roots_apart cfg \<longleftrightarrow> (\<forall>n m. container_file cfg n \<noteq> c_path (recipe_path cfg m) \<and> container_file cfg n \<noteq> c_path (key_recipe_path cfg m) \<and>
     container_file cfg n \<noteq> c_path (secure_recipe_path cfg m))"

lemma upload_step_container:
  assumes "roots_apart cfg"
  shows "ua_disk (upload_step cfg H k m a) (container_file cfg n) = ua_disk a (container_file cfg n)"
  using assms by (cases m) (simp_all add: roots_apart_def append_file_def)

lemma upload_fold_container:
  assumes "roots_apart cfg"
  shows "ua_disk (fold (upload_step cfg H k) ms a) (container_file cfg n) = ua_disk a (container_file cfg n)"
  by (induction ms arbitrary: a) (simp_all add: upload_step_container [OF assms])

lemma archive_same_containers:
  assumes "archive_ok cfg H fs C m" and "\<And>n. files fs' (container_file cfg n) = files fs (container_file cfg n)"
  shows "archive_ok cfg H fs' C m"
  using assms by (simp add: archive_ok_def on_disk_def)

lemma ClientVar_delete_ok: "\<exists>cv'. ClientVar_delete True cv = Inr cv'"
  by (simp add: ClientVar_delete_def DestoryUploadBuffer_def Let_def)

context key_value_store
begin

lemma upload_login:
  fixes pool :: "nat \<Rightarrow> buf" and raw :: ClientVar
  assumes laws: "ssl_laws api inc out" and sv: "server_ok cfg inv evp H sv" and name: "name_ok cfg (openable (w_fs w)) name" "length name = CHUNK_HASH_SIZE * 2"
    and ok: "list_all (upload_ok cfg (openable (w_fs w))) ms"
    and msgs: "carries (login_msg EDGE_MIGRATE_LOGIN k (name @ frh_enc fh) # map (upload_bytes k) ms) (inc c)"
    and op: "\<forall>n. openable (w_fs w) (container_file cfg n)"
  defines "a \<equiv> fold (upload_step cfg H k) ms (login_begin cfg abs out k name fh sv c (w_fs w))"
    and "ks \<equiv> session_containers cfg api vt evp pool raw sv c w"
  shows "\<exists>r0 r' info sv' c' w'. upload_ready cfg inv out evp H (ic_chunkNum (cv_curContainer raw)) name r0 \<and>
     list_all (upload_ok cfg (openable (w_fs (rv_w r0)))) ms \<and> carries (map (upload_bytes k) ms) (inc (rv_conn r0)) \<and>
     DataReceiver_Run cfg api vt evp r0 = Some (Inr (r', info)) \<and> ks = cv_pushed (rv_cv r') \<and> rv_ix r0 = sv_ix sv \<and>
     files (w_fs (rv_w r')) = ua_disk a \<and>
     ServerOptThread_Run cfg api vt evp pool raw sv c w = Some (Inr (sv', c', w')) \<and> server_ok cfg inv evp H sv' \<and> sv_ix sv' = rv_ix r' \<and>
     out c' = ua_answers a \<and> files (w_fs w') = write_all cfg ks (ua_disk a) \<and> openable (w_fs w') = openable (w_fs w)"
proof -
  obtain r rs where r: "inc c = r @ rs" "frame_records (login_msg EDGE_MIGRATE_LOGIN k (name @ frh_enc fh)) r" "carries (map (upload_bytes k) ms) rs"
    using msgs by auto
  have len: "length (name @ frh_enc fh) \<le> 80"
    using name(2) by (simp add: CHUNK_HASH_SIZE_def)
  obtain b c1 w1 where b: "login_receive api c w = Some (Inr (b, c1, w1))"
     "header b = \<lparr>messageType = edge_code EDGE_MIGRATE_LOGIN, clientID = k, dataSize = of_nat (length (name @ frh_enc fh)), currentItemNum = 0\<rparr>"
     "data_read b 0 (length (name @ frh_enc fh)) = name @ frh_enc fh" "inc c1 = rs" "out c1 = out c" "w_fs w1 = w_fs w"
    using login_received [OF laws r(1,2) len, of w] by blast
  have name': "name_ok cfg (openable (w_fs w1)) name"
    using name(1) b(6) by simp
  obtain r0 where r0: "upload_connect cfg api pool raw sv b c1 w1 = Some (Inr r0)"
     "upload_ready cfg inv out evp H (ic_chunkNum (cv_curContainer raw)) name r0" "rv_ix r0 = sv_ix sv" "inc (rv_conn r0) = inc c1"
     "out (rv_conn r0) = out c1 @ sent_frame (login_answer k (name @ frh_enc fh))"
     "files (w_fs (rv_w r0)) = new_upload cfg name fh (files (w_fs w1))" "openable (w_fs (rv_w r0)) = openable (w_fs w1)"
    using upload_connected [OF laws sv name' name(2) b(2,3)] by blast
  have start: "upload_begin abs out name r0 = login_begin cfg abs out k name fh sv c (w_fs w)"
    using r0(3,5,6) b(5,6) by (simp add: upload_begin_def login_begin_def)
  have ok': "list_all (upload_ok cfg (openable (w_fs (rv_w r0)))) ms" and msgs': "carries (map (upload_bytes k) ms) (inc (rv_conn r0))"
    using ok r0(4,7) b(4,6) r(3) by simp_all
  obtain r' info fl where r': "DataReceiver_Run cfg api vt evp r0 = Some (Inr (r', info))" "length (cv_pushed (rv_cv r')) = length fl"
     "\<forall>i < length fl. file_rep (base_at (ic_chunkNum (cv_curContainer raw)) i) (cv_pushed (rv_cv r') ! i) (fl ! i)"
     "inv (ix_indexStore (rv_ix r'))" "files (w_fs (rv_w r')) = ua_disk a" "out (rv_conn r') = ua_answers a"
     "openable (w_fs (rv_w r')) = openable (w_fs (rv_w r0))" "hashes_with evp (ix_crypto (rv_ix r')) H" "ix_sendChunkBatchSize (rv_ix r') = 256"
    using upload_run_frame [OF laws upload_rel_begin [OF r0(2)] ok' msgs'] unfolding start a_def by blast
  have ks: "ks = cv_pushed (rv_cv r')"
    using b(1) r0(1) r'(1) by (simp add: ks_def session_containers_def)
  have op': "\<forall>n. openable (w_fs (rv_w r')) (container_file cfg n)"
    using op r'(7) r0(7) b(6) by simp
  obtain dw fs where save: "save_all (sv_dw sv) ks (w_fs (rv_w r')) = Inr (dw, fs)" "writer_for cfg dw"
      "files fs = write_all cfg ks (files (w_fs (rv_w r')))" "openable fs = openable (w_fs (rv_w r'))"
    using save_all_ok [OF _ pushed_savable [OF r'(2,3) op']] sv unfolding ks server_ok_def by blast
  obtain cv' where "ClientVar_delete True (rv_cv r') = Inr cv'"
    using ClientVar_delete_ok by blast
  then have "ServerOptThread_Run cfg api vt evp pool raw sv c w =
      Some (Inr (sv\<lparr>sv_dr := rv_dr r', sv_ix := rv_ix r', sv_dw := dw\<rparr>, rv_conn r', (rv_w r')\<lparr>w_fs := fs\<rparr>))"
    using b(1,2) r0(1) r'(1) save(1) by (simp add: ServerOptThread_Run_def EdgeUploadThread_def liftO_def ks del: edge_code.simps)
  moreover have "server_ok cfg inv evp H (sv\<lparr>sv_dr := rv_dr r', sv_ix := rv_ix r', sv_dw := dw\<rparr>)"
    using sv r'(4,8,9) save(2) by (simp add: server_ok_def)
  ultimately show ?thesis
    using r0(2,3) ok' msgs' r'(1,5-7) ks save(3,4) r0(7) b(6)
    by (intro exI [of _ r0] exI [of _ r'] exI [of _ info] exI [of _ "sv\<lparr>sv_dr := rv_dr r', sv_ix := rv_ix r', sv_dw := dw\<rparr>"]
        exI [of _ "rv_conn r'"] exI [of _ "(rv_w r')\<lparr>w_fs := fs\<rparr>"]) simp
qed

end

section \<open>A restore connection\<close>

lemma restore_client:
  assumes "0 < unat (GetReadCacheSize cfg)" and "unat (GetReadCacheSize cfg) \<le> 2 ^ 32" and "decoder_for cfg rd"
  shows "\<exists>cv w'. ClientVar_new cfg pool raw k (opt_code DOWNLOAD_CHUNK_OPT) rp sp kp fsz tot w = Inr (cv, w') \<and> w_fs w' = w_fs w \<and>
     decoder_fresh cfg rd cv"
proof -
  obtain ids w1 where w1: "fresh_mem w = (ids, w1)" "w_fs w1 = w_fs w"
    using fresh_mem_fs(1) [of w] by (cases "fresh_mem w") simp
  obtain mem w2 where w2: "fresh_mem w1 = (mem, w2)" "w_fs w2 = w_fs w"
    using fresh_mem_fs(1) [of w1] w1(2) by (cases "fresh_mem w1") simp
  have "rc_lookup (ReadCache_new cfg pool) = Map.empty"
    by (simp add: rc_lookup_def ReadCache_new_def lru_abs_new fun_eq_iff)
  then show ?thesis
    using w1 w2 assms(3) rc_inv_new [OF assms(1,2), of pool]
    by (simp add: ClientVar_new_def opt_code_def InitDownloadChunkBuffer_def decoder_fresh_def decoder_idle_def cache_ok_def
        GetSendChunkBatchSize_def init_msg_buf_def Let_def send_buf_size_def sizeof_Chunk_def)
qed

context key_value_store
begin

lemma restore_login:
  assumes laws: "ssl_laws api inc out" and sv: "server_ok cfg inv evp H sv" and cache: "0 < unat (GetReadCacheSize cfg)" "unat (GetReadCacheSize cfg) \<le> 2 ^ 32"
    and ar: "archive_ok cfg H (w_fs w) C (abs (ix_indexStore (sv_ix sv)))" and q: "length q \<le> 80" and p: "length p \<le> MAX_CHUNK_SIZE"
    and msgs: "carries (login_msg EDGE_DOWNLOAD_CHUNK_LOGIN k q # ready_msg j p # map (batch_msg j) (map (map H) css)) (inc c)"
    and req: "\<And>cs. cs \<in> set css \<Longrightarrow> length cs \<le> 256 \<and> H ` set cs \<subseteq> dom (abs (ix_indexStore (sv_ix sv)))"
    and inj: "inj_on H (archived C \<union> \<Union> (set ` set css))"
  shows "\<exists>sv' c' w'. ServerOptThread_Run cfg api vt evp pool raw sv c w = Some (Inr (sv', c', w')) \<and> w_fs w' = w_fs w \<and>
     out c' = out c @ sent_frame (login_answer k q) @ concat (map (batch_answer j) css)"
proof -
  obtain r rs where r: "inc c = r @ rs" "frame_records (login_msg EDGE_DOWNLOAD_CHUNK_LOGIN k q) r"
      "carries (ready_msg j p # map (batch_msg j) (map (map H) css)) rs"
    using msgs unfolding carries.simps(2) [of "login_msg EDGE_DOWNLOAD_CHUNK_LOGIN k q"] by blast
  obtain b c1 w1 where b: "login_receive api c w = Some (Inr (b, c1, w1))"
     "header b = \<lparr>messageType = edge_code EDGE_DOWNLOAD_CHUNK_LOGIN, clientID = k, dataSize = of_nat (length q), currentItemNum = 0\<rparr>"
     "inc c1 = rs" "out c1 = out c" "w_fs w1 = w_fs w"
    using login_received [OF laws r(1,2) q, of w] by blast
  have rd: "decoder_for cfg (sv_rd sv)" and len: "\<And>x. length (H x) = CHUNK_HASH_SIZE" and store: "inv (ix_indexStore (sv_ix sv))"
    using sv by (simp_all add: server_ok_def hashes_with_def)
  obtain cv w2 where cv: "ClientVar_new cfg pool raw k (opt_code DOWNLOAD_CHUNK_OPT) [] [] [] 0 0 w1 = Inr (cv, w2)" "w_fs w2 = w_fs w1"
      "decoder_fresh cfg (sv_rd sv) cv"
    using restore_client [OF cache rd] by blast
  obtain c2 where c2: "respond api EDGE_LOGIN_RESPONSE (sizeof_NetworkHead + 0) b c1 =
      Some (Inr (set_header ((header b)\<lparr>messageType := edge_code EDGE_LOGIN_RESPONSE\<rparr>) b, c2))" "inc c2 = inc c1"
      "out c2 = out c1 @ sent_frame (nh_enc ((header b)\<lparr>messageType := edge_code EDGE_LOGIN_RESPONSE\<rparr>) @ data_read b 0 0)"
    using respond_spec [OF laws, of 0] by blast
  have ar2: "archive_ok cfg H (w_fs w2) C (abs (ix_indexStore (sv_ix sv)))"
    using ar cv(2) b(5) by simp
  have msgs2: "carries (ready_msg j p # map (batch_msg j) (map (map H) css)) (inc c2)"
    using r(3) b(3) c2(2) by simp
  obtain rd' cv' c3 where run: "RecvDecoder_Run api vt (sv_ix sv) (w_fs w2) (sv_rd sv) cv c2 = Some (Inr (rd', cv', c3))"
      "out c3 = out c2 @ concat (map (batch_answer j) css)"
    using archive_restore [OF laws store ar2 decoder_fresh_idle [OF cv(3)] msgs2 p len req inj] by blast
  obtain cv'' where "ClientVar_delete True cv' = Inr cv''"
    using ClientVar_delete_ok by blast
  then have "ServerOptThread_Run cfg api vt evp pool raw sv c w = Some (Inr (sv\<lparr>sv_rd := rd'\<rparr>, c3, w2))"
    using b(1,2) cv(1) c2(1) run(1) by (simp add: ServerOptThread_Run_def EdgeDownloadChunkThread_def liftO_def del: edge_code.simps)
  moreover have "data_read b 0 0 = []"
    by (simp add: data_read_def)
  ultimately show ?thesis
    using run(2) c2(3) b(2,4,5) cv(2) by (simp add: login_answer_def)
qed

end

section \<open>A recipe connection\<close>

definition recipe_files :: "Configure \<Rightarrow> bytes \<Rightarrow> FileRecipeHead_t \<Rightarrow> bytes \<Rightarrow> bytes \<Rightarrow> bytes \<Rightarrow> (bytes \<rightharpoonup> bytes) \<Rightarrow> bool" where
  "recipe_files cfg name fh plain sec key d \<longleftrightarrow> d (c_path (recipe_path cfg name)) = Some (frh_enc fh @ plain) \<and>
     d (c_path (secure_recipe_path cfg name)) = Some (frh_enc fh @ sec) \<and> d (c_path (key_recipe_path cfg name)) = Some (frh_enc fh @ key)"

lemma recipe_client:
  assumes "recipe_files cfg name fh plain sec key (files (w_fs w))"
  shows "\<exists>cv w' h. ClientVar_new cfg pool raw k (opt_code DOWNLOAD_RECIPE_OPT) (recipe_path cfg name) (secure_recipe_path cfg name)
       (key_recipe_path cfg name) fsz tot w = Inr (cv, w') \<and> w_fs w' = w_fs w \<and>
     is_read (cv_recipeR cv) sizeof_FileRecipeHead (w_fs w) = (frh_enc fh, h) \<and>
     download_ready (RecipeSender_new cfg) (cv\<lparr>cv_recipeR := h\<rparr>) (w_fs w) plain sec key"
proof -
  obtain mem w1 where w1: "fresh_mem w = (mem, w1)" "w_fs w1 = w_fs w"
    using fresh_mem_fs(1) [of w] by (cases "fresh_mem w") simp
  note f = assms [unfolded recipe_files_def]
  have ex: "FileExist (w_fs w) (recipe_path cfg name)" "FileExist (w_fs w) (secure_recipe_path cfg name)" "FileExist (w_fs w) (key_recipe_path cfg name)"
    using f by (simp_all add: FileExist_def)
  note good = is_open_read_good [OF ex(1)] is_open_read_good [OF ex(2)] is_open_read_good [OF ex(3)]
  obtain h where h: "is_read (is_open_read (recipe_path cfg name) (w_fs w)) sizeof_FileRecipeHead (w_fs w) = (frh_enc fh, h)"
      "is_good_at h (c_path (recipe_path cfg name)) sizeof_FileRecipeHead"
    using after_head [OF good(1)] f by blast
  have "unat (GetSendRecipeBatchSize cfg) * (if sizeof_RecipeEntry > sizeof_KeyRecipeEntry then sizeof_RecipeEntry else sizeof_KeyRecipeEntry) =
      sizeof_RecipeEntry * unat (GetSendRecipeBatchSize cfg)"
    by (simp add: const_simps sizeof_KeyRecipeEntry_def MLE_KEY_SIZE_def)
  then show ?thesis
    using w1 good f h by (simp add: ClientVar_new_def opt_code_def InitDownloadRecipeBuffer_def open_recipes_def is_good_at_def [of "is_open_read _ _"]
        download_ready_def init_msg_buf_def Let_def RecipeSender_new_def) blast
qed

lemma head_fits: "sizeof_FileRecipeHead \<le> login_buf_size"
  by (simp add: login_buf_size_def)

definition recipe_answer :: "u32 \<Rightarrow> bytes \<Rightarrow> FileRecipeHead_t \<Rightarrow> bytes" where
  "recipe_answer k p fh = login_answer k p @ frh_enc fh"

definition download_frames :: "Configure \<Rightarrow> u32 \<Rightarrow> bytes \<Rightarrow> bytes \<Rightarrow> bytes \<Rightarrow> bytes list" where
  "download_frames cfg k plain sec key = recipe_frames (RecipeSender_new cfg) k CLOUD_SEND_RECIPE plain @
     recipe_frames (RecipeSender_new cfg) k CLOUD_SEND_SECURE_RECIPE sec @ recipe_frames (RecipeSender_new cfg) k CLOUD_SEND_KEY_RECIPE key"

lemma recipe_login:
  assumes laws: "ssl_laws api inc out" and sv: "sv_rs sv = RecipeSender_new cfg" and fl: "recipe_files cfg name fh plain sec key (files (w_fs w))"
    and name: "length name = CHUNK_HASH_SIZE * 2" and q: "length q \<le> 16" and fits: "list_all (ready_fits (RecipeSender_new cfg)) (p0 # ps)"
    and n: "length ps = length (download_frames cfg k plain sec key)"
    and msgs: "carries (login_msg EDGE_DOWNLOAD_RECIPE_LOGIN k (name @ q) # map (ready_msg k) (p0 # ps)) (inc c)"
  shows "\<exists>sv' c' w'. ServerOptThread_Run cfg api vt evp pool raw sv c w = Some (Inr (sv', c', w')) \<and> w_fs w' = w_fs w \<and>
     out c' = out c @ sent_frame (recipe_answer k (name @ q) fh) @
       concat (map sent_frame (download_frames cfg k plain sec key @ [end_frame k]))"
proof -
  obtain r rs where r: "inc c = r @ rs" "frame_records (login_msg EDGE_DOWNLOAD_RECIPE_LOGIN k (name @ q)) r" "carries (map (ready_msg k) (p0 # ps)) rs"
    using msgs unfolding carries.simps(2) [of "login_msg EDGE_DOWNLOAD_RECIPE_LOGIN k (name @ q)"] by blast
  have len: "length (name @ q) \<le> 80"
    using name q by (simp add: CHUNK_HASH_SIZE_def)
  obtain b c1 w1 where b: "login_receive api c w = Some (Inr (b, c1, w1))" "sb_size b = login_buf_size"
     "header b = \<lparr>messageType = edge_code EDGE_DOWNLOAD_RECIPE_LOGIN, clientID = k, dataSize = of_nat (length (name @ q)), currentItemNum = 0\<rparr>"
     "data_read b 0 (length (name @ q)) = name @ q" "inc c1 = rs" "out c1 = out c" "w_fs w1 = w_fs w"
    using login_received [OF laws r(1,2) len, of w] by blast
  have nm: "login_name b = name"
    using data_read_split(1) [OF b(4) [unfolded length_append]] name by (simp add: login_name_def)
  have ex: "FileExist (w_fs w1) (recipe_path cfg name)" "FileExist (w_fs w1) (secure_recipe_path cfg name)" "FileExist (w_fs w1) (key_recipe_path cfg name)"
    using fl b(7) by (simp_all add: FileExist_def recipe_files_def)
  obtain cv w2 h where cv: "ClientVar_new cfg pool raw k (opt_code DOWNLOAD_RECIPE_OPT) (recipe_path cfg name) (secure_recipe_path cfg name)
       (key_recipe_path cfg name) 0 0 w1 = Inr (cv, w2)" "w_fs w2 = w_fs w1" "is_read (cv_recipeR cv) sizeof_FileRecipeHead (w_fs w1) = (frh_enc fh, h)"
     "download_ready (RecipeSender_new cfg) (cv\<lparr>cv_recipeR := h\<rparr>) (w_fs w1) plain sec key"
    using recipe_client [of cfg name fh plain sec key w1 pool raw k 0 0] fl b(7) by auto
  let ?b = "data_write b 0 (frh_enc fh)"
  obtain c2 where c2: "respond api EDGE_LOGIN_RESPONSE (sizeof_NetworkHead + sizeof_FileRecipeHead) ?b c1 =
      Some (Inr (set_header ((header ?b)\<lparr>messageType := edge_code EDGE_LOGIN_RESPONSE\<rparr>) ?b, c2))" "inc c2 = inc c1"
      "out c2 = out c1 @ sent_frame (nh_enc ((header ?b)\<lparr>messageType := edge_code EDGE_LOGIN_RESPONSE\<rparr>) @ data_read ?b 0 sizeof_FileRecipeHead)"
    using respond_spec [OF laws head_fits] by blast
  have rd: "data_read ?b 0 sizeof_FileRecipeHead = frh_enc fh"
    using data_read_data_write [of b 0 "frh_enc fh"] by (simp add: sizeof_FileRecipeHead_def)
  have rs: "sender_ok (RecipeSender_new cfg)"
    by (simp add: sender_ok_def RecipeSender_new_def GetSendRecipeBatchSize_def const_simps)
  have msgs2: "carries (map (ready_msg k) (p0 # ps)) (inc c2)"
    using r(3) b(5) c2(2) by simp
  obtain cv' c3 where run: "RecipeSender_Run api (RecipeSender_new cfg) (w_fs w1) (cv\<lparr>cv_recipeR := h\<rparr>) c2 = Some (Inr (cv', c3))"
      "out c3 = out c2 @ concat (map sent_frame (download_frames cfg k plain sec key @ [end_frame k]))"
    using recipe_download_spec [OF laws rs cv(4) fits n [unfolded download_frames_def] msgs2] by (auto simp: download_frames_def)
  obtain cv'' where "ClientVar_delete True cv' = Inr cv''"
    using ClientVar_delete_ok by blast
  then have "ServerOptThread_Run cfg api vt evp pool raw sv c w = Some (Inr (sv, c3, w2))"
    using b(1,3) cv(1-3) c2(1) run(1) ex nm sv
    by (simp add: ServerOptThread_Run_def EdgeDownloadRecipeThread_def liftO_def Let_def del: edge_code.simps)
  then show ?thesis
    using run(2) c2(3) b(3,6,7) cv(2) rd by (simp add: login_answer_def recipe_answer_def)
qed

lemma missing_recipe_login:
  assumes laws: "ssl_laws api inc out" and name: "length name = CHUNK_HASH_SIZE * 2" and q: "length q \<le> 16"
    and missing: "\<not> (FileExist (w_fs w) (recipe_path cfg name) \<and> FileExist (w_fs w) (secure_recipe_path cfg name) \<and> FileExist (w_fs w) (key_recipe_path cfg name))"
    and msgs: "inc c = r @ rest" "frame_records (login_msg EDGE_DOWNLOAD_RECIPE_LOGIN k (name @ q)) r"
  shows "ServerOptThread_Run cfg api vt evp pool raw sv c w = Some (Inl Undefined)"
proof -
  have len: "length (name @ q) \<le> 80"
    using name q by (simp add: CHUNK_HASH_SIZE_def)
  obtain b c1 w1 where b: "login_receive api c w = Some (Inr (b, c1, w1))"
     "header b = \<lparr>messageType = edge_code EDGE_DOWNLOAD_RECIPE_LOGIN, clientID = k, dataSize = of_nat (length (name @ q)), currentItemNum = 0\<rparr>"
     "data_read b 0 (length (name @ q)) = name @ q" "w_fs w1 = w_fs w"
    using login_received [OF laws msgs len, of w] by blast
  have nm: "login_name b = name"
    using data_read_split(1) [OF b(3) [unfolded length_append]] name by (simp add: login_name_def)
  obtain c2 b2 where "respond api CLOUD_FILE_NON_EXIST (sizeof_NetworkHead + sizeof_FileRecipeHead) b c1 = Some (Inr (b2, c2))"
    using respond_spec [OF laws head_fits] by blast
  then show ?thesis
    using b nm missing by (auto simp: ServerOptThread_Run_def EdgeDownloadRecipeThread_def Let_def simp del: edge_code.simps)
qed

section \<open>The recipes of an upload\<close>

fun plain_entries :: "upload_msg \<Rightarrow> bytes" where
  "plain_entries (PlainEntries hs) = concat hs"
| "plain_entries _ = []"

fun sec_entries :: "upload_msg \<Rightarrow> bytes" where
  "sec_entries (SecEntries hs) = concat hs"
| "sec_entries _ = []"

fun key_entries :: "upload_msg \<Rightarrow> bytes" where
  "key_entries (KeyEntries hs) = concat hs"
| "key_entries _ = []"

fun same_file :: "upload_msg \<Rightarrow> bool" where
  "same_file (NewFile n h) = False"
| "same_file _ = True"

lemma recipe_files_step:
  assumes name: "name_ok cfg op name" and f: "recipe_files cfg name fh plain sec key (ua_disk a)" and a: "ua_name a = name" and m: "same_file m"
  shows "recipe_files cfg name fh (plain @ plain_entries m) (sec @ sec_entries m) (key @ key_entries m) (ua_disk (upload_step cfg H k m a)) \<and>
     ua_name (upload_step cfg H k m a) = name"
  using assms by (cases m) (auto simp: recipe_files_def append_file_def name_ok_def)

lemma recipe_files_fold:
  assumes name: "name_ok cfg op name" and "recipe_files cfg name fh plain sec key (ua_disk a)" and "ua_name a = name" and "list_all same_file ms"
  shows "recipe_files cfg name fh (plain @ concat (map plain_entries ms)) (sec @ concat (map sec_entries ms)) (key @ concat (map key_entries ms))
     (ua_disk (fold (upload_step cfg H k) ms a))"
  using assms(2-)
proof (induction ms arbitrary: plain sec key a)
  case (Cons m ms)
  then have "recipe_files cfg name fh (plain @ plain_entries m) (sec @ sec_entries m) (key @ key_entries m) (ua_disk (upload_step cfg H k m a)) \<and>
     ua_name (upload_step cfg H k m a) = name"
    by (intro recipe_files_step [OF name]) simp_all
  then show ?case
    using Cons.IH [of "plain @ plain_entries m" "sec @ sec_entries m" "key @ key_entries m" "upload_step cfg H k m a"] Cons.prems(3) by simp
qed simp

lemma recipe_files_write_all:
  assumes "roots_apart cfg" and "recipe_files cfg name fh plain sec key d"
  shows "recipe_files cfg name fh plain sec key (write_all cfg ks d)"
proof -
  have "c_path (recipe_path cfg name) \<notin> container_file cfg ` X" "c_path (secure_recipe_path cfg name) \<notin> container_file cfg ` X"
    "c_path (key_recipe_path cfg name) \<notin> container_file cfg ` X" for X
    using assms(1) by (auto simp: roots_apart_def dest: sym)
  then show ?thesis
    using assms(2) by (simp add: recipe_files_def write_all_other)
qed

section \<open>Properties\<close>

text \<open>C16: Running the writer behind the receiver is one of the schedules of the two threads, and all of them end alike: when the
  writer thread has stopped, under whatever interleaving with the thread that fills the queue, the files are those of
  the sequential upload.\<close>

theorem schedules_agree:
  assumes new: "MessageQueue_new (\<lambda>_. True) (of_nat CONTAINER_QUEUE_SIZE) = Inr mq" and sv: "savable cfg fs ks"
    and run: "step\<^sup>*\<^sup>* (upload_start mq ks cfg fs) s" "up_pc s = Stopped"
  shows "\<exists>dw' fs'. save_all (DataWriter_new cfg) ks fs = Inr (dw', fs') \<and> files (up_fs s) = files fs'"
proof -
  have "files (up_fs s) = write_all cfg ks (files fs)"
    using writer_stopped_state [OF new run] by (simp add: upload_rep_def)
  moreover have "writer_for cfg (DataWriter_new cfg)"
    by (simp add: writer_for_def DataWriter_new_def)
  ultimately show ?thesis
    using save_all_ok [OF _ sv] by fastforce
qed

text \<open>C38: Asking for the recipe of a file that is not stored is undefined behaviour: whenever one of the three recipe files of the
  name in a download login is missing, the server sends its refusal and then deletes a pointer that it has never set.\<close>

theorem missing_recipe_undefined:
  assumes "ssl_laws api inc out" and "length name = CHUNK_HASH_SIZE * 2" and "length q \<le> 16"
    and "\<not> (FileExist (w_fs w) (recipe_path cfg name) \<and> FileExist (w_fs w) (secure_recipe_path cfg name) \<and> FileExist (w_fs w) (key_recipe_path cfg name))"
    and "inc c = r @ rest" and "frame_records (login_msg EDGE_DOWNLOAD_RECIPE_LOGIN k (name @ q)) r"
  shows "ServerOptThread_Run cfg api vt evp pool raw sv c w = Some (Inl Undefined)"
  by (rule missing_recipe_login [OF assms])

section \<open>A small server\<close>

definition small_server :: "InMemoryDatabase server" where
  "small_server = \<lparr>sv_indexType = 0, sv_ix = rv_ix small_upload, sv_dr = DataReceiver_new, sv_dw = DataWriter_new demo_cfg,
     sv_rs = RecipeSender_new demo_cfg, sv_rd = AbsRecvDecoder_new demo_cfg, sv_log = os_closed\<rparr>"

definition small_world :: world where
  "small_world = demo_world\<lparr>w_fs := small_disk\<rparr>"

lemma small_server_ok: "server_ok demo_cfg inmem_inv demo_evp demo_hash small_server"
  using small_ready small_decoder_fresh
  by (simp add: server_ok_def small_server_def upload_ready_def receiver_ok_def decoder_fresh_def decoder_idle_def
      writer_for_def DataWriter_new_def)

lemma small_roots: "roots_apart demo_cfg"
  by (simp add: roots_apart_def container_file_def container_path_def recipe_path_def key_recipe_path_def secure_recipe_path_def c_path_def
      GetContainerRootPath_def GetRecipeRootPath_def demo_cfg_def str_def)

lemma small_world_simps [simp]: "w_fs small_world = small_disk" "openable small_disk = (\<lambda>_. True)"
  by (simp_all add: small_world_def small_disk_def)

lemma demo_name_length: "length demo_name = CHUNK_HASH_SIZE * 2"
  by (simp add: demo_name_def CHUNK_HASH_SIZE_def)

abbreviation small_head :: FileRecipeHead_t where
  "small_head \<equiv> \<lparr>fileSize = 4, totalChunkNum = 2\<rparr>"

definition small_session :: "upload_msg list \<Rightarrow> bytes list \<times> bytes list" where
  "small_session ms = (concat (map sent_frame (login_msg EDGE_MIGRATE_LOGIN 1 (demo_name @ frh_enc small_head) # map (upload_bytes 1) ms)), [])"

lemma small_session_carries:
  "carries (login_msg EDGE_MIGRATE_LOGIN 1 (demo_name @ frh_enc small_head) # map (upload_bytes 1) ms) (fst (small_session ms))"
  using carries_sent [of "login_msg EDGE_MIGRATE_LOGIN 1 (demo_name @ frh_enc small_head) # map (upload_bytes 1) ms"]
  by (simp add: small_session_def)

text \<open>The session stores its one new chunk.\<close>

lemma small_session_containers:
  assumes raw: "ic_chunkNum (cv_curContainer raw) = 0"
  shows "\<exists>x. session_containers demo_cfg queue_api inmem_vtable demo_evp pool raw small_server (small_session small_messages) small_world = [x] \<and>
     ct_bytes x = file_enc 1 [(demo_hash [1], [1])] \<and> uuid_name (ct_containerID x)"
proof -
  let ?ks = "session_containers demo_cfg queue_api inmem_vtable demo_evp pool raw small_server (small_session small_messages) small_world"
  have ok: "list_all (upload_ok demo_cfg (openable (w_fs small_world))) small_messages" "name_ok demo_cfg (openable (w_fs small_world)) demo_name"
      "\<forall>n. openable (w_fs small_world) (container_file demo_cfg n)"
    using small_messages_ok(1) demo_name_ok by (simp_all add: small_upload_def demo_upload_def)
  obtain r0 r' info where r: "upload_ready demo_cfg inmem_inv snd demo_evp demo_hash 0 demo_name r0"
      "list_all (upload_ok demo_cfg (openable (w_fs (rv_w r0)))) small_messages" "carries (map (upload_bytes 1) small_messages) (fst (rv_conn r0))"
      "DataReceiver_Run demo_cfg queue_api inmem_vtable demo_evp r0 = Some (Inr (r', info))" "?ks = cv_pushed (rv_cv r')" "rv_ix r0 = sv_ix small_server"
    using inmem.upload_login [OF queue_api_laws small_server_ok ok(2) demo_name_length ok(1) small_session_carries ok(3), of raw pool] unfolding raw by blast
  have "rv_ix r0 = rv_ix small_upload"
    using r(6) by (simp add: small_server_def)
  then obtain x where x: "?ks = [x]" "ct_bytes x = file_enc 1 [(demo_hash [1], [1])]"
    using inmem.single_pushed [OF queue_api_laws r(1-3) small_stored r(4)] r(5) by auto
  then show ?thesis
    using session_containers_named [of x demo_cfg queue_api inmem_vtable demo_evp pool raw small_server "small_session small_messages" small_world] by simp
qed

theorem schedules_agree_witness:
  "\<exists>mq (s :: upload) dw' fs'. step\<^sup>*\<^sup>* (upload_start mq [demo_container] demo_cfg (w_fs demo_world)) s \<and> up_pc s = Stopped \<and>
     save_all (DataWriter_new demo_cfg) [demo_container] (w_fs demo_world) = Inr (dw', fs') \<and> files (up_fs s) = files fs'"
proof -
  obtain mq :: "Container_t MessageQueue" where mq: "MessageQueue_new (\<lambda>_. True) (of_nat CONTAINER_QUEUE_SIZE) = Inr mq"
    using new_queue by blast
  obtain s where s: "step\<^sup>*\<^sup>* (upload_start mq [demo_container] demo_cfg (w_fs demo_world)) s" "up_pc s = Stopped"
    using writer_finishes [OF mq rtranclp.rtrancl_refl demo_savable] by blast
  then show ?thesis
    using schedules_agree [OF mq demo_savable s] by blast
qed

theorem missing_recipe_undefined_witness:
  "ServerOptThread_Run demo_cfg queue_api inmem_vtable demo_evp (\<lambda>_ _. 0) small_decoder small_server
     (sent_frame (login_msg EDGE_DOWNLOAD_RECIPE_LOGIN 5 (demo_name @ [])), []) small_world = Some (Inl Undefined)"
proof -
  have "\<not> FileExist small_disk (recipe_path demo_cfg demo_name)"
    using small_roots by (auto simp: FileExist_def small_disk_def roots_apart_def dest: sym)
  then show ?thesis
    using missing_recipe_undefined [OF queue_api_laws demo_name_length, of "[]" small_world demo_cfg _ _ "[]" 5 inmem_vtable demo_evp] frame_records_sent
    by simp
qed

end
