(* ===== verification/Dae_Server.thy ===== *)
theory Dae_Server
  imports Server_Session
begin

text \<open>
  The program (\<open>src/App/daeServer.cc\<close>): start, the loop that accepts connections, and the end on an interrupt. The thread of a
  connection is taken to end before the next connection is accepted; the locks of concurrent logins are in their own theory. The
  lemmas show that the end and a new start keep the index, the statistics and the archive.
\<close>

section \<open>Model\<close>

text \<open>\<open>net\<close> is the socket and TLS library, \<open>openDB\<close> the opening of a LevelDB database, which this program does not use.\<close>

definition dae_start :: "Configure \<Rightarrow> net_api \<Rightarrow> (bytes \<Rightarrow> 'l option) \<Rightarrow> filesys \<Rightarrow> (SSLConnection \<times> InMemoryDatabase server \<times> filesys) result" where
  "dae_start cfg net openDB fs =
     bindR (CreateDatabase openDB IN_MEMORY (GetFp2ChunkDBName cfg) fs) (\<lambda>fp2ChunkDB.
     bindR (SSLConnection_new net (GetStorageServerIP cfg) (GetStoragePort cfg) 0) (\<lambda>serverChannelObj.
       case fp2ChunkDB of
         InMemory db \<Rightarrow> bindR (ServerOptThread_new cfg db 0 fs) (\<lambda>(serverThreadObj, fs1). Inr (serverChannelObj, serverThreadObj, fs1))
       | _ \<Rightarrow> Inl Undefined))"

text \<open>The loop over the connections that arrive: the descriptor from \<open>accept\<close> and the TLS state.\<close>

fun dae_serve :: "Configure \<Rightarrow> 's ssl_api \<Rightarrow> 'd AbsDatabase \<Rightarrow> evp_api \<Rightarrow> (nat \<Rightarrow> buf) \<Rightarrow> ClientVar \<Rightarrow> 'd server \<Rightarrow> (int \<times> 's) list \<Rightarrow> world
    \<Rightarrow> ('d server \<times> 's list \<times> world) run" where
  "dae_serve cfg api vt evp pool raw sv [] w = Some (Inr (sv, [], w))"
| "dae_serve cfg api vt evp pool raw sv ((fd, c) # cs) w =
     bindO (liftO (ListenSSL api fd c)) (\<lambda>(_, clientSSL).
     bindO (ServerOptThread_Run cfg api vt evp pool raw sv clientSSL w) (\<lambda>(sv1, c1, w1).
     bindO (dae_serve cfg api vt evp pool raw sv1 cs w1) (\<lambda>(sv2, cs2, w2). Some (Inr (sv2, c1 # cs2, w2)))))"

text \<open>The interrupt handler, after the threads have been joined. \<open>order\<close> is the iteration order of the hash table.\<close>

definition CTRLC :: "((bytes \<times> bytes) list \<Rightarrow> (bytes \<times> bytes) list) \<Rightarrow> InMemoryDatabase server \<Rightarrow> filesys \<Rightarrow> filesys result" where
  "CTRLC order sv fs =
     (let (_, fs1) = ServerOptThread_delete sv fs in InMemoryDatabase_delete order (ix_indexStore (sv_ix sv)) fs1)"

section \<open>Start\<close>

lemma open_log_other: "p \<noteq> c_path logFileName \<Longrightarrow> files (snd (open_log fs)) p = files fs p"
  by (simp add: open_log_def os_open_trunc_def os_open_app_def os_write_def os_closed_def Let_def split_beta)

lemma AbsIndex_new_frame:
  "AbsIndex_new cfg store sc fs = Inr ix \<Longrightarrow> ix_crypto ix = CryptoPrimitive_new CIPHER_TYPE HASH_TYPE \<and> ix_sendChunkBatchSize ix = 256"
  by (auto simp: AbsIndex_new_def Let_def bindR_eq_Inr GetSendChunkBatchSize_def split: if_splits prod.splits)

lemma ServerOptThread_new_ok:
  assumes "AbsIndex_new cfg db \<lparr>sc_writtenDataSize = 0, sc_writtenChunkNum = 0\<rparr> fs = Inr ix" and "I (ix_indexStore ix)"
    and "hashes_with evp (CryptoPrimitive_new CIPHER_TYPE HASH_TYPE) H"
  shows "\<exists>sv. ServerOptThread_new cfg db t fs = Inr (sv, snd (open_log fs)) \<and> sv_ix sv = ix \<and> server_ok cfg I evp H sv"
  using assms AbsIndex_new_frame [OF assms(1)]
  by (cases "open_log fs") (simp add: ServerOptThread_new_def server_ok_def writer_for_def DataWriter_new_def decoder_for_def
      AbsRecvDecoder_new_def GetSendChunkBatchSize_def)

lemma archive_storable:
  assumes inv: "inmem_inv db" and ar: "archive_ok cfg H fs C (inmem_abs db)" and len: "\<And>x. length (H x) = CHUNK_HASH_SIZE"
  shows "list_all storable (indexObj db)"
proof -
  have "storable (h, n)" if "(h, n) \<in> set (indexObj db)" for h n
  proof -
    have "inmem_abs db h = Some n"
      using inv that by (simp add: inmem_inv_def inmem_abs_def)
    then obtain es where es: "C n = Some es" "h \<in> fst ` set es"
      using ar unfolding archive_ok_def by blast
    then have "length n = CONTAINER_ID_LENGTH" "length h = CHUNK_HASH_SIZE"
      using ar len unfolding archive_ok_def by (blast, fastforce)
    then show ?thesis
      by (auto simp: storable_def CONTAINER_ID_LENGTH_def CHUNK_HASH_SIZE_def)
  qed
  then show ?thesis
    by (auto simp: list_all_iff)
qed

section \<open>End and new start\<close>

text \<open>The files of the server itself are not containers, and the database is not the statistics file.\<close>

definition aux_apart :: "Configure \<Rightarrow> bool" where
  "aux_apart cfg \<longleftrightarrow> c_path (GetFp2ChunkDBName cfg) \<noteq> c_path persistentFileName \<and>
     (\<forall>n. container_file cfg n \<notin> {c_path (GetFp2ChunkDBName cfg), c_path persistentFileName, c_path logFileName})"

lemma shutdown_files:
  assumes aux: "aux_apart cfg" and db: "db_name (ix_indexStore (sv_ix sv)) = GetFp2ChunkDBName cfg"
    and inv: "inmem_inv (ix_indexStore (sv_ix sv))" and keys: "list_all storable (indexObj (ix_indexStore (sv_ix sv)))"
    and order: "mset (order (indexObj (ix_indexStore (sv_ix sv)))) = mset (indexObj (ix_indexStore (sv_ix sv)))"
    and op: "openable fs (c_path (GetFp2ChunkDBName cfg))" "openable fs (c_path persistentFileName)"
    and small: "length (enc_items (order (indexObj (ix_indexStore (sv_ix sv))))) < 2 ^ 64"
  shows "\<exists>fs' db'. CTRLC order sv fs = Inr fs' \<and> InMemoryDatabase_new (GetFp2ChunkDBName cfg) fs' = Inr db' \<and> inmem_inv db' \<and>
     inmem_abs db' = inmem_abs (ix_indexStore (sv_ix sv)) \<and> files fs' (c_path persistentFileName) = Some (stat_enc (sv_ix sv)) \<and>
     (\<forall>n. files fs' (container_file cfg n) = files fs (container_file cfg n))"
proof -
  let ?db = "ix_indexStore (sv_ix sv)" and ?fs = "AbsIndex_delete (sv_ix sv) fs"
  have f: "files ?fs = (files fs)(c_path persistentFileName \<mapsto> stat_enc (sv_ix sv))"
    by (rule AbsIndex_delete_file [OF op(2)])
  have "openable ?fs (c_path (db_name ?db))"
    using op(1) by (simp add: AbsIndex_delete_def Let_def split_beta os_open_trunc_def os_write_def db)
  from database_reload [of ?db order, OF inv keys order this small]
  obtain fs' db' where "InMemoryDatabase_delete order ?db ?fs = Inr fs'"
      "files fs' = (files ?fs)(c_path (db_name ?db) \<mapsto> enc_items (order (indexObj ?db)))"
      "InMemoryDatabase_new (db_name ?db) fs' = Inr db'" "inmem_inv db'" "inmem_abs db' = inmem_abs ?db"
    by fastforce
  then show ?thesis
    using aux f by (intro exI [of _ fs'] exI [of _ db']) (auto simp: CTRLC_def ServerOptThread_delete_def db aux_apart_def)
qed

text \<open>C5: A restart loses nothing. When the program ends on an interrupt over a consistent archive and is started again with the same
  configuration, the new server is ready, its index has the same content, its five statistics counters have the
  values they had, and the archive on disk is still consistent with the index.\<close>

theorem restart_keeps_archive:
  fixes openDB :: "bytes \<Rightarrow> 'l option"
  assumes server: "server_ok cfg inmem_inv evp H sv" and archive: "archive_ok cfg H fs C (inmem_abs (ix_indexStore (sv_ix sv)))"
    and aux: "aux_apart cfg" and db: "db_name (ix_indexStore (sv_ix sv)) = GetFp2ChunkDBName cfg"
    and order: "mset (order (indexObj (ix_indexStore (sv_ix sv)))) = mset (indexObj (ix_indexStore (sv_ix sv)))"
    and op: "openable fs (c_path (GetFp2ChunkDBName cfg))" "openable fs (c_path persistentFileName)"
    and small: "length (enc_items (order (indexObj (ix_indexStore (sv_ix sv))))) < 2 ^ 64"
    and net: "SSLConnection_new net (GetStorageServerIP cfg) (GetStoragePort cfg) 0 = Inr ch"
  shows "\<exists>fs' sv' fs''. CTRLC order sv fs = Inr fs' \<and> dae_start cfg net openDB fs' = Inr (ch, sv', fs'') \<and>
     server_ok cfg inmem_inv evp H sv' \<and> inmem_abs (ix_indexStore (sv_ix sv')) = inmem_abs (ix_indexStore (sv_ix sv)) \<and>
     archive_ok cfg H fs'' C (inmem_abs (ix_indexStore (sv_ix sv'))) \<and> stat_enc (sv_ix sv') = stat_enc (sv_ix sv)"
proof -
  let ?ix = "sv_ix sv"
  have inv: "inmem_inv (ix_indexStore ?ix)" and H: "hashes_with evp (CryptoPrimitive_new CIPHER_TYPE HASH_TYPE) H"
    and len: "\<And>x. length (H x) = CHUNK_HASH_SIZE"
    using server by (simp_all add: server_ok_def hashes_with_def CryptoPrimitive_new_def)
  obtain fs' db' where s: "CTRLC order sv fs = Inr fs'" "InMemoryDatabase_new (GetFp2ChunkDBName cfg) fs' = Inr db'" "inmem_inv db'"
     "inmem_abs db' = inmem_abs (ix_indexStore ?ix)" "files fs' (c_path persistentFileName) = Some (stat_enc ?ix)"
     "\<forall>n. files fs' (container_file cfg n) = files fs (container_file cfg n)"
    using shutdown_files [of cfg sv order fs, OF aux db inv archive_storable [OF inv archive len] order op small] by blast
  obtain ix where ix: "AbsIndex_new cfg db' \<lparr>sc_writtenDataSize = 0, sc_writtenChunkNum = 0\<rparr> fs' = Inr ix" "ix_indexStore ix = db'" "stat_enc ix = stat_enc ?ix"
    using AbsIndex_new_file [OF s(5), of cfg db' "\<lparr>sc_writtenDataSize = 0, sc_writtenChunkNum = 0\<rparr>"] by (elim exE) (simp add: stat_enc_def del: le_enc.simps)
  obtain sv' where sv': "ServerOptThread_new cfg db' 0 fs' = Inr (sv', snd (open_log fs'))" "sv_ix sv' = ix" "server_ok cfg inmem_inv evp H sv'"
    using ServerOptThread_new_ok [OF ix(1) _ H, of inmem_inv 0] s(3) ix(2) by blast
  have "dae_start cfg net openDB fs' = Inr (ch, sv', snd (open_log fs'))"
    using s(2) net sv'(1) by (simp add: dae_start_def CreateDatabase_def IN_MEMORY_def LEVEL_DB_def)
  moreover have "files (snd (open_log fs')) (container_file cfg n) = files fs (container_file cfg n)" for n
    using aux s(6) open_log_other [of "container_file cfg n"] by (simp add: aux_apart_def)
  then have "archive_ok cfg H (snd (open_log fs')) C (inmem_abs (ix_indexStore (sv_ix sv')))"
    using archive_same_containers [OF archive] s(4) ix(2) sv'(2) by simp
  ultimately show ?thesis
    using s(1,4) sv'(2,3) ix(2,3) by auto
qed

definition demo_net :: net_api where
  "demo_net = \<lparr>na_setsockopt = True, na_bind = (\<lambda>_. True), na_listen = True, na_load_ca = (\<lambda>_. True), na_use_cert = (\<lambda>_. True),
     na_use_key = (\<lambda>_. True), na_check_key = (\<lambda>_ _. True)\<rparr>"

definition stored_server :: "InMemoryDatabase server" where
  "stored_server = small_server\<lparr>sv_ix := (rv_ix small_upload)\<lparr>ix_indexStore :=
     \<lparr>db_name = str ''db1'', indexObj = [(demo_hash [5, 6], str ''old-0001'')]\<rparr>, ix_uniqueChunkNum := 1\<rparr>\<rparr>"

theorem restart_keeps_archive_witness:
  "\<exists>fs' ch sv' fs''. CTRLC rev stored_server small_disk = Inr fs' \<and>
     dae_start demo_cfg demo_net (\<lambda>_. None :: unit option) fs' = Inr (ch, sv', fs'') \<and>
     inmem_abs (ix_indexStore (sv_ix sv')) = [demo_hash [5, 6] \<mapsto> str ''old-0001''] \<and>
     archive_ok demo_cfg demo_hash fs'' small_archive (inmem_abs (ix_indexStore (sv_ix sv')))"
proof -
  let ?db = "ix_indexStore (sv_ix stored_server)"
  have db: "db_name ?db = GetFp2ChunkDBName demo_cfg" "indexObj ?db = [(demo_hash [5, 6], str ''old-0001'')]"
      "inmem_abs ?db = [demo_hash [5, 6] \<mapsto> str ''old-0001'']"
    by (simp_all add: stored_server_def GetFp2ChunkDBName_def demo_cfg_def inmem_abs_def)
  have server: "server_ok demo_cfg inmem_inv demo_evp demo_hash stored_server"
    using small_server_ok by (simp add: server_ok_def stored_server_def small_server_def inmem_inv_def)
  have archive: "archive_ok demo_cfg demo_hash small_disk small_archive (inmem_abs ?db)"
    using small_archive_ok unfolding small_index db(3) .
  have aux: "aux_apart demo_cfg"
    by (simp add: aux_apart_def container_file_def container_path_def c_path_def persistentFileName_def logFileName_def
        GetContainerRootPath_def GetFp2ChunkDBName_def demo_cfg_def str_def)
  have small: "length (enc_items (rev (indexObj ?db))) < 2 ^ 64"
    by (simp add: db(2) length_enc_item demo_hash_def str_def)
  obtain ch where net: "SSLConnection_new demo_net (GetStorageServerIP demo_cfg) (GetStoragePort demo_cfg) 0 = Inr ch"
    by (simp add: SSLConnection_new_def connection_type_def demo_net_def)
  show ?thesis
    using restart_keeps_archive [OF server archive aux db(1), of rev demo_net ch "\<lambda>_. None :: unit option"] small net unfolding db(3) by simp blast
qed

end
