(* ===== verification/Murmur_Hash.thy ===== *)
theory Murmur_Hash
  imports Cloud_Prelude
begin

text \<open>
  The MurmurHash3 functions of \<open>src/Util/murmurHash.cc\<close>, on a key given as its bytes. The
  length is a natural number where the code has an \<open>int\<close>, so the model speaks of keys of fewer than \<open>2 ^ 31\<close> bytes. The lemmas show that the loops over
  blocks with the fall-through switches over the rest compute a plain stream over the key, and that every step is
  injective, so that two keys of one length that differ in one block only have different hashes.
\<close>

section \<open>Model\<close>

definition rotl32 :: "u32 \<Rightarrow> nat \<Rightarrow> u32" where
  "rotl32 x r = push_bit r x OR drop_bit (32 - r) x"

definition rotl64 :: "u64 \<Rightarrow> nat \<Rightarrow> u64" where
  "rotl64 x r = push_bit r x OR drop_bit (64 - r) x"

definition getblock32 :: "bytes \<Rightarrow> nat \<Rightarrow> u32" where
  "getblock32 data i = le_dec (take 4 (drop (4 * i) data))"

definition getblock64 :: "bytes \<Rightarrow> nat \<Rightarrow> u64" where
  "getblock64 data i = le_dec (take 8 (drop (8 * i) data))"

definition fmix32 :: "u32 \<Rightarrow> u32" where
  "fmix32 h =
     (let h = h XOR drop_bit 16 h; h = h * 0x85ebca6b; h = h XOR drop_bit 13 h; h = h * 0xc2b2ae35; h = h XOR drop_bit 16 h in h)"

definition fmix64 :: "u64 \<Rightarrow> u64" where
  "fmix64 k =
     (let k = k XOR drop_bit 33 k; k = k * 0xff51afd7ed558ccd; k = k XOR drop_bit 33 k; k = k * 0xc4ceb9fe1a85ec53; k = k XOR drop_bit 33 k in k)"

text \<open>The cases of a switch over the \<open>n\<close> bytes of \<open>tail\<close>: those for the bytes below \<open>hi\<close> down to \<open>lo\<close>, each falling
  through to the next.\<close>

definition tail_word :: "nat \<Rightarrow> bytes \<Rightarrow> nat \<Rightarrow> nat \<Rightarrow> 'a::len word" where
  "tail_word n tail lo hi = fold (\<lambda>j k. if j < n then k XOR push_bit (8 * (j - lo)) (ucast (tail ! j)) else k) (rev [lo..<hi]) 0"

subsection \<open>The 32-bit hash\<close>

definition kmix32 :: "u32 \<Rightarrow> nat \<Rightarrow> u32 \<Rightarrow> u32 \<Rightarrow> u32" where
  "kmix32 c r c' k = (let k = k * c; k = rotl32 k r; k = k * c' in k)"

definition x86_32_block :: "u32 \<Rightarrow> u32 \<Rightarrow> u32" where
  "x86_32_block k1 h1 =
     (let k1 = kmix32 0xcc9e2d51 15 0x1b873593 k1; h1 = h1 XOR k1; h1 = rotl32 h1 13; h1 = h1 * 5 + 0xe6546b64 in h1)"

definition x86_32_tail :: "nat \<Rightarrow> bytes \<Rightarrow> u32 \<Rightarrow> u32" where
  "x86_32_tail n tail h1 =
     (let k1 = tail_word n tail 0 3 in if 0 < n then h1 XOR kmix32 0xcc9e2d51 15 0x1b873593 k1 else h1)"

definition MurmurHash3_x86_32 :: "bytes \<Rightarrow> u32 \<Rightarrow> u32" where
  "MurmurHash3_x86_32 data seed =
     (let len = length data; nblocks = len div 4;
          h1 = fold (\<lambda>i h1. x86_32_block (getblock32 data i) h1) [0..<nblocks] seed;
          h1 = x86_32_tail (len mod 4) (drop (nblocks * 4) data) h1;
          h1 = h1 XOR of_nat len in
      fmix32 h1)"

subsection \<open>The 128-bit hash on 32-bit words\<close>

type_synonym quad = "u32 \<times> u32 \<times> u32 \<times> u32"

definition x86_128_block :: "u32 \<Rightarrow> u32 \<Rightarrow> u32 \<Rightarrow> u32 \<Rightarrow> quad \<Rightarrow> quad" where
  "x86_128_block k1 k2 k3 k4 h =
     (let (h1, h2, h3, h4) = h;
          h1 = h1 XOR kmix32 0x239b961b 15 0xab0e9789 k1; h1 = rotl32 h1 19; h1 = h1 + h2; h1 = h1 * 5 + 0x561ccd1b;
          h2 = h2 XOR kmix32 0xab0e9789 16 0x38b34ae5 k2; h2 = rotl32 h2 17; h2 = h2 + h3; h2 = h2 * 5 + 0x0bcaa747;
          h3 = h3 XOR kmix32 0x38b34ae5 17 0xa1e38b93 k3; h3 = rotl32 h3 15; h3 = h3 + h4; h3 = h3 * 5 + 0x96cd1c35;
          h4 = h4 XOR kmix32 0xa1e38b93 18 0x239b961b k4; h4 = rotl32 h4 13; h4 = h4 + h1; h4 = h4 * 5 + 0x32ac3b17 in
      (h1, h2, h3, h4))"

definition x86_128_tail :: "nat \<Rightarrow> bytes \<Rightarrow> quad \<Rightarrow> quad" where
  "x86_128_tail n tail h =
     (let (h1, h2, h3, h4) = h;
          h4 = (if 12 < n then h4 XOR kmix32 0xa1e38b93 18 0x239b961b (tail_word n tail 12 15) else h4);
          h3 = (if 8 < n then h3 XOR kmix32 0x38b34ae5 17 0xa1e38b93 (tail_word n tail 8 12) else h3);
          h2 = (if 4 < n then h2 XOR kmix32 0xab0e9789 16 0x38b34ae5 (tail_word n tail 4 8) else h2);
          h1 = (if 0 < n then h1 XOR kmix32 0x239b961b 15 0xab0e9789 (tail_word n tail 0 4) else h1) in
      (h1, h2, h3, h4))"

definition x86_128_add :: "quad \<Rightarrow> quad" where
  "x86_128_add h =
     (let (h1, h2, h3, h4) = h; h1 = h1 + h2; h1 = h1 + h3; h1 = h1 + h4; h2 = h2 + h1; h3 = h3 + h1; h4 = h4 + h1 in (h1, h2, h3, h4))"

definition x86_128_final :: "nat \<Rightarrow> quad \<Rightarrow> quad" where
  "x86_128_final len h =
     (let (h1, h2, h3, h4) = h; l = of_nat len;
          (h1, h2, h3, h4) = x86_128_add (h1 XOR l, h2 XOR l, h3 XOR l, h4 XOR l) in
      x86_128_add (fmix32 h1, fmix32 h2, fmix32 h3, fmix32 h4))"

definition MurmurHash3_x86_128 :: "bytes \<Rightarrow> u32 \<Rightarrow> quad" where
  "MurmurHash3_x86_128 data seed =
     (let len = length data; nblocks = len div 16;
          h = fold (\<lambda>i. x86_128_block (getblock32 data (i * 4 + 0)) (getblock32 data (i * 4 + 1)) (getblock32 data (i * 4 + 2))
                 (getblock32 data (i * 4 + 3))) [0..<nblocks] (seed, seed, seed, seed);
          h = x86_128_tail (len mod 16) (drop (nblocks * 16) data) h in
      x86_128_final len h)"

subsection \<open>The 128-bit hash on 64-bit words\<close>

definition kmix64 :: "u64 \<Rightarrow> nat \<Rightarrow> u64 \<Rightarrow> u64 \<Rightarrow> u64" where
  "kmix64 c r c' k = (let k = k * c; k = rotl64 k r; k = k * c' in k)"

definition x64_128_block :: "u64 \<Rightarrow> u64 \<Rightarrow> u64 \<times> u64 \<Rightarrow> u64 \<times> u64" where
  "x64_128_block k1 k2 h =
     (let (h1, h2) = h;
          h1 = h1 XOR kmix64 0x87c37b91114253d5 31 0x4cf5ad432745937f k1; h1 = rotl64 h1 27; h1 = h1 + h2; h1 = h1 * 5 + 0x52dce729;
          h2 = h2 XOR kmix64 0x4cf5ad432745937f 33 0x87c37b91114253d5 k2; h2 = rotl64 h2 31; h2 = h2 + h1; h2 = h2 * 5 + 0x38495ab5 in
      (h1, h2))"

definition x64_128_tail :: "nat \<Rightarrow> bytes \<Rightarrow> u64 \<times> u64 \<Rightarrow> u64 \<times> u64" where
  "x64_128_tail n tail h =
     (let (h1, h2) = h;
          h2 = (if 8 < n then h2 XOR kmix64 0x4cf5ad432745937f 33 0x87c37b91114253d5 (tail_word n tail 8 15) else h2);
          h1 = (if 0 < n then h1 XOR kmix64 0x87c37b91114253d5 31 0x4cf5ad432745937f (tail_word n tail 0 8) else h1) in
      (h1, h2))"

definition x64_128_add :: "u64 \<times> u64 \<Rightarrow> u64 \<times> u64" where
  "x64_128_add h = (let (h1, h2) = h; h1 = h1 + h2; h2 = h2 + h1 in (h1, h2))"

definition x64_128_final :: "nat \<Rightarrow> u64 \<times> u64 \<Rightarrow> u64 \<times> u64" where
  "x64_128_final len h =
     (let (h1, h2) = h; (h1, h2) = x64_128_add (h1 XOR of_nat len, h2 XOR of_nat len) in x64_128_add (fmix64 h1, fmix64 h2))"

definition MurmurHash3_x64_128 :: "bytes \<Rightarrow> u32 \<Rightarrow> u64 \<times> u64" where
  "MurmurHash3_x64_128 data seed =
     (let len = length data; nblocks = len div 16;
          h = fold (\<lambda>i. x64_128_block (getblock64 data (i * 2 + 0)) (getblock64 data (i * 2 + 1))) [0..<nblocks] (ucast seed, ucast seed);
          h = x64_128_tail (len mod 16) (drop (nblocks * 16) data) h in
      x64_128_final len h)"

section \<open>Streams over a key\<close>

text \<open>A key is consumed in blocks of \<open>w\<close> bytes by \<open>blk\<close>; \<open>lst\<close> takes the rest, shorter than a block.\<close>

function stream :: "nat \<Rightarrow> (bytes \<Rightarrow> 'h \<Rightarrow> 'h) \<Rightarrow> (bytes \<Rightarrow> 'h \<Rightarrow> 'h) \<Rightarrow> bytes \<Rightarrow> 'h \<Rightarrow> 'h" where
  "stream w blk lst d h = (if length d < w \<or> w = 0 then lst d h else stream w blk lst (drop w d) (blk (take w d) h))"
  by auto
termination by (relation "measure (\<lambda>(w, blk, lst, d, h). length d)") auto

declare stream.simps [simp del]

lemma stream_short: "length d < w \<Longrightarrow> stream w blk lst d h = lst d h"
  by (simp add: stream.simps)

lemma stream_block: "w \<le> length d \<Longrightarrow> 0 < w \<Longrightarrow> stream w blk lst d h = stream w blk lst (drop w d) (blk (take w d) h)"
  by (subst stream.simps) simp

text \<open>The counted loop over blocks is the stream.\<close>

lemma fold_blocks:
  assumes "0 < w"
  shows "lst (drop (length d div w * w) d) (fold (\<lambda>i. blk (take w (drop (w * i) d))) [0..<length d div w] h) = stream w blk lst d h"
proof (induction "length d" arbitrary: d h rule: less_induct)
  case less
  show ?case
  proof (cases "length d < w")
    case True
    then show ?thesis
      by (simp add: stream_short)
  next
    case False
    then have n: "length d div w = Suc (length (drop w d) div w)"
      using assms by (simp add: le_div_geq not_less)
    have l: "length (drop w d) < length d"
      using False assms by simp
    have up: "[0..<length d div w] = 0 # map Suc [0..<length (drop w d) div w]"
      unfolding n by (simp add: map_Suc_upt upt_conv_Cons del: upt_Suc)
    have dr: "drop w (drop (w * i) d) = drop (w * i) (drop w d)" "drop (w + w * i) d = drop (w * i) (drop w d)" for i
      by (simp_all add: add.commute)
    have "stream w blk lst d h = stream w blk lst (drop w d) (blk (take w d) h)"
      using False assms by (simp add: stream_block)
    also have "\<dots> = lst (drop (length (drop w d) div w * w) (drop w d))
        (fold (\<lambda>i. blk (take w (drop (w * i) (drop w d)))) [0..<length (drop w d) div w] (blk (take w d) h))"
      using less [OF l] by simp
    also have "drop (length (drop w d) div w * w) (drop w d) = drop (length d div w * w) d"
      unfolding n by (simp add: add.commute)
    also have "fold (\<lambda>i. blk (take w (drop (w * i) (drop w d)))) [0..<length (drop w d) div w] (blk (take w d) h) =
        fold (\<lambda>i. blk (take w (drop (w * i) d))) [0..<length d div w] h"
      unfolding up by (simp add: fold_map comp_def dr(2))
    finally show ?thesis
      by simp
  qed
qed

text \<open>Steps that lose nothing.\<close>

locale block_mixer =
  fixes w :: nat and blk lst :: "bytes \<Rightarrow> 'h \<Rightarrow> 'h"
  assumes width: "0 < w"
    and blk_state: "length x = w \<Longrightarrow> blk x h = blk x h' \<Longrightarrow> h = h'"
    and blk_data: "length x = w \<Longrightarrow> length y = w \<Longrightarrow> blk x h = blk y h \<Longrightarrow> x = y"
    and lst_state: "length x < w \<Longrightarrow> lst x h = lst x h' \<Longrightarrow> h = h'"
    and lst_data: "length x < w \<Longrightarrow> length y = length x \<Longrightarrow> lst x h = lst y h \<Longrightarrow> x = y"
begin

lemma stream_state: "stream w blk lst d h = stream w blk lst d h' \<Longrightarrow> h = h'"
proof (induction "length d" arbitrary: d h h' rule: less_induct)
  case less
  show ?case
  proof (cases "length d < w")
    case True
    then show ?thesis
      using less.prems lst_state by (simp add: stream_short)
  next
    case False
    then have e: "blk (take w d) h = blk (take w d) h'"
      using less.hyps [of "drop w d"] less.prems width by (simp add: stream_block)
    show ?thesis
      by (rule blk_state [OF _ e]) (use False in simp)
  qed
qed

lemma one_block:
  assumes "length a = length b" and "take (w * i) a = take (w * i) b" and "drop (w * i + w) a = drop (w * i + w) b"
    and "stream w blk lst a h = stream w blk lst b h"
  shows "a = b"
  using assms
proof (induction i arbitrary: a b h)
  case 0
  show ?case
  proof (cases "length a < w")
    case True
    then show ?thesis
      using 0 lst_data by (simp add: stream_short)
  next
    case False
    then have e: "blk (take w a) h = blk (take w b) h"
      using 0 width stream_state [of "drop w b"] by (simp add: stream_block)
    have "take w a = take w b"
      by (rule blk_data [OF _ _ e]) (use False 0(1) in simp_all)
    then show ?thesis
      using 0(3) by (metis append_take_drop_id add_0 mult_0_right)
  qed
next
  case (Suc i)
  show ?case
  proof (cases "length a < w")
    case True
    then show ?thesis
      using Suc.prems(1,2) by simp
  next
    case False
    have t: "take w a = take w b"
      using arg_cong [OF Suc.prems(2), of "take w"] by (simp add: min_def)
    have "drop w a = drop w b"
    proof (rule Suc.IH)
      show "take (w * i) (drop w a) = take (w * i) (drop w b)"
        using arg_cong [OF Suc.prems(2), of "drop w"] by (simp add: drop_take)
      show "drop (w * i + w) (drop w a) = drop (w * i + w) (drop w b)"
        using Suc.prems(3) by (simp add: add.commute add.left_commute)
      show "stream w blk lst (drop w a) (blk (take w b) h) = stream w blk lst (drop w b) (blk (take w b) h)"
        using Suc.prems(1,4) False width t by (simp add: stream_block)
    qed (use Suc.prems(1) in simp)
    then show ?thesis
      using t by (metis append_take_drop_id)
  qed
qed

end

section \<open>Injective steps\<close>

lemma xorshift_inj:
  fixes x y :: "'a::len word"
  assumes "x XOR drop_bit s x = y XOR drop_bit s y" and "0 < s"
  shows "x = y"
proof -
  define z where "z = x XOR y"
  have "z = drop_bit s z"
    using assms(1) unfolding z_def drop_bit_xor by (metis xor.assoc xor.commute xor_self_eq xor.left_neutral)
  then have "unat z = unat z div 2 ^ s"
    by (metis unat_drop_bit_eq drop_bit_eq_div)
  then have "unat z = 0"
    using assms(2) by (metis div_less_dividend one_less_power neq0_conv less_irrefl one_less_numeral_iff semiring_norm(76))
  then show ?thesis
    unfolding z_def by (metis unat_eq_zero xor_self_eq xor.assoc xor.left_neutral xor.right_neutral)
qed

lemma mult_inj:
  fixes c :: "'a::len word"
  assumes "x * c = y * c" and "c * c' = 1"
  shows "x = y"
  using arg_cong [OF assms(1), of "\<lambda>z. z * c'"] assms(2) by (simp add: mult.assoc)

lemma rotl_inj:
  fixes x y :: "'a::len word"
  assumes e: "push_bit r x OR drop_bit (LENGTH('a) - r) x = push_bit r y OR drop_bit (LENGTH('a) - r) y" and r: "0 < r" "r < LENGTH('a)"
  shows "x = y"
proof (rule bit_word_eqI)
  fix n assume n: "n < LENGTH('a)"
  show "bit x n = bit y n"
  proof (cases "n + r < LENGTH('a)")
    case True
    have "bit (push_bit r z OR drop_bit (LENGTH('a) - r) z) (n + r) = bit z n" for z :: "'a word"
      using True r by (auto simp: bit_simps dest: bit_imp_le_length)
    then show ?thesis
      using e by metis
  next
    case False
    define m where "m = n + r - LENGTH('a)"
    have m: "m < r" "LENGTH('a) - r + m = n" "m < LENGTH('a)"
      using False n r by (simp_all add: m_def)
    have "bit (push_bit r z OR drop_bit (LENGTH('a) - r) z) m = bit z n" for z :: "'a word"
      using m by (simp add: bit_simps)
    then show ?thesis
      using e by metis
  qed
qed

lemma rotl32_inj: "rotl32 x r = rotl32 y r \<Longrightarrow> 0 < r \<Longrightarrow> r < 32 \<Longrightarrow> x = y"
  using rotl_inj [of r x y] by (simp add: rotl32_def)

lemma rotl64_inj: "rotl64 x r = rotl64 y r \<Longrightarrow> 0 < r \<Longrightarrow> r < 64 \<Longrightarrow> x = y"
  using rotl_inj [of r x y] by (simp add: rotl64_def)

lemma fmix32_inj:
  assumes "fmix32 x = fmix32 y"
  shows "x = y"
proof -
  let ?a = "\<lambda>x :: u32. x XOR drop_bit 16 x" and ?b = "\<lambda>x :: u32. x XOR drop_bit 13 x"
  have "?a (?b (?a x * 0x85ebca6b) * 0xc2b2ae35) = ?a (?b (?a y * 0x85ebca6b) * 0xc2b2ae35)"
    using assms by (simp only: fmix32_def Let_def)
  then have "?b (?a x * 0x85ebca6b) * 0xc2b2ae35 = ?b (?a y * 0x85ebca6b) * 0xc2b2ae35"
    by (rule xorshift_inj) simp
  then have "?b (?a x * 0x85ebca6b) = ?b (?a y * 0x85ebca6b)"
    by (rule mult_inj [where c' = "0x7ed1b41d"]) simp
  then have "?a x * 0x85ebca6b = ?a y * 0x85ebca6b"
    by (rule xorshift_inj) simp
  then have "?a x = ?a y"
    by (rule mult_inj [where c' = "0xa5cb9243"]) simp
  then show ?thesis
    by (rule xorshift_inj) simp
qed

lemma fmix64_inj:
  assumes "fmix64 x = fmix64 y"
  shows "x = y"
proof -
  let ?a = "\<lambda>x :: u64. x XOR drop_bit 33 x"
  have "?a (?a (?a x * 0xff51afd7ed558ccd) * 0xc4ceb9fe1a85ec53) = ?a (?a (?a y * 0xff51afd7ed558ccd) * 0xc4ceb9fe1a85ec53)"
    using assms by (simp only: fmix64_def Let_def)
  then have "?a (?a x * 0xff51afd7ed558ccd) * 0xc4ceb9fe1a85ec53 = ?a (?a y * 0xff51afd7ed558ccd) * 0xc4ceb9fe1a85ec53"
    by (rule xorshift_inj) simp
  then have "?a (?a x * 0xff51afd7ed558ccd) = ?a (?a y * 0xff51afd7ed558ccd)"
    by (rule mult_inj [where c' = "0x9cb4b2f8129337db"]) simp
  then have "?a x * 0xff51afd7ed558ccd = ?a y * 0xff51afd7ed558ccd"
    by (rule xorshift_inj) simp
  then have "?a x = ?a y"
    by (rule mult_inj [where c' = "0x4f74430c22a54005"]) simp
  then show ?thesis
    by (rule xorshift_inj) simp
qed

lemma kmix32_inj:
  assumes "kmix32 c r d x = kmix32 c r d y" and "0 < r" "r < 32" and "c * c' = 1" and "d * d' = 1"
  shows "x = y"
proof -
  have "rotl32 (x * c) r = rotl32 (y * c) r"
    by (rule mult_inj [OF _ assms(5)]) (use assms(1) in \<open>simp only: kmix32_def Let_def\<close>)
  then have "x * c = y * c"
    by (rule rotl32_inj) (use assms(2,3) in simp_all)
  then show ?thesis
    by (rule mult_inj [OF _ assms(4)])
qed

lemma kmix64_inj:
  assumes "kmix64 c r d x = kmix64 c r d y" and "0 < r" "r < 64" and "c * c' = 1" and "d * d' = 1"
  shows "x = y"
proof -
  have "rotl64 (x * c) r = rotl64 (y * c) r"
    by (rule mult_inj [OF _ assms(5)]) (use assms(1) in \<open>simp only: kmix64_def Let_def\<close>)
  then have "x * c = y * c"
    by (rule rotl64_inj) (use assms(2,3) in simp_all)
  then show ?thesis
    by (rule mult_inj [OF _ assms(4)])
qed

lemma xor_cancel:
  fixes a b c :: "'a::len word"
  shows "a XOR c = b XOR c \<longleftrightarrow> a = b" and "c XOR a = c XOR b \<longleftrightarrow> a = b"
  by (metis xor.assoc xor_self_eq xor.right_neutral, metis xor.assoc xor_self_eq xor.left_neutral)

lemma times5_32: "x * 5 = y * 5 \<longleftrightarrow> x = (y :: u32)"
  using mult_inj [of x 5 y "0xcccccccd"] by auto

lemma times5_64: "x * 5 = y * 5 \<longleftrightarrow> x = (y :: u64)"
  using mult_inj [of x 5 y "0xcccccccccccccccd"] by auto

section \<open>The rest of a key\<close>

text \<open>The fall-through cases read the bytes as a little-endian number, as if the rest were padded with zeros.\<close>

lemma or_push_xor: "ucast (b :: u8) OR push_bit 8 w = ucast b XOR push_bit 8 (w :: 'a::len word)"
  by (rule bit_word_eqI) (auto simp: bit_simps dest: bit_imp_le_length)

lemma le_dec_snoc: "(le_dec (xs @ [b]) :: 'a::len word) = le_dec xs XOR push_bit (8 * length xs) (ucast b)"
proof (induction xs)
  case (Cons a xs)
  have "(le_dec ((a # xs) @ [b]) :: 'a word) = ucast a XOR push_bit 8 (le_dec xs XOR push_bit (8 * length xs) (ucast b))"
    by (simp only: append_Cons le_dec.simps or_push_xor Cons.IH)
  also have "\<dots> = (ucast a XOR push_bit 8 (le_dec xs)) XOR push_bit (8 * length (a # xs)) (ucast b)"
    by (simp add: push_bit_xor push_bit_push_bit ac_simps)
  finally show ?case
    by (simp only: le_dec.simps or_push_xor)
qed simp

lemma fall_through:
  "fold (\<lambda>j k. if j < length bs then k XOR push_bit (8 * j) (ucast (bs ! j)) else k) (rev [0..<m]) k0 = k0 XOR (le_dec (take m bs) :: 'a::len word)"
proof (induction m arbitrary: k0)
  case (Suc m)
  show ?case
  proof (cases "m < length bs")
    case True
    then show ?thesis
      using Suc.IH by (simp add: take_Suc_conv_app_nth le_dec_snoc ac_simps)
  qed (use Suc.IH in simp)
qed simp

lemma tail_word_eq: "tail_word (length bs) bs lo hi = (le_dec (take (hi - lo) (drop lo bs)) :: 'a::len word)"
proof -
  have "[lo..<hi] = map (\<lambda>j. j + lo) [0..<hi - lo]"
    by (cases "lo \<le> hi") (simp_all add: map_add_upt)
  then have "tail_word (length bs) bs lo hi =
      fold (\<lambda>j k. if j < length (drop lo bs) then k XOR push_bit (8 * j) (ucast (drop lo bs ! j)) else k) (rev [0..<hi - lo]) (0 :: 'a word)"
    unfolding tail_word_def by (simp add: rev_map fold_map comp_def less_diff_conv add.commute cong: if_cong)
  then show ?thesis
    unfolding fall_through by simp
qed

lemma bit_le_dec: "bit (le_dec bs :: 'a::len word) n \<Longrightarrow> n < 8 * length bs"
proof (induction bs arbitrary: n)
  case (Cons b bs)
  then consider "n < 8" | "8 \<le> n" "bit (le_dec bs :: 'a word) (n - 8)"
    by (auto simp: bit_simps dest: bit_imp_le_length)
  then show ?case
    using Cons.IH [of "n - 8"] by cases auto
qed simp

lemma le_enc_dec: "8 * length bs \<le> LENGTH('a) \<Longrightarrow> le_enc (length bs) (le_dec bs :: 'a::len word) = bs"
proof (induction bs)
  case (Cons b bs)
  have "ucast (ucast b OR push_bit 8 (le_dec bs) :: 'a word) = b"
    using Cons.prems by (intro bit_word_eqI) (auto simp: bit_simps)
  moreover have "drop_bit 8 (ucast b OR push_bit 8 (le_dec bs) :: 'a word) = le_dec bs"
    using Cons.prems bit_le_dec [of bs, where ?'a = 'a]
    by (intro bit_word_eqI) (fastforce simp: bit_simps dest: bit_imp_le_length)
  ultimately show ?case
    using Cons by simp
qed simp

lemma le_dec_inj:
  assumes e: "(le_dec xs :: 'a::len word) = le_dec ys" and len: "length xs = length ys" "8 * length xs \<le> LENGTH('a)"
  shows "xs = ys"
proof -
  have "le_enc (length xs) (le_dec xs :: 'a word) = xs" "le_enc (length ys) (le_dec ys :: 'a word) = ys"
    by (rule le_enc_dec; use len in simp)+
  then show ?thesis
    unfolding e len(1) by simp
qed

section \<open>The three hashes as streams\<close>

named_theorems hash_inj "equations between hash steps"

declare xor_cancel [hash_inj] times5_32 [hash_inj] times5_64 [hash_inj]

lemma rotl32_eq [hash_inj]: "0 < r \<Longrightarrow> r < 32 \<Longrightarrow> rotl32 x r = rotl32 y r \<longleftrightarrow> x = y"
  using rotl32_inj by blast

lemma rotl64_eq [hash_inj]: "0 < r \<Longrightarrow> r < 64 \<Longrightarrow> rotl64 x r = rotl64 y r \<longleftrightarrow> x = y"
  using rotl64_inj by blast

lemma fmix_eq [hash_inj]: "fmix32 x = fmix32 y \<longleftrightarrow> x = y" "fmix64 a = fmix64 b \<longleftrightarrow> a = b"
  using fmix32_inj fmix64_inj by blast+

lemma kmix32_eq [hash_inj]:
  "kmix32 0xcc9e2d51 15 0x1b873593 x = kmix32 0xcc9e2d51 15 0x1b873593 y \<longleftrightarrow> x = y"
  "kmix32 0x239b961b 15 0xab0e9789 x = kmix32 0x239b961b 15 0xab0e9789 y \<longleftrightarrow> x = y"
  "kmix32 0xab0e9789 16 0x38b34ae5 x = kmix32 0xab0e9789 16 0x38b34ae5 y \<longleftrightarrow> x = y"
  "kmix32 0x38b34ae5 17 0xa1e38b93 x = kmix32 0x38b34ae5 17 0xa1e38b93 y \<longleftrightarrow> x = y"
  "kmix32 0xa1e38b93 18 0x239b961b x = kmix32 0xa1e38b93 18 0x239b961b y \<longleftrightarrow> x = y"
  using kmix32_inj [of "0xcc9e2d51" 15 "0x1b873593" x y "0xdee13bb1" "0x56ed309b"] kmix32_inj [of "0x239b961b" 15 "0xab0e9789" x y "0x89c95413" "0xdf130eb9"]
    kmix32_inj [of "0xab0e9789" 16 "0x38b34ae5" x y "0xdf130eb9" "0x747862ed"] kmix32_inj [of "0x38b34ae5" 17 "0xa1e38b93" x y "0x747862ed" "0x58d64a9b"]
    kmix32_inj [of "0xa1e38b93" 18 "0x239b961b" x y "0x58d64a9b" "0x89c95413"]
  by auto

lemma kmix64_eq [hash_inj]:
  "kmix64 0x87c37b91114253d5 31 0x4cf5ad432745937f x = kmix64 0x87c37b91114253d5 31 0x4cf5ad432745937f y \<longleftrightarrow> x = y"
  "kmix64 0x4cf5ad432745937f 33 0x87c37b91114253d5 x = kmix64 0x4cf5ad432745937f 33 0x87c37b91114253d5 y \<longleftrightarrow> x = y"
  using kmix64_inj [of "0x87c37b91114253d5" 31 "0x4cf5ad432745937f" x y "0xa98409e882ce4d7d" "0xa81e14edd9de2c7f"]
    kmix64_inj [of "0x4cf5ad432745937f" 33 "0x87c37b91114253d5" x y "0xa81e14edd9de2c7f" "0xa98409e882ce4d7d"]
  by auto

lemma kmix_zero [simp]: "kmix32 c r c' 0 = 0" "kmix64 d r d' 0 = 0"
  by (simp_all add: kmix32_def kmix64_def rotl32_def rotl64_def)

definition x86_32_rest :: "bytes \<Rightarrow> u32 \<Rightarrow> u32" where
  "x86_32_rest d h = h XOR kmix32 0xcc9e2d51 15 0x1b873593 (le_dec d)"

lemma x86_32_tail_eq: "length d < 4 \<Longrightarrow> x86_32_tail (length d) d h = x86_32_rest d h"
  by (cases "d = []") (simp_all add: x86_32_tail_def tail_word_eq x86_32_rest_def)

lemma length_rest: "length (drop (length d div w * w) d) = length d mod w"
  by (simp add: minus_div_mult_eq_mod)

lemma x86_32_stream:
  "MurmurHash3_x86_32 data seed = fmix32 (stream 4 (\<lambda>d. x86_32_block (le_dec d)) x86_32_rest data seed XOR of_nat (length data))"
proof -
  let ?t = "drop (length data div 4 * 4) data"
  have "x86_32_tail (length data mod 4) ?t h = x86_32_rest ?t h" for h
    using x86_32_tail_eq [of ?t] unfolding length_rest by simp
  then show ?thesis
    using fold_blocks [of 4 x86_32_rest data "\<lambda>d. x86_32_block (le_dec d)" seed] by (simp add: MurmurHash3_x86_32_def Let_def getblock32_def)
qed

interpretation m32: block_mixer 4 "\<lambda>d. x86_32_block (le_dec d)" x86_32_rest
proof
  fix x y :: bytes and h h' :: u32
  show "x86_32_block (le_dec x) h = x86_32_block (le_dec x) h' \<Longrightarrow> h = h'"
    by (simp add: x86_32_block_def Let_def hash_inj)
  show "length x = 4 \<Longrightarrow> length y = 4 \<Longrightarrow> x86_32_block (le_dec x) h = x86_32_block (le_dec y) h \<Longrightarrow> x = y"
    by (rule le_dec_inj [where ?'a = 32]) (simp_all add: x86_32_block_def Let_def hash_inj)
  show "x86_32_rest x h = x86_32_rest x h' \<Longrightarrow> h = h'"
    by (simp add: x86_32_rest_def hash_inj)
  show "length x < 4 \<Longrightarrow> length y = length x \<Longrightarrow> x86_32_rest x h = x86_32_rest y h \<Longrightarrow> x = y"
    by (rule le_dec_inj [where ?'a = 32]) (simp_all add: x86_32_rest_def hash_inj)
qed simp

subsection \<open>The 128-bit hashes\<close>

text \<open>The four or two words of a block; the words of a rest are padded with zeros.\<close>

definition w32 :: "nat \<Rightarrow> bytes \<Rightarrow> u32" where
  "w32 i d = le_dec (take 4 (drop (4 * i) d))"

definition w64 :: "nat \<Rightarrow> bytes \<Rightarrow> u64" where
  "w64 i d = le_dec (take 8 (drop (8 * i) d))"

definition x86_128_full :: "bytes \<Rightarrow> quad \<Rightarrow> quad" where
  "x86_128_full d = x86_128_block (w32 0 d) (w32 1 d) (w32 2 d) (w32 3 d)"

definition x86_128_rest :: "bytes \<Rightarrow> quad \<Rightarrow> quad" where
  "x86_128_rest d h = (case h of (h1, h2, h3, h4) \<Rightarrow>
     (h1 XOR kmix32 0x239b961b 15 0xab0e9789 (w32 0 d), h2 XOR kmix32 0xab0e9789 16 0x38b34ae5 (w32 1 d),
      h3 XOR kmix32 0x38b34ae5 17 0xa1e38b93 (w32 2 d), h4 XOR kmix32 0xa1e38b93 18 0x239b961b (w32 3 d)))"

definition x64_128_full :: "bytes \<Rightarrow> u64 \<times> u64 \<Rightarrow> u64 \<times> u64" where
  "x64_128_full d = x64_128_block (w64 0 d) (w64 1 d)"

definition x64_128_rest :: "bytes \<Rightarrow> u64 \<times> u64 \<Rightarrow> u64 \<times> u64" where
  "x64_128_rest d h = (case h of (h1, h2) \<Rightarrow>
     (h1 XOR kmix64 0x87c37b91114253d5 31 0x4cf5ad432745937f (w64 0 d), h2 XOR kmix64 0x4cf5ad432745937f 33 0x87c37b91114253d5 (w64 1 d)))"

lemma x86_128_tail_eq:
  assumes "length d < 16"
  shows "x86_128_tail (length d) d h = x86_128_rest d h"
proof -
  obtain h1 h2 h3 h4 where h: "h = (h1, h2, h3, h4)"
    by (cases h)
  have "take 3 (drop 12 d) = take 4 (drop 12 d)"
    using assms by simp
  then show ?thesis
    by (simp add: h x86_128_tail_def x86_128_rest_def tail_word_eq w32_def)
qed

lemma x64_128_tail_eq:
  assumes "length d < 16"
  shows "x64_128_tail (length d) d h = x64_128_rest d h"
proof -
  obtain h1 h2 where h: "h = (h1, h2)"
    by (cases h)
  have "take 7 (drop 8 d) = take 8 (drop 8 d)"
    using assms by simp
  then show ?thesis
    by (simp add: h x64_128_tail_def x64_128_rest_def tail_word_eq w64_def)
qed

lemma block_words:
  "getblock32 data (i * 4 + j) = le_dec (take 4 (drop (16 * i + 4 * j) data))"
  "getblock64 data (i * 2 + j) = le_dec (take 8 (drop (16 * i + 8 * j) data))"
  by (simp_all add: getblock32_def getblock64_def algebra_simps)

lemma x86_128_stream:
  "MurmurHash3_x86_128 data seed = x86_128_final (length data) (stream 16 x86_128_full x86_128_rest data (seed, seed, seed, seed))"
proof -
  let ?t = "drop (length data div 16 * 16) data"
  have t: "x86_128_tail (length data mod 16) ?t h = x86_128_rest ?t h" for h
    using x86_128_tail_eq [of ?t] unfolding length_rest by simp
  have "x86_128_block (getblock32 data (i * 4 + 0)) (getblock32 data (i * 4 + 1)) (getblock32 data (i * 4 + 2)) (getblock32 data (i * 4 + 3)) =
      x86_128_full (take 16 (drop (16 * i) data))" for i
    unfolding block_words x86_128_full_def w32_def by (simp add: drop_take add.commute)
  then show ?thesis
    using fold_blocks [of 16 x86_128_rest data x86_128_full] t by (simp add: MurmurHash3_x86_128_def Let_def)
qed

lemma x64_128_stream:
  "MurmurHash3_x64_128 data seed = x64_128_final (length data) (stream 16 x64_128_full x64_128_rest data (ucast seed, ucast seed))"
proof -
  let ?t = "drop (length data div 16 * 16) data"
  have t: "x64_128_tail (length data mod 16) ?t h = x64_128_rest ?t h" for h
    using x64_128_tail_eq [of ?t] unfolding length_rest by simp
  have "x64_128_block (getblock64 data (i * 2 + 0)) (getblock64 data (i * 2 + 1)) = x64_128_full (take 16 (drop (16 * i) data))" for i
    unfolding block_words x64_128_full_def w64_def by (simp add: drop_take add.commute)
  then show ?thesis
    using fold_blocks [of 16 x64_128_rest data x64_128_full] t by (simp add: MurmurHash3_x64_128_def Let_def)
qed

text \<open>The words of a block determine it.\<close>

lemma cut_eq:
  assumes "take n x = take n y" and "drop n x = drop n y"
  shows "x = y"
  using assms by (metis append_take_drop_id)

lemma w32_eq:
  assumes "w32 0 x = w32 0 y" "w32 1 x = w32 1 y" "w32 2 x = w32 2 y" "w32 3 x = w32 3 y" and "length x = length y" "length x \<le> 16"
  shows "x = y"
proof -
  have e: "take 4 (drop (4 * i) x) = take 4 (drop (4 * i) y)" if "w32 i x = w32 i y" for i
    using that assms(5) unfolding w32_def by (intro le_dec_inj [where ?'a = 32]) simp_all
  have "drop 12 x = drop 12 y"
    using e [OF assms(4)] assms(5,6) by simp
  then have "drop 8 x = drop 8 y"
    using e [OF assms(3)] by (intro cut_eq [of 4 "drop 8 x"]) simp_all
  then have "drop 4 x = drop 4 y"
    using e [OF assms(2)] by (intro cut_eq [of 4 "drop 4 x"]) simp_all
  then show ?thesis
    using e [OF assms(1)] by (intro cut_eq [of 4 x]) simp_all
qed

lemma w64_eq:
  assumes "w64 0 x = w64 0 y" "w64 1 x = w64 1 y" and "length x = length y" "length x \<le> 16"
  shows "x = y"
proof -
  have e: "take 8 (drop (8 * i) x) = take 8 (drop (8 * i) y)" if "w64 i x = w64 i y" for i
    using that assms(3) unfolding w64_def by (intro le_dec_inj [where ?'a = 64]) simp_all
  have "drop 8 x = drop 8 y"
    using e [OF assms(2)] assms(3,4) by simp
  then show ?thesis
    using e [OF assms(1)] by (intro cut_eq [of 8 x]) simp_all
qed

text \<open>One line of a block step.\<close>

definition line32 :: "u32 \<Rightarrow> u32 \<Rightarrow> nat \<Rightarrow> u32 \<Rightarrow> u32 \<Rightarrow> u32" where
  "line32 h k r m d = (rotl32 (h XOR k) r + m) * 5 + d"

definition line64 :: "u64 \<Rightarrow> u64 \<Rightarrow> nat \<Rightarrow> u64 \<Rightarrow> u64 \<Rightarrow> u64" where
  "line64 h k r m d = (rotl64 (h XOR k) r + m) * 5 + d"

lemma line_eq [hash_inj]:
  "0 < r \<Longrightarrow> r < 32 \<Longrightarrow> line32 h k r m d = line32 h' k' r m d \<longleftrightarrow> h XOR k = h' XOR k'"
  "0 < q \<Longrightarrow> q < 64 \<Longrightarrow> line64 g j q n e = line64 g' j' q n e \<longleftrightarrow> g XOR j = g' XOR j'"
proof -
  show "line32 h k r m d = line32 h' k' r m d \<longleftrightarrow> h XOR k = h' XOR k'" if "0 < r" "r < 32"
    using that times5_32 rotl32_eq by (metis add_right_cancel line32_def)
  show "line64 g j q n e = line64 g' j' q n e \<longleftrightarrow> g XOR j = g' XOR j'" if "0 < q" "q < 64"
    using that times5_64 rotl64_eq by (metis add_right_cancel line64_def)
qed

lemma x86_128_lines:
  "x86_128_full d (h1, h2, h3, h4) =
     (let a1 = line32 h1 (kmix32 0x239b961b 15 0xab0e9789 (w32 0 d)) 19 h2 0x561ccd1b;
          a2 = line32 h2 (kmix32 0xab0e9789 16 0x38b34ae5 (w32 1 d)) 17 h3 0x0bcaa747;
          a3 = line32 h3 (kmix32 0x38b34ae5 17 0xa1e38b93 (w32 2 d)) 15 h4 0x96cd1c35;
          a4 = line32 h4 (kmix32 0xa1e38b93 18 0x239b961b (w32 3 d)) 13 a1 0x32ac3b17 in (a1, a2, a3, a4))"
  by (simp only: x86_128_full_def x86_128_block_def line32_def Let_def prod.case)

lemma x64_128_lines:
  "x64_128_full d (h1, h2) =
     (let a1 = line64 h1 (kmix64 0x87c37b91114253d5 31 0x4cf5ad432745937f (w64 0 d)) 27 h2 0x52dce729;
          a2 = line64 h2 (kmix64 0x4cf5ad432745937f 33 0x87c37b91114253d5 (w64 1 d)) 31 a1 0x38495ab5 in (a1, a2))"
  by (simp only: x64_128_full_def x64_128_block_def line64_def Let_def prod.case)

interpretation m86: block_mixer 16 x86_128_full x86_128_rest
proof
  fix x y :: bytes and h h' :: quad
  obtain h1 h2 h3 h4 where h: "h = (h1, h2, h3, h4)"
    by (cases h)
  obtain g1 g2 g3 g4 where h': "h' = (g1, g2, g3, g4)"
    by (cases h')
  show "x86_128_full x h = x86_128_full x h' \<Longrightarrow> h = h'"
    by (auto simp: h h' x86_128_lines Let_def hash_inj)
  show "length x = 16 \<Longrightarrow> length y = 16 \<Longrightarrow> x86_128_full x h = x86_128_full y h \<Longrightarrow> x = y"
    by (rule w32_eq) (auto simp: h x86_128_lines Let_def hash_inj)
  show "x86_128_rest x h = x86_128_rest x h' \<Longrightarrow> h = h'"
    by (simp add: h h' x86_128_rest_def hash_inj)
  show "length x < 16 \<Longrightarrow> length y = length x \<Longrightarrow> x86_128_rest x h = x86_128_rest y h \<Longrightarrow> x = y"
    by (rule w32_eq) (simp_all add: h x86_128_rest_def hash_inj)
qed simp

interpretation m64: block_mixer 16 x64_128_full x64_128_rest
proof
  fix x y :: bytes and h h' :: "u64 \<times> u64"
  obtain h1 h2 where h: "h = (h1, h2)"
    by (cases h)
  obtain g1 g2 where h': "h' = (g1, g2)"
    by (cases h')
  show "x64_128_full x h = x64_128_full x h' \<Longrightarrow> h = h'"
    by (auto simp: h h' x64_128_lines Let_def hash_inj)
  show "length x = 16 \<Longrightarrow> length y = 16 \<Longrightarrow> x64_128_full x h = x64_128_full y h \<Longrightarrow> x = y"
    by (rule w64_eq) (auto simp: h x64_128_lines Let_def hash_inj)
  show "x64_128_rest x h = x64_128_rest x h' \<Longrightarrow> h = h'"
    by (simp add: h h' x64_128_rest_def hash_inj)
  show "length x < 16 \<Longrightarrow> length y = length x \<Longrightarrow> x64_128_rest x h = x64_128_rest y h \<Longrightarrow> x = y"
    by (rule w64_eq) (simp_all add: h x64_128_rest_def hash_inj)
qed simp

lemma x86_128_add_eq: "x86_128_add (a, b, c, d) = x86_128_add (a', b', c', d') \<longleftrightarrow> a = a' \<and> b = b' \<and> c = c' \<and> d = d'"
  unfolding x86_128_add_def Let_def prod.case prod.inject by (metis add_right_cancel)

lemma x64_128_add_eq: "x64_128_add (a, b) = x64_128_add (a', b') \<longleftrightarrow> a = a' \<and> b = b'"
  unfolding x64_128_add_def Let_def prod.case prod.inject by (metis add_right_cancel)

lemma x86_128_final_inj: "x86_128_final n h = x86_128_final n h' \<Longrightarrow> h = h'"
proof -
  assume e: "x86_128_final n h = x86_128_final n h'"
  obtain a b c d a' b' c' d' where h: "h = (a, b, c, d)" "h' = (a', b', c', d')"
    by (cases h, cases h')
  let ?l = "of_nat n :: u32"
  obtain p1 p2 p3 p4 where p: "x86_128_add (a XOR ?l, b XOR ?l, c XOR ?l, d XOR ?l) = (p1, p2, p3, p4)"
    by (metis prod_cases4)
  obtain q1 q2 q3 q4 where q: "x86_128_add (a' XOR ?l, b' XOR ?l, c' XOR ?l, d' XOR ?l) = (q1, q2, q3, q4)"
    by (metis prod_cases4)
  have "(p1, p2, p3, p4) = (q1, q2, q3, q4)"
    using e by (simp add: h x86_128_final_def Let_def p q x86_128_add_eq hash_inj)
  then have "x86_128_add (a XOR ?l, b XOR ?l, c XOR ?l, d XOR ?l) = x86_128_add (a' XOR ?l, b' XOR ?l, c' XOR ?l, d' XOR ?l)"
    unfolding p q .
  then show ?thesis
    by (simp add: h x86_128_add_eq hash_inj)
qed

lemma x64_128_final_inj: "x64_128_final n h = x64_128_final n h' \<Longrightarrow> h = h'"
proof -
  assume e: "x64_128_final n h = x64_128_final n h'"
  obtain a b a' b' where h: "h = (a, b)" "h' = (a', b')"
    by (cases h, cases h')
  let ?l = "of_nat n :: u64"
  obtain p1 p2 where p: "x64_128_add (a XOR ?l, b XOR ?l) = (p1, p2)"
    by (metis surj_pair)
  obtain q1 q2 where q: "x64_128_add (a' XOR ?l, b' XOR ?l) = (q1, q2)"
    by (metis surj_pair)
  have "(p1, p2) = (q1, q2)"
    using e by (simp add: h x64_128_final_def Let_def p q x64_128_add_eq hash_inj)
  then have "x64_128_add (a XOR ?l, b XOR ?l) = x64_128_add (a' XOR ?l, b' XOR ?l)"
    unfolding p q .
  then show ?thesis
    by (simp add: h x64_128_add_eq hash_inj)
qed

section \<open>Properties\<close>

text \<open>C36: The three hash functions compute plain streams over the key. The counted loop over the blocks with its index arithmetic
  and the switch whose cases fall through are equal to the recursion that takes one block after the other and mixes
  in the rest as a little-endian number padded with zeros, before the finalisation.\<close>

theorem murmur_streams:
  "MurmurHash3_x86_32 data seed = fmix32 (stream 4 (\<lambda>d. x86_32_block (le_dec d)) x86_32_rest data seed XOR of_nat (length data)) \<and>
   MurmurHash3_x86_128 data seed = x86_128_final (length data) (stream 16 x86_128_full x86_128_rest data (seed, seed, seed, seed)) \<and>
   MurmurHash3_x64_128 data seed = x64_128_final (length data) (stream 16 x64_128_full x64_128_rest data (ucast seed, ucast seed))"
  using x86_32_stream x86_128_stream x64_128_stream by blast

text \<open>C37: No collision within one block. Two different keys of the same length that agree outside one aligned block of the hash (4 bytes
  for the 32-bit hash, 16 bytes for the other two) never have the same hash, whatever the seed.\<close>

theorem murmur_one_block:
  assumes "length a = length b" and "a \<noteq> b"
  shows "(take (4 * i) a = take (4 * i) b \<and> drop (4 * i + 4) a = drop (4 * i + 4) b \<longrightarrow> MurmurHash3_x86_32 a seed \<noteq> MurmurHash3_x86_32 b seed) \<and>
     (take (16 * i) a = take (16 * i) b \<and> drop (16 * i + 16) a = drop (16 * i + 16) b \<longrightarrow>
        MurmurHash3_x86_128 a seed \<noteq> MurmurHash3_x86_128 b seed \<and> MurmurHash3_x64_128 a seed \<noteq> MurmurHash3_x64_128 b seed)"
proof (intro conjI impI notI)
  assume "take (4 * i) a = take (4 * i) b \<and> drop (4 * i + 4) a = drop (4 * i + 4) b" and "MurmurHash3_x86_32 a seed = MurmurHash3_x86_32 b seed"
  then show False
    using m32.one_block [of a b i seed] assms by (simp add: x86_32_stream hash_inj)
next
  assume d: "take (16 * i) a = take (16 * i) b \<and> drop (16 * i + 16) a = drop (16 * i + 16) b"
  show False if "MurmurHash3_x86_128 a seed = MurmurHash3_x86_128 b seed"
    using that d m86.one_block [of a b i] x86_128_final_inj assms unfolding x86_128_stream by metis
  show False if "MurmurHash3_x64_128 a seed = MurmurHash3_x64_128 b seed"
    using that d m64.one_block [of a b i] x64_128_final_inj assms unfolding x64_128_stream by metis
qed

theorem murmur_one_block_witness:
  "MurmurHash3_x86_32 [1, 2, 3, 4, 5] 42 \<noteq> MurmurHash3_x86_32 [1, 2, 3, 4, 6] 42 \<and>
   MurmurHash3_x64_128 [1, 2, 3, 4, 5] 42 \<noteq> MurmurHash3_x64_128 [1, 2, 3, 4, 6] 42"
  using murmur_one_block [of "[1, 2, 3, 4, 5]" "[1, 2, 3, 4, 6]" 1 42] murmur_one_block [of "[1, 2, 3, 4, 5]" "[1, 2, 3, 4, 6]" 0 42]
  by simp

end
