(* ===== verification/Concurrent_Uploads.thy ===== *)
theory Concurrent_Uploads
  imports Plain_Index
begin

text \<open>
  Uploads of several connections at the same time. All connections share the index and the random numbers; each has its
  own buffer and container. The loop of \<open>PlainIndex::ProcessOneBatch\<close> (\<open>src/Index/plainIndex.cc\<close>) holds a lock from the
  lookup of a hash to its entry in the index, so one turn of the loop is one step. The lock is taken to
  work, though the code never calls \<open>pthread_rwlock_init\<close> on it. The lemmas show that deduplication
  works across connections, under every interleaving.
\<close>

section \<open>Model\<close>

text \<open>A connection in the loop: chunks left in the batch, offset in the buffer, the local name buffer.\<close>

record batch_conn =
  bc_cv :: ClientVar
  bc_left :: nat
  bc_off :: nat
  bc_name :: bytes

record 'd shared =
  sh_ix :: "'d PlainIndex"
  sh_w :: world
  sh_conn :: "nat \<Rightarrow> batch_conn"

text \<open>A batch that a client may send.\<close>

definition batch_ok :: "SendMsgBuffer_t \<Rightarrow> bool" where
  "batch_ok b \<longleftrightarrow> (\<exists>cs. msg_is b cs \<and> list_all chunk_fits cs)"

text \<open>\<open>n\<close> connections; a batch begins when its message is in the buffer.\<close>

inductive chunk_step :: "'d AbsDatabase \<Rightarrow> evp_api \<Rightarrow> nat \<Rightarrow> 'd shared \<Rightarrow> 'd shared \<Rightarrow> bool"
  for vt :: "'d AbsDatabase" and evp :: evp_api and n :: nat where
  Begin: "i < n \<Longrightarrow> sh_conn s i = c \<Longrightarrow> bc_left c = 0 \<Longrightarrow> batch_ok b \<Longrightarrow>
    chunk_step vt evp n s (s\<lparr>sh_ix := (sh_ix s)\<lparr>ix_totalRecvDataSize := ix_totalRecvDataSize (sh_ix s) + ucast (dataSize (header b)),
        ix_totalBatchNum := ix_totalBatchNum (sh_ix s) + 1\<rparr>,
      sh_conn := (sh_conn s)(i := \<lparr>bc_cv = (bc_cv c)\<lparr>cv_recvChunkBuf := b\<rparr>, bc_left = unat (currentItemNum (header b)), bc_off = 0,
        bc_name = replicate CONTAINER_ID_LENGTH 0\<rparr>)\<rparr>)"
| Chunk: "i < n \<Longrightarrow> sh_conn s i = c \<Longrightarrow> bc_left c = Suc k \<Longrightarrow>
    process_chunk vt evp (bc_off c) (bc_name c) (sh_ix s) (bc_cv c) (sh_w s) = Inr (off', name', ix', cv', w') \<Longrightarrow>
    chunk_step vt evp n s (s\<lparr>sh_ix := ix', sh_w := w', sh_conn := (sh_conn s)(i := \<lparr>bc_cv = cv', bc_left = k, bc_off = off', bc_name = name'\<rparr>)\<rparr>)"

section \<open>Invariant\<close>

definition log_hashes :: "(bytes \<times> bytes \<times> bytes) list \<Rightarrow> bytes list" where
  "log_hashes L = map (\<lambda>(nm, h, d). h) L"

text \<open>What the connections have stored, given by a log for each, is what the index has gained over \<open>m0\<close>.\<close>

definition shared_logs :: "(bytes \<Rightarrow> bytes) \<Rightarrow> nat \<Rightarrow> (bytes \<rightharpoonup> bytes) \<Rightarrow> (bytes \<rightharpoonup> bytes) \<Rightarrow> (nat \<Rightarrow> (bytes \<times> bytes \<times> bytes) list) \<Rightarrow> bool" where
  "shared_logs H n m0 m L \<longleftrightarrow>
     (\<forall>i<n. distinct (log_hashes (L i)) \<and> (\<forall>nm h d. (nm, h, d) \<in> set (L i) \<longrightarrow> h = H d \<and> m h = Some nm)) \<and>
     (\<forall>i<n. \<forall>j<n. i \<noteq> j \<longrightarrow> set (log_hashes (L i)) \<inter> set (log_hashes (L j)) = {}) \<and>
     (\<forall>i<n. set (log_hashes (L i)) \<inter> dom m0 = {}) \<and>
     dom m = dom m0 \<union> (\<Union>i<n. set (log_hashes (L i))) \<and> m0 \<subseteq>\<^sub>m m"

definition pending_ok :: "batch_conn \<Rightarrow> bool" where
  "pending_ok c \<longleftrightarrow> (\<exists>cs. length cs = bc_left c \<and> list_all chunk_fits cs \<and>
     data_read (cv_recvChunkBuf (bc_cv c)) (bc_off c) (length (chunks_enc cs)) = chunks_enc cs \<and>
     bc_off c + length (chunks_enc cs) \<le> data_size (cv_recvChunkBuf (bc_cv c)))"

lemma shared_logsD:
  assumes "shared_logs H n m0 m L"
  shows "i < n \<Longrightarrow> distinct (log_hashes (L i))" "i < n \<Longrightarrow> (nm, h, d) \<in> set (L i) \<Longrightarrow> h = H d \<and> m h = Some nm"
    "i < n \<Longrightarrow> j < n \<Longrightarrow> i \<noteq> j \<Longrightarrow> set (log_hashes (L i)) \<inter> set (log_hashes (L j)) = {}"
    "i < n \<Longrightarrow> set (log_hashes (L i)) \<inter> dom m0 = {}" "dom m = dom m0 \<union> (\<Union>i<n. set (log_hashes (L i)))" "m0 \<subseteq>\<^sub>m m"
  using assms unfolding shared_logs_def by (elim conjE; meson)+

lemma shared_logs_store:
  assumes old: "shared_logs H n m0 m L" and i: "i < n" and new: "H x \<notin> dom m"
  shows "shared_logs H n m0 (m(H x \<mapsto> nm)) (L(i := L i @ [(nm, H x, x)]))" (is "shared_logs H n m0 ?m ?L")
proof -
  note old = shared_logsD [OF old]
  have lh: "log_hashes (?L j) = (if j = i then log_hashes (L i) @ [H x] else log_hashes (L j))" for j
    by (simp add: log_hashes_def)
  have out: "H x \<notin> dom m0" "H x \<notin> (\<Union>j<n. set (log_hashes (L j)))"
    using new unfolding old(5) by simp_all
  have "h = H d \<and> ?m h = Some a" if "j < n" "(a, h, d) \<in> set (?L j)" for j a h d
  proof (cases "(a, h, d) \<in> set (L j)")
    case True
    then have "h = H d \<and> m h = Some a"
      by (rule old(2) [OF that(1)])
    then show ?thesis
      using new by auto
  qed (use that(2) in \<open>simp split: if_splits\<close>)
  moreover have "distinct (log_hashes (?L j))" if "j < n" for j
    using old(1) [OF that] old(1) [OF i] out(2) i unfolding lh by simp
  moreover have "set (log_hashes (?L j)) \<inter> set (log_hashes (?L k)) = {}" if "j < n" "k < n" "j \<noteq> k" for j k
    using old(3) [OF that] out(2) that unfolding lh by auto
  moreover have "set (log_hashes (?L j)) \<inter> dom m0 = {}" if "j < n" for j
    using old(4) [OF that] old(4) [OF i] out(1) unfolding lh by simp
  moreover have "(\<Union>j<n. set (log_hashes (?L j))) = insert (H x) (\<Union>j<n. set (log_hashes (L j)))"
    using i unfolding lh by (auto split: if_splits)
  then have "dom ?m = dom m0 \<union> (\<Union>j<n. set (log_hashes (?L j)))"
    using old(5) by simp
  moreover have "m0 \<subseteq>\<^sub>m ?m"
    unfolding map_le_def using old(6) out(1) by (metis fun_upd_other map_le_def)
  ultimately show ?thesis
    unfolding shared_logs_def by (intro conjI allI impI) blast+
qed

lemma pending_next:
  assumes "pending_ok c" and "bc_left c = Suc k"
  shows "\<exists>x cs. length cs = k \<and> chunk_fits x \<and> list_all chunk_fits cs \<and>
     data_read (cv_recvChunkBuf (bc_cv c)) (bc_off c) (length (chunks_enc (x # cs))) = chunks_enc (x # cs) \<and>
     bc_off c + length (chunks_enc (x # cs)) \<le> data_size (cv_recvChunkBuf (bc_cv c))"
proof -
  obtain ys where ys: "length ys = Suc k" "list_all chunk_fits ys"
      "data_read (cv_recvChunkBuf (bc_cv c)) (bc_off c) (length (chunks_enc ys)) = chunks_enc ys"
      "bc_off c + length (chunks_enc ys) \<le> data_size (cv_recvChunkBuf (bc_cv c))"
    using assms unfolding pending_ok_def by auto
  obtain x cs where yx: "ys = x # cs"
    using ys(1) by (cases ys) auto
  then show ?thesis
    using ys by (intro exI [of _ x] exI [of _ cs]) (simp del: chunks_enc.simps)
qed

definition conns_ok :: "nat \<Rightarrow> (nat \<Rightarrow> u32) \<Rightarrow> (nat \<Rightarrow> batch_conn) \<Rightarrow> (nat \<Rightarrow> (bytes \<times> bytes \<times> bytes) list) \<Rightarrow> bool" where
  "conns_ok n base cn L \<longleftrightarrow> (\<forall>i<n. client_holds (base i) (bc_cv (cn i)) (L i) \<and> pending_ok (cn i))"

definition stored_total :: "nat \<Rightarrow> (nat \<Rightarrow> 'a list) \<Rightarrow> nat" where
  "stored_total n L = (\<Sum>i<n. length (L i))"

lemma stored_total_snoc: "i < n \<Longrightarrow> stored_total n (L(i := L i @ [x])) = stored_total n L + 1"
  unfolding stored_total_def by (subst (1 2) sum.remove [of _ i]) simp_all

lemma conns_ok_upd:
  "conns_ok n base cn L \<Longrightarrow> client_holds (base i) (bc_cv c) l \<Longrightarrow> pending_ok c \<Longrightarrow> conns_ok n base (cn(i := c)) (L(i := l))"
  by (simp add: conns_ok_def)

definition uploads_inv :: "('d \<Rightarrow> bool) \<Rightarrow> ('d \<Rightarrow> bytes \<rightharpoonup> bytes) \<Rightarrow> evp_api \<Rightarrow> (bytes \<Rightarrow> bytes) \<Rightarrow> nat \<Rightarrow> (nat \<Rightarrow> u32) \<Rightarrow> (bytes \<rightharpoonup> bytes) \<Rightarrow> u64
    \<Rightarrow> (nat \<Rightarrow> (bytes \<times> bytes \<times> bytes) list) \<Rightarrow> 'd shared \<Rightarrow> bool" where
  "uploads_inv I A evp H n base m0 u0 L s \<longleftrightarrow> I (ix_indexStore (sh_ix s)) \<and> hashes_with evp (ix_crypto (sh_ix s)) H \<and>
     conns_ok n base (sh_conn s) L \<and> shared_logs H n m0 (A (ix_indexStore (sh_ix s))) L \<and>
     ix_uniqueChunkNum (sh_ix s) = u0 + of_nat (stored_total n L)"

context key_value_store
begin

lemma chunk_step_inv:
  assumes step: "chunk_step vt evp n s s'" and old: "uploads_inv inv abs evp H n base m0 u0 L s"
  shows "\<exists>L'. uploads_inv inv abs evp H n base m0 u0 L' s'"
  using step
proof (cases rule: chunk_step.cases)
  case (Begin i c b)
  obtain cs where cs: "msg_is b cs" "list_all chunk_fits cs"
    using Begin(5) by (auto simp: batch_ok_def)
  let ?c = "\<lparr>bc_cv = (bc_cv c)\<lparr>cv_recvChunkBuf := b\<rparr>, bc_left = unat (currentItemNum (header b)), bc_off = 0,
        bc_name = replicate CONTAINER_ID_LENGTH 0\<rparr>"
  have "client_holds (base i) (bc_cv c) (L i)"
    using old Begin(2,3) by (auto simp: uploads_inv_def conns_ok_def)
  then have "client_holds (base i) (bc_cv ?c) (L i)"
    by (simp add: client_holds_def client_rep_def store_log_def)
  moreover have "pending_ok ?c"
    using cs unfolding pending_ok_def msg_is_def by auto
  ultimately have "conns_ok n base ((sh_conn s)(i := ?c)) (L(i := L i))"
    using old by (intro conns_ok_upd) (simp_all add: uploads_inv_def)
  then show ?thesis
    using old Begin(1) by (intro exI [of _ L]) (simp add: uploads_inv_def)
next
  case (Chunk i c k off' name' ix' cv' w')
  have c: "client_holds (base i) (bc_cv c) (L i)" "pending_ok c"
    using old Chunk(2,3) by (auto simp: uploads_inv_def conns_ok_def)
  obtain x cs where x: "length cs = k" "chunk_fits x" "list_all chunk_fits cs" and
      msg: "data_read (cv_recvChunkBuf (bc_cv c)) (bc_off c) (length (chunks_enc (x # cs))) = chunks_enc (x # cs)"
      "bc_off c + length (chunks_enc (x # cs)) \<le> data_size (cv_recvChunkBuf (bc_cv c))"
    using pending_next [OF c(2) Chunk(4)] by blast
  have store: "inv (ix_indexStore (sh_ix s))" and hash: "hashes_with evp (ix_crypto (sh_ix s)) H"
    and logs: "shared_logs H n m0 (abs (ix_indexStore (sh_ix s))) L" and conns: "conns_ok n base (sh_conn s) L"
    and cnt: "ix_uniqueChunkNum (sh_ix s) = u0 + of_nat (stored_total n L)"
    using old by (simp_all add: uploads_inv_def)
  let ?m = "abs (ix_indexStore (sh_ix s))"
  have one: "off' = bc_off c + 4 + length x" "inv (ix_indexStore ix')" "ix_crypto ix' = ix_crypto (sh_ix s)" "same_frame (bc_cv c) cv'"
      "if H x \<in> dom ?m then ix' = sh_ix s \<and> client_holds (base i) cv' (L i)
       else client_holds (base i) cv' (L i @ [(name', H x, x)]) \<and> abs (ix_indexStore ix') = ?m(H x \<mapsto> name') \<and>
         ix_uniqueChunkNum ix' = ix_uniqueChunkNum (sh_ix s) + 1"
    using process_chunk_spec [OF store c(1) hash x(2) msg, of "bc_name c" "sh_w s"] Chunk(5) by (auto split: if_splits)
  let ?c = "\<lparr>bc_cv = cv', bc_left = k, bc_off = off', bc_name = name'\<rparr>"
  have "pending_ok ?c"
    unfolding pending_ok_def using x msg(2) one(1) read_first_chunk(4) [OF msg(1) x(2)] same_frame_recv [OF one(4)]
    by (intro exI [of _ cs]) simp
  note upd = conns_ok_upd [OF conns _ this, of i]
  show ?thesis
  proof (cases "H x \<in> dom ?m")
    case True
    then have "conns_ok n base ((sh_conn s)(i := ?c)) (L(i := L i))"
      using one(5) by (intro upd) simp
    then show ?thesis
      using old one True Chunk(1) by (intro exI [of _ L]) (simp add: uploads_inv_def)
  next
    case False
    let ?L = "L(i := L i @ [(name', H x, x)])"
    have "conns_ok n base ((sh_conn s)(i := ?c)) ?L"
      using one(5) False by (intro upd) simp
    moreover have "shared_logs H n m0 (abs (ix_indexStore ix')) ?L"
      using shared_logs_store [OF logs Chunk(2) False] one(5) False by simp
    moreover have "ix_uniqueChunkNum ix' = u0 + of_nat (stored_total n ?L)"
      using one(5) False cnt stored_total_snoc [OF Chunk(2), of L] by simp
    ultimately show ?thesis
      using one(2,3) hash Chunk(1) by (intro exI [of _ ?L]) (simp add: uploads_inv_def)
  qed
qed

lemma chunk_steps_inv:
  "(chunk_step vt evp n)\<^sup>*\<^sup>* s s' \<Longrightarrow> uploads_inv inv abs evp H n base m0 u0 L s \<Longrightarrow> \<exists>L'. uploads_inv inv abs evp H n base m0 u0 L' s'"
proof (induction rule: rtranclp_induct)
  case (step y z)
  then show ?case
    using chunk_step_inv by blast
qed blast

lemma chunk_enabled:
  assumes old: "uploads_inv inv abs evp H n base m0 u0 L s" and i: "i < n" and left: "bc_left (sh_conn s i) = Suc k"
  shows "\<exists>s'. chunk_step vt evp n s s' \<and> bc_left (sh_conn s' i) = k"
proof -
  let ?c = "sh_conn s i"
  have c: "client_holds (base i) (bc_cv ?c) (L i)" "pending_ok ?c" "inv (ix_indexStore (sh_ix s))" "hashes_with evp (ix_crypto (sh_ix s)) H"
    using old i by (auto simp: uploads_inv_def conns_ok_def)
  obtain x cs where "chunk_fits x"
      "data_read (cv_recvChunkBuf (bc_cv ?c)) (bc_off ?c) (length (chunks_enc (x # cs))) = chunks_enc (x # cs)"
      "bc_off ?c + length (chunks_enc (x # cs)) \<le> data_size (cv_recvChunkBuf (bc_cv ?c))"
    using pending_next [OF c(2) left] by blast
  from process_chunk_spec [OF c(3,1,4) this, of "bc_name ?c" "sh_w s"]
  obtain off' name' ix' cv' w' where "process_chunk vt evp (bc_off ?c) (bc_name ?c) (sh_ix s) (bc_cv ?c) (sh_w s) = Inr (off', name', ix', cv', w')"
    by blast
  from Chunk [OF i refl left this] show ?thesis
    by (rule exI [where x = "s\<lparr>sh_ix := ix', sh_w := w', sh_conn := (sh_conn s)(i := \<lparr>bc_cv = cv', bc_left = k, bc_off = off', bc_name = name'\<rparr>)\<rparr>", OF conjI]) simp
qed

end

section \<open>Properties\<close>

text \<open>C12: Deduplication works across connections. Any number of connections begin with empty containers and process batches of chunks
  against the shared index, one chunk at a time and in any order. Then at every moment the containers of the
  connections together hold each new hash exactly once, under the name that the index gives for it; the index has
  gained exactly these hashes and lost or changed none; the counter of unique chunks has advanced by their
  number; and a connection with chunks left can process its next one.\<close>

theorem concurrent_dedup:
  fixes s :: "InMemoryDatabase shared"
  assumes store: "inmem_inv (ix_indexStore (sh_ix s))" and hash: "hashes_with evp (ix_crypto (sh_ix s)) H"
    and conns: "\<forall>i<n. client_holds (base i) (bc_cv (sh_conn s i)) [] \<and> bc_left (sh_conn s i) = 0 \<and> bc_off (sh_conn s i) = 0"
    and run: "(chunk_step inmem_vtable evp n)\<^sup>*\<^sup>* s s'"
  shows "(\<exists>L. (\<forall>i<n. client_holds (base i) (bc_cv (sh_conn s' i)) (L i)) \<and>
       shared_logs H n (inmem_abs (ix_indexStore (sh_ix s))) (inmem_abs (ix_indexStore (sh_ix s'))) L \<and>
       ix_uniqueChunkNum (sh_ix s') = ix_uniqueChunkNum (sh_ix s) + of_nat (stored_total n L)) \<and>
     (\<forall>i<n. \<forall>k. bc_left (sh_conn s' i) = Suc k \<longrightarrow> (\<exists>s''. chunk_step inmem_vtable evp n s' s'' \<and> bc_left (sh_conn s'' i) = k))"
proof -
  let ?m0 = "inmem_abs (ix_indexStore (sh_ix s))" and ?u0 = "ix_uniqueChunkNum (sh_ix s)"
  have "pending_ok c" if "bc_left c = 0" "bc_off c = 0" for c
    using that by (simp add: pending_ok_def data_read_def)
  then have "uploads_inv inmem_inv inmem_abs evp H n base ?m0 ?u0 (\<lambda>_. []) s"
    using store hash conns by (simp add: uploads_inv_def conns_ok_def shared_logs_def log_hashes_def stored_total_def)
  then obtain L where L: "uploads_inv inmem_inv inmem_abs evp H n base ?m0 ?u0 L s'"
    using inmem.chunk_steps_inv [OF run] by blast
  show ?thesis
    using L inmem.chunk_enabled [OF L] by (auto simp: uploads_inv_def conns_ok_def)
qed

definition demo_shared :: "InMemoryDatabase shared" where
  "demo_shared = \<lparr>sh_ix = demo_index, sh_w = demo_world,
     sh_conn = (\<lambda>_. \<lparr>bc_cv = demo_client (demo_message \<lparr>messageType = 0, clientID = 0, dataSize = 0, currentItemNum = 0\<rparr> []),
       bc_left = 0, bc_off = 0, bc_name = []\<rparr>)\<rparr>"

lemma demo_batch_ok:
  "batch_ok (demo_message \<lparr>messageType = 9, clientID = 1, dataSize = 17, currentItemNum = 3\<rparr> (chunks_enc [[1, 2], [1, 2], [3]]))"
  using demo_message_simps [of "\<lparr>messageType = 9, clientID = 1, dataSize = 17, currentItemNum = 3\<rparr>" "chunks_enc [[1, 2], [1, 2], [3]]"]
  unfolding batch_ok_def by (intro exI [of _ "[[1, 2], [1, 2], [3]]"]) (simp add: msg_is_def chunk_fits_def const_simps)

theorem concurrent_dedup_witness:
  "\<exists>s' s''. (chunk_step inmem_vtable demo_evp 2)\<^sup>*\<^sup>* demo_shared s' \<and> bc_left (sh_conn s' 0) = 3 \<and> bc_left (sh_conn s' 1) = 3 \<and>
     chunk_step inmem_vtable demo_evp 2 s' s'' \<and> bc_left (sh_conn s'' 1) = 2"
proof -
  obtain s1 where s1: "chunk_step inmem_vtable demo_evp 2 demo_shared s1" "bc_left (sh_conn s1 0) = 3" "bc_left (sh_conn s1 1) = 0"
    using Begin [OF _ refl _ demo_batch_ok, of 0 2 demo_shared inmem_vtable demo_evp]
    by (force simp: demo_shared_def demo_message_simps)
  obtain s2 where s2: "chunk_step inmem_vtable demo_evp 2 s1 s2" "bc_left (sh_conn s2 0) = 3" "bc_left (sh_conn s2 1) = 3"
    using Begin [OF _ refl s1(3) demo_batch_ok, of 2 inmem_vtable demo_evp] s1(2) by (force simp: demo_message_simps)
  have run: "(chunk_step inmem_vtable demo_evp 2)\<^sup>*\<^sup>* demo_shared s2"
    using s1(1) s2(1) by (rule converse_rtranclp_into_rtranclp [OF _ r_into_rtranclp])
  have "inmem_inv (ix_indexStore (sh_ix demo_shared))" "hashes_with demo_evp (ix_crypto (sh_ix demo_shared)) demo_hash"
    "\<forall>i<2. client_holds 0 (bc_cv (sh_conn demo_shared i)) [] \<and> bc_left (sh_conn demo_shared i) = 0 \<and> bc_off (sh_conn demo_shared i) = 0"
    using demo_hashes demo_client_holds by (simp_all add: demo_shared_def inmem_inv_def demo_index_def)
  from concurrent_dedup [where base = "\<lambda>_. 0", OF this run, THEN conjunct2] s2(3)
  obtain s3 where "chunk_step inmem_vtable demo_evp 2 s2 s3" "bc_left (sh_conn s3 1) = 2"
    by (metis Suc_1 lessI numeral_3_eq_3 numeral_2_eq_2)
  then show ?thesis
    using run s2 by blast
qed

end
