(* ===== verification/Pending_Restore.thy ===== *)
theory Pending_Restore
  imports Restore_Session
begin

text \<open>
  A restore that meets an upload. The index of the server names a chunk from the moment it is stored in the container of its
  connection; the file of the container appears only when the writer thread saves it. \<open>RecvDecoder\<close> looks the chunk
  up in the index and then opens the file. The lemmas follow a batch whose first chunk is in this state.
\<close>

text \<open>The names that a batch asks for; nothing is said about the containers themselves.\<close>

lemma requests_names:
  assumes "length nm = length hs" and "\<forall>j < length hs. length (nm ! j) = CONTAINER_ID_LENGTH"
  shows "requests (\<lambda>_. Some (map (\<lambda>h. (h, [])) hs)) hs nm (map (\<lambda>_. []) hs)"
  using assms by (auto simp: requests_def)

lemma get_container_missing:
  assumes "rc_inv (cv_containerCache cv)" and "rc_lookup (cv_containerCache cv) (slot_name cv 0) = None" and "decoder_for cfg rd"
    and "files fs (container_file cfg (slot_name cv 0)) = None"
  shows "get_container 0 rd cv fs = Inl ExitFailure"
proof -
  have "\<not> ExistsInCache (slot_name cv 0) (cv_containerCache cv)"
    using ExistsInCache_lookup [OF assms(1)] assms(2) by simp
  moreover have "\<not> is_is_open (is_open_read (container_path (rd_containerNamePrefix rd) (slot_name cv 0) (rd_containerNameTail rd)) fs)"
    using assms(3,4) by (simp add: decoder_for_def container_file_def is_open_read_def FileExist_def)
  ultimately show ?thesis
    by (simp add: get_container_def Let_def CONTAINER_CAPPING_VALUE_def)
qed

text \<open>The containers of a group are fetched in the order of their first use, so the group fails at slot 0.\<close>

lemma serve_group_missing:
  assumes "group_state hs nm start i ns cv" and "ns \<noteq> []"
    and "rc_inv (cv_containerCache cv)" and "rc_lookup (cv_containerCache cv) (ns ! 0) = None" and "decoder_for cfg rd"
    and "files fs (container_file cfg (ns ! 0)) = None"
  shows "serve_group api l start j fs rd cv c = Some (Inl ExitFailure)"
proof -
  have slot: "slot_name cv 0 = ns ! 0" and "unat (rq_idNum (cv_reqContainer cv)) = length ns"
    using assms(1,2) by (auto simp: group_state_def CONTAINER_CAPPING_VALUE_def unat_of_nat_u32)
  then obtain n where n: "unat (rq_idNum (cv_reqContainer cv)) = Suc n"
    using assms(2) by (cases ns) auto
  have "get_container 0 rd cv fs = Inl ExitFailure"
    using get_container_missing [of cv cfg rd fs] assms(3-6) slot by simp
  then show ?thesis
    using n by (simp add: serve_group_def GetReqContainers_def)
qed

lemma serve_entries_missing:
  assumes req: "requests C hs nm ds" and rd: "decoder_for cfg rd" and gone: "files fs (container_file cfg (nm ! 0)) = None"
    and "group_state hs nm 0 i ns cv" and "tmap_ok ns tmap" and "length ns < CONTAINER_CAPPING_VALUE"
    and "if i = 0 then ns = [] else ns \<noteq> [] \<and> ns ! 0 = nm ! 0"
    and "rc_inv (cv_containerCache cv)" and "rc_lookup (cv_containerCache cv) (nm ! 0) = None" and "0 < n" and "i + n = length hs"
  shows "serve_entries api n i 0 tmap fs rd cv c = Some (Inl ExitFailure)"
  using assms(4-)
proof (induction n arbitrary: i ns tmap cv)
  case (Suc n)
  have i: "i < length hs"
    using Suc.prems(8) by simp
  obtain tmap1 ns1 cv1 where a: "assign_slot i tmap cv = Inr (tmap1, cv1)" "tmap_ok ns1 tmap1" "group_state hs nm 0 (Suc i) ns1 cv1"
      "cv_containerCache cv1 = cv_containerCache cv" "ns1 = ns \<or> ns1 = ns @ [nm ! i]"
    using assign_slot_spec [OF Suc.prems(1,2) i Suc.prems(3) req] by blast
  have "unat (de_containerID (cv_downloadChunkBase cv1 i)) < length ns1"
    using a(3) by (simp add: group_state_def)
  then have ns1: "ns1 \<noteq> []" "ns1 ! 0 = nm ! 0"
    using a(5) Suc.prems(4) by (auto simp: nth_append split: if_splits)
  have num: "unat (rq_idNum (cv_reqContainer cv1)) = length ns1" "length ns1 \<le> CONTAINER_CAPPING_VALUE"
    using a(3) by (simp_all add: group_state_def CONTAINER_CAPPING_VALUE_def unat_of_nat_u32)
  show ?case
  proof (cases "length ns1 = CONTAINER_CAPPING_VALUE \<or> n = 0")
    case True
    have "serve_group api (n = 0) 0 i fs rd cv1 c = Some (Inl ExitFailure)"
      using serve_group_missing [OF a(3) ns1(1)] ns1(2) a(4) Suc.prems(5,6) rd gone by simp
    then show ?thesis
      using True a(1) num by simp
  next
    case False
    then show ?thesis
      using Suc.IH [OF a(3,2)] ns1 num Suc.prems(5,6,8) a(1,4) by simp
  qed
qed simp

context key_value_store
begin

lemma missing_batch_stops:
  assumes store: "inv (ix_indexStore ix)" and hs: "servable C (abs (ix_indexStore ix)) hs" "hs \<noteq> []"
    and names: "\<forall>h \<in> set hs. length (the (abs (ix_indexStore ix) h)) = CONTAINER_ID_LENGTH"
    and idle: "decoder_idle cfg C rd cv" and cold: "rc_lookup (cv_containerCache cv) (the (abs (ix_indexStore ix) (hs ! 0))) = None"
    and gone: "files fs (container_file cfg (the (abs (ix_indexStore ix) (hs ! 0)))) = None"
    and msg: "data_read (cv_sendChunkBuf cv) 0 (length (concat hs)) = concat hs"
  shows "RecvDecoder_ProcessRecipeBatch api vt ix (length hs) fs rd cv c = Some (Inl ExitFailure)"
proof -
  let ?m = "abs (ix_indexStore ix)"
  let ?nm = "map (the \<circ> ?m) hs"
  have hl: "list_all (\<lambda>h. length h = CHUNK_HASH_SIZE) hs" and n256: "length hs \<le> 256"
    using hs by (auto simp: servable_def list_all_iff)
  have entries: "\<forall>j < length hs. ?m (hs ! j) = Some (?nm ! j) \<and> length (?nm ! j) = CONTAINER_ID_LENGTH"
    using hs names by (auto simp: servable_def list_all_iff domIff dest!: nth_mem)
  have "length (concat hs) = length hs * CHUNK_HASH_SIZE"
    using hl by (induction hs) auto
  then have fit: "length (concat hs) \<le> data_size (cv_sendChunkBuf cv)"
    using n256 idle by (simp add: decoder_idle_def data_size_def send_buf_size_def const_simps)
  obtain base where look: "lookup_entries vt ix (length hs) 0 (replicate CONTAINER_ID_LENGTH 0) cv = Inr (cv\<lparr>cv_downloadChunkBase := base\<rparr>)"
      "\<forall>j < length hs. de_chunkHash (base j) = hs ! j \<and> de_containerName (base j) = ?nm ! j"
    using lookup_entries_spec [OF store hl entries msg _ fit, of 0 "length hs"] n256 idle by (auto simp: decoder_idle_def)
  let ?cv1 = "cv\<lparr>cv_downloadChunkBase := base\<rparr>"
  have grp: "group_state hs ?nm 0 0 [] ?cv1" and tm: "tmap_ok [] Map.empty" and z: "?nm ! 0 = the (?m (hs ! 0))"
    using look(2) idle hs(2) by (simp_all add: group_state_def decoder_idle_def tmap_ok_def)
  have "requests (\<lambda>_. Some (map (\<lambda>h. (h, [])) hs)) hs ?nm (map (\<lambda>_. []) hs)"
    using entries by (intro requests_names) simp_all
  from serve_entries_missing [OF this _ _ grp tm, of cfg rd fs "length hs"]
  have "serve_entries api (length hs) 0 0 Map.empty fs rd ?cv1 c = Some (Inl ExitFailure)"
    using idle cold gone hs(2) unfolding z by (simp add: decoder_idle_def cache_ok_def CONTAINER_CAPPING_VALUE_def)
  then show ?thesis
    using look(1) by (simp add: RecvDecoder_ProcessRecipeBatch_def)
qed

lemma missing_container_stops:
  assumes laws: "ssl_laws api inc out" and store: "inv (ix_indexStore ix)" and hs: "servable C (abs (ix_indexStore ix)) hs" "hs \<noteq> []"
    and names: "\<forall>h \<in> set hs. length (the (abs (ix_indexStore ix) h)) = CONTAINER_ID_LENGTH"
    and idle: "decoder_idle cfg C rd cv" and cold: "rc_lookup (cv_containerCache cv) (the (abs (ix_indexStore ix) (hs ! 0))) = None"
    and gone: "files fs (container_file cfg (the (abs (ix_indexStore ix) (hs ! 0)))) = None"
    and msgs: "carries (ready_msg k p # map (batch_msg k) (hs # hss)) (inc c)" and p: "length p \<le> MAX_CHUNK_SIZE"
  shows "RecvDecoder_Run api vt ix fs rd cv c = Some (Inl ExitFailure)"
proof -
  obtain r1 r2 r3 where r: "inc c = r1 @ (r2 @ r3)" "frame_records (ready_msg k p) r1" "frame_records (batch_msg k hs) r2"
    using msgs by auto
  obtain b c1 where b: "RecvDecoder_Run api vt ix fs rd cv c = decoder_loop api vt ix fs rd (cv\<lparr>cv_sendChunkBuf := b\<rparr>) c1"
      "decoder_idle cfg C rd (cv\<lparr>cv_sendChunkBuf := b\<rparr>)" "inc c1 = r2 @ r3"
    using decoder_starts [OF laws idle r(1,2) p] by blast
  obtain b2 c2 where d: "decoder_loop api vt ix fs rd (cv\<lparr>cv_sendChunkBuf := b\<rparr>) c1 =
         bindO (RecvDecoder_ProcessRecipeBatch api vt ix (length hs) fs rd (cv\<lparr>cv_sendChunkBuf := b2\<rparr>) c2)
           (\<lambda>(rd2, cv2, c2). decoder_loop api vt ix fs rd2 cv2 c2)"
      "decoder_idle cfg C rd (cv\<lparr>cv_sendChunkBuf := b2\<rparr>)" "data_read b2 0 (length (concat hs)) = concat hs"
    using decoder_loop_batch [OF laws hs(1) b(2,3) r(3), of vt ix fs] by (auto simp: decoder_idle_def)
  have "RecvDecoder_ProcessRecipeBatch api vt ix (length hs) fs rd (cv\<lparr>cv_sendChunkBuf := b2\<rparr>) c2 = Some (Inl ExitFailure)"
    using missing_batch_stops [OF store hs names d(2) _ gone] cold d(3) by simp
  then show ?thesis
    using b(1) d(1) by simp
qed

end

section \<open>Properties\<close>

text \<open>C40: A restore of a chunk that is indexed but not yet on disk stops the server. When the container that the index names for the
  first hash of a batch has no file yet, as is the case from the moment an upload stores the chunk until its container is
  full or the upload ends, and is not in the cache of the connection, then the session does not answer or refuse the
  request: it ends the whole process, whatever else the batch asks for.\<close>

theorem pending_chunk_stops_server:
  fixes ix :: "InMemoryDatabase PlainIndex"
  assumes "ssl_laws api inc out" and "inmem_inv (ix_indexStore ix)"
    and "servable C (inmem_abs (ix_indexStore ix)) hs" and "hs \<noteq> []"
    and "\<forall>h \<in> set hs. length (the (inmem_abs (ix_indexStore ix) h)) = CONTAINER_ID_LENGTH"
    and "decoder_idle cfg C rd cv" and "rc_lookup (cv_containerCache cv) (the (inmem_abs (ix_indexStore ix) (hs ! 0))) = None"
    and "files fs (container_file cfg (the (inmem_abs (ix_indexStore ix) (hs ! 0)))) = None"
    and "carries (ready_msg k p # map (batch_msg k) (hs # hss)) (inc c)" and "length p \<le> MAX_CHUNK_SIZE"
  shows "RecvDecoder_Run api inmem_vtable ix fs rd cv c = Some (Inl ExitFailure)"
  by (rule inmem.missing_container_stops) fact+

theorem pending_chunk_stops_server_witness:
  "RecvDecoder_Run queue_api inmem_vtable restore_index_demo (w_fs demo_world) (AbsRecvDecoder_new demo_cfg)
     (demo_client \<lparr>sendBuffer = (\<lambda>_. 0), sb_size = send_buf_size\<rparr>)
     (concat (map sent_frame [ready_msg 7 [], batch_msg 7 [replicate 32 1, replicate 32 1]]), []) = Some (Inl ExitFailure)"
proof -
  let ?m = "inmem_abs (ix_indexStore restore_index_demo)" and ?hs = "[replicate 32 1, replicate 32 1] :: bytes list"
  let ?cv = "demo_client \<lparr>sendBuffer = (\<lambda>_. 0), sb_size = send_buf_size\<rparr>"
  let ?c = "(concat (map sent_frame [ready_msg 7 [], batch_msg 7 ?hs]), []) :: bytes list \<times> bytes list"
  have m: "?m = [replicate 32 1 \<mapsto> str ''abcdefgh'']"
    by (simp add: inmem_abs_def restore_index_demo_def)
  have hs: "servable Map.empty ?m ?hs" "?hs \<noteq> []" "\<forall>h \<in> set ?hs. length (the (?m h)) = CONTAINER_ID_LENGTH"
    by (simp_all add: m servable_def CONTAINER_ID_LENGTH_def CHUNK_HASH_SIZE_def str_def)
  have v: "inmem_inv (ix_indexStore restore_index_demo)"
    by (simp add: inmem_inv_def restore_index_demo_def)
  have "rc_inv (ReadCache_new demo_cfg (\<lambda>_ _. 0))"
    by (rule rc_inv_new) (simp_all add: GetReadCacheSize_def demo_cfg_def)
  then have idle: "decoder_idle demo_cfg Map.empty (AbsRecvDecoder_new demo_cfg) ?cv" and cold: "rc_lookup (cv_containerCache ?cv) (the (?m (?hs ! 0))) = None"
    by (simp_all add: decoder_idle_def decoder_for_def AbsRecvDecoder_new_def GetSendChunkBatchSize_def demo_client_def
        cache_ok_def rc_lookup_def ReadCache_new_def lru_abs_new)
  have gone: "files (w_fs demo_world) (container_file demo_cfg (the (?m (?hs ! 0)))) = None"
    by (simp add: demo_world_def)
  have car: "carries (ready_msg 7 [] # map (batch_msg 7) (?hs # [])) (fst ?c)"
    using carries_sent [of "[ready_msg 7 [], batch_msg 7 ?hs]"] by simp
  show ?thesis
    using pending_chunk_stops_server [OF queue_api_laws v hs idle cold gone car] by simp
qed

end
