(* ===== verification/Blocking_Queue.thy ===== *)
theory Blocking_Queue
  imports Rw_Queue
begin

text \<open>
  \<open>BlockingReaderWriterQueue\<close> (\<open>include/messageQueue/readerwriterqueue.h\<close>) over \<open>LightweightSemaphore\<close>
  (\<open>include/messageQueue/atomicops.h\<close>): one producer and one consumer share a queue, a counter and a semaphore of the operating
  system. A step is one access to one of the three, as the loads and the \<open>fetch_add\<close> calls of the code are atomic;
  the counter is an integer, since it stays below the number of elements. The lemmas relate counter, semaphore, and
  queue in every reachable state: no assertion of the code fails, elements come out in their order, and no wake-up is lost.
\<close>

section \<open>Model\<close>

text \<open>The calls of the consumer; \<open>wait_dequeue\<close> repeats its wait until it succeeds.\<close>

datatype dequeue_call = TryDequeue | PopFront | WaitDequeue | WaitDequeueTimed int

fun timeout_usecs :: "dequeue_call \<Rightarrow> int" where
  "timeout_usecs (WaitDequeueTimed t) = t"
| "timeout_usecs _ = - 1"

datatype producer_pc =
    Producing
  | Signalling \<comment> \<open>an element is in the queue, \<open>signal\<close> is about to add to the counter\<close>
  | Posting \<comment> \<open>the counter was negative, \<open>sem_post\<close> comes next\<close>

datatype consumer_pc =
    Consuming
  | TryWait dequeue_call \<comment> \<open>the load in \<open>tryWait\<close>\<close>
  | Taking dequeue_call \<comment> \<open>the counter was positive, the decrement comes next\<close>
  | Spinning nat dequeue_call \<comment> \<open>turns left in the spin loop\<close>
  | KernelWait dequeue_call \<comment> \<open>the counter is decremented, the semaphore is awaited\<close>
  | Restoring dequeue_call \<comment> \<open>after a timeout, the counter is about to be restored\<close>
  | Retaking dequeue_call \<comment> \<open>a signal came after all, the counter is decremented again\<close>
  | TryKernel dequeue_call \<comment> \<open>\<open>try_wait\<close> on the semaphore\<close>
  | Dequeuing dequeue_call \<comment> \<open>the wait has succeeded, the element is taken out\<close>

text \<open>\<open>bq_sent\<close> and \<open>bq_taken\<close> record what was put in and what came out, \<open>None\<close> for an element dropped by \<open>pop\<close>.\<close>

record 'a blocking_queue =
  bq_inner :: "'a rwq"
  bq_count :: int
  bq_sema :: nat
  bq_producer :: producer_pc
  bq_consumer :: consumer_pc
  bq_fault :: "fault option"
  bq_sent :: "'a list"
  bq_taken :: "'a option list"

definition blocking_new :: "(nat \<Rightarrow> bool) \<Rightarrow> u64 \<Rightarrow> 'a blocking_queue result" where
  "blocking_new malloc_ok sz = bindR (rwq_new malloc_ok sz) (\<lambda>q.
     Inr \<lparr>bq_inner = q, bq_count = 0, bq_sema = 0, bq_producer = Producing, bq_consumer = Consuming, bq_fault = None,
          bq_sent = [], bq_taken = []\<rparr>)"

text \<open>\<open>enqueue\<close> and \<open>try_enqueue\<close>, up to the call of \<open>signal\<close>.\<close>

definition put_inner :: "'a \<Rightarrow> (bool \<times> 'a rwq) result \<Rightarrow> 'a blocking_queue \<Rightarrow> 'a blocking_queue" where
  "put_inner x r s = (case r of
       Inl e \<Rightarrow> s\<lparr>bq_fault := Some e\<rparr>
     | Inr (False, q) \<Rightarrow> s\<lparr>bq_inner := q\<rparr>
     | Inr (True, q) \<Rightarrow> s\<lparr>bq_inner := q, bq_producer := Signalling, bq_sent := bq_sent s @ [x]\<rparr>)"

definition sema_signal :: "'a blocking_queue \<Rightarrow> 'a blocking_queue" where
  "sema_signal s =
     (let oldCount = bq_count s; s = s\<lparr>bq_count := oldCount + 1\<rparr> in
      if \<not> - 1 \<le> oldCount then s\<lparr>bq_fault := Some AssertFailed\<rparr>
      else if oldCount < 0 then s\<lparr>bq_producer := Posting\<rparr> else s\<lparr>bq_producer := Producing\<rparr>)"

inductive producer_step :: "'a blocking_queue \<Rightarrow> 'a blocking_queue \<Rightarrow> bool" where
  Enqueue: "bq_producer s = Producing \<Longrightarrow> producer_step s (put_inner x (enqueue malloc_ok x (bq_inner s)) s)"
| TryEnqueue: "bq_producer s = Producing \<Longrightarrow> producer_step s (put_inner x (try_enqueue x (bq_inner s)) s)"
| Signal: "bq_producer s = Signalling \<Longrightarrow> producer_step s (sema_signal s)"
| Post: "bq_producer s = Posting \<Longrightarrow> producer_step s (s\<lparr>bq_sema := bq_sema s + 1, bq_producer := Producing\<rparr>)"

text \<open>What follows a wait that returned false.\<close>

definition wait_failed :: "dequeue_call \<Rightarrow> consumer_pc" where
  "wait_failed c = (if c = WaitDequeue then TryWait c else Consuming)"

definition tryWait :: "dequeue_call \<Rightarrow> 'a blocking_queue \<Rightarrow> 'a blocking_queue" where
  "tryWait c s = s\<lparr>bq_consumer :=
     (if bq_count s > 0 then Taking c else if c \<in> {TryDequeue, PopFront} then Consuming else Spinning 1024 c)\<rparr>"

definition spin :: "nat \<Rightarrow> dequeue_call \<Rightarrow> 'a blocking_queue \<Rightarrow> 'a blocking_queue" where
  "spin n c s = (case n of
       0 \<Rightarrow> s\<lparr>bq_count := bq_count s - 1, bq_consumer := (if bq_count s > 0 then Dequeuing c else KernelWait c)\<rparr>
     | Suc n \<Rightarrow> s\<lparr>bq_consumer := (if bq_count s > 0 then Taking c else Spinning n c)\<rparr>)"

definition restore_count :: "dequeue_call \<Rightarrow> 'a blocking_queue \<Rightarrow> 'a blocking_queue" where
  "restore_count c s = s\<lparr>bq_count := bq_count s + 1, bq_consumer := (if bq_count s < 0 then wait_failed c else Retaking c)\<rparr>"

definition retake :: "dequeue_call \<Rightarrow> 'a blocking_queue \<Rightarrow> 'a blocking_queue" where
  "retake c s = s\<lparr>bq_count := bq_count s - 1, bq_consumer := (if bq_count s > 0 then TryKernel c else Restoring c)\<rparr>"

definition take_out :: "dequeue_call \<Rightarrow> 'a blocking_queue \<Rightarrow> 'a blocking_queue" where
  "take_out c s =
     (if c = PopFront
      then (case rwq_pop (bq_inner s) of
          Inl e \<Rightarrow> s\<lparr>bq_fault := Some e\<rparr>
        | Inr (False, q) \<Rightarrow> s\<lparr>bq_inner := q, bq_fault := Some AssertFailed\<rparr>
        | Inr (True, q) \<Rightarrow> s\<lparr>bq_inner := q, bq_consumer := Consuming, bq_taken := bq_taken s @ [None]\<rparr>)
      else (case try_dequeue (bq_inner s) of
          Inl e \<Rightarrow> s\<lparr>bq_fault := Some e\<rparr>
        | Inr (None, q) \<Rightarrow> s\<lparr>bq_inner := q, bq_fault := Some AssertFailed\<rparr>
        | Inr (Some x, q) \<Rightarrow> s\<lparr>bq_inner := q, bq_consumer := Consuming, bq_taken := bq_taken s @ [Some x]\<rparr>))"

text \<open>A wait on the semaphore goes on when it is positive, unless the timeout is 0; it fails on a timeout or an error.\<close>

inductive consumer_step :: "'a blocking_queue \<Rightarrow> 'a blocking_queue \<Rightarrow> bool" where
  Call: "bq_consumer s = Consuming \<Longrightarrow> consumer_step s (s\<lparr>bq_consumer := TryWait c\<rparr>)"
| Peek: "bq_consumer s = Consuming \<Longrightarrow> rwq_peek (bq_inner s) = Inr (r, q) \<Longrightarrow> consumer_step s (s\<lparr>bq_inner := q\<rparr>)"
| PeekFault: "bq_consumer s = Consuming \<Longrightarrow> rwq_peek (bq_inner s) = Inl e \<Longrightarrow> consumer_step s (s\<lparr>bq_fault := Some e\<rparr>)"
| Try: "bq_consumer s = TryWait c \<Longrightarrow> consumer_step s (tryWait c s)"
| Take: "bq_consumer s = Taking c \<Longrightarrow> consumer_step s (s\<lparr>bq_count := bq_count s - 1, bq_consumer := Dequeuing c\<rparr>)"
| Spin: "bq_consumer s = Spinning n c \<Longrightarrow> consumer_step s (spin n c s)"
| Woken: "bq_consumer s = KernelWait c \<Longrightarrow> timeout_usecs c \<noteq> 0 \<Longrightarrow> bq_sema s = Suc n \<Longrightarrow>
    consumer_step s (s\<lparr>bq_sema := n, bq_consumer := Dequeuing c\<rparr>)"
| Timeout: "bq_consumer s = KernelWait c \<Longrightarrow> consumer_step s (s\<lparr>bq_consumer := Restoring c\<rparr>)"
| Restore: "bq_consumer s = Restoring c \<Longrightarrow> consumer_step s (restore_count c s)"
| Retake: "bq_consumer s = Retaking c \<Longrightarrow> consumer_step s (retake c s)"
| Late: "bq_consumer s = TryKernel c \<Longrightarrow> bq_sema s = Suc n \<Longrightarrow> consumer_step s (s\<lparr>bq_sema := n, bq_consumer := Dequeuing c\<rparr>)"
| TooEarly: "bq_consumer s = TryKernel c \<Longrightarrow> bq_sema s = 0 \<Longrightarrow> consumer_step s (s\<lparr>bq_consumer := Restoring c\<rparr>)"
| Dequeue: "bq_consumer s = Dequeuing c \<Longrightarrow> consumer_step s (take_out c s)"

definition bq_step :: "'a blocking_queue \<Rightarrow> 'a blocking_queue \<Rightarrow> bool" where
  "bq_step s s' \<longleftrightarrow> bq_fault s = None \<and> (producer_step s s' \<or> consumer_step s s')"

definition availableApprox :: "'a blocking_queue \<Rightarrow> nat" where
  "availableApprox s = (if bq_count s > 0 then nat (bq_count s) else 0)"

section \<open>Invariant\<close>

fun waiting :: "consumer_pc \<Rightarrow> bool" where
  "waiting (KernelWait c) = True"
| "waiting (Restoring c) = True"
| "waiting (Retaking c) = True"
| "waiting (TryKernel c) = True"
| "waiting _ = False"

text \<open>The counter without the increment that a consumer at \<open>Retaking\<close> is about to take back.\<close>

definition settled :: "'a blocking_queue \<Rightarrow> int" where
  "settled s = (case bq_consumer s of Retaking c \<Rightarrow> bq_count s - 1 | _ \<Rightarrow> bq_count s)"

definition claimed :: "consumer_pc \<Rightarrow> int" where
  "claimed pc = (case pc of Dequeuing c \<Rightarrow> 1 | _ \<Rightarrow> if waiting pc then 1 else 0)"

definition unsignalled :: "producer_pc \<Rightarrow> int" where
  "unsignalled pc = (if pc = Signalling then 1 else 0)"

text \<open>Tokens of the semaphore, with the one that the producer is about to post.\<close>

definition tokens :: "'a blocking_queue \<Rightarrow> nat" where
  "tokens s = bq_sema s + (if bq_producer s = Posting then 1 else 0)"

definition took :: "'a option list \<Rightarrow> 'a list \<Rightarrow> bool" where
  "took os xs \<longleftrightarrow> list_all2 (\<lambda>p x. p = None \<or> p = Some x) os xs"

definition pc_ok :: "'a blocking_queue \<Rightarrow> bool" where
  "pc_ok s \<longleftrightarrow> (case bq_consumer s of Taking c \<Rightarrow> 0 < bq_count s | Retaking c \<Rightarrow> 0 < bq_count s | _ \<Rightarrow> True)"

definition bq_inv :: "'a list \<Rightarrow> 'a list \<Rightarrow> 'a blocking_queue \<Rightarrow> bool" where
  "bq_inv ys xs s \<longleftrightarrow> bq_fault s = None \<and> rwq_rep (bq_inner s) xs \<and> bq_sent s = ys @ xs \<and> took (bq_taken s) ys \<and>
     settled s = int (length xs) - unsignalled (bq_producer s) - claimed (bq_consumer s) \<and> pc_ok s \<and>
     (if waiting (bq_consumer s) then - 1 \<le> settled s \<and> tokens s = (if settled s = - 1 then 0 else 1)
      else 0 \<le> settled s \<and> tokens s = 0)"

lemmas inv_simps = bq_inv_def settled_def claimed_def unsignalled_def tokens_def pc_ok_def

lemma put_inner_inv:
  assumes inv: "bq_inv ys xs s" and pc: "bq_producer s = Producing" and r: "r = Inr (b, q)" "rwq_rep q (if b then xs @ [x] else xs)"
  shows "bq_inv ys (if b then xs @ [x] else xs) (put_inner x r s)"
  using assms by (cases b) (auto simp: put_inner_def inv_simps split: consumer_pc.splits)

lemma producer_inv:
  assumes "producer_step s s'" and inv: "bq_inv ys xs s"
  shows "\<exists>xs'. bq_inv ys xs' s'"
  using assms(1)
proof (cases rule: producer_step.cases)
  case (Enqueue x ok)
  obtain b q where "enqueue ok x (bq_inner s) = Inr (b, q)" "rwq_rep q (if b then xs @ [x] else xs)"
    using inner_enqueue_rep [of "bq_inner s" xs True ok x] inv by (auto simp: bq_inv_def enqueue_def)
  then show ?thesis
    using put_inner_inv [OF inv Enqueue(2)] Enqueue(1) by blast
next
  case (TryEnqueue x)
  obtain b q where "try_enqueue x (bq_inner s) = Inr (b, q)" "rwq_rep q (if b then xs @ [x] else xs)"
    using try_enqueue_rep [of "bq_inner s" xs x] inv by (auto simp: bq_inv_def)
  then show ?thesis
    using put_inner_inv [OF inv TryEnqueue(2)] TryEnqueue(1) by blast
next
  case Signal
  then have "bq_inv ys xs s'"
    using inv by (auto simp: sema_signal_def Let_def inv_simps split: consumer_pc.splits if_splits)
  then show ?thesis ..
next
  case Post
  then have "bq_inv ys xs s'"
    using inv by (auto simp: inv_simps split: consumer_pc.splits if_splits)
  then show ?thesis ..
qed


lemma took_snoc:
  assumes "took ps ys" and "p = None \<or> p = Some x"
  shows "took (ps @ [p]) (ys @ [x])"
proof -
  have "list_all2 (\<lambda>p x. p = None \<or> p = Some x) [p] [x]"
    using assms(2) by simp
  then show ?thesis
    using assms(1) unfolding took_def by (blast intro: list_all2_appendI)
qed

text \<open>A consumer whose wait has succeeded finds an element.\<close>

lemma taken_inv:
  assumes inv: "bq_inv ys (x # xs) s" and pc: "bq_consumer s = Dequeuing c" and q: "rwq_rep q xs" and p: "p = None \<or> p = Some x"
  shows "bq_inv (ys @ [x]) xs (s\<lparr>bq_inner := q, bq_consumer := Consuming, bq_taken := bq_taken s @ [p]\<rparr>)"
proof -
  have "took (bq_taken s @ [p]) (ys @ [x])"
    using inv p by (intro took_snoc) (simp_all add: bq_inv_def)
  then show ?thesis
    using inv pc q unfolding inv_simps by simp
qed

lemma take_out_inv:
  assumes inv: "bq_inv ys xs s" and pc: "bq_consumer s = Dequeuing c"
  shows "\<exists>x xs'. xs = x # xs' \<and> bq_inv (ys @ [x]) xs' (take_out c s) \<and> bq_taken (take_out c s) = bq_taken s @ [if c = PopFront then None else Some x]"
proof -
  have "1 \<le> length xs"
    using inv pc by (auto simp: inv_simps split: if_splits)
  then obtain x xs' where xs: "xs = x # xs'"
    by (cases xs) auto
  have inv': "bq_inv ys (x # xs') s"
    using inv unfolding xs .
  then have rep: "rwq_rep (bq_inner s) (x # xs')"
    by (simp add: bq_inv_def)
  obtain q where q: "try_dequeue (bq_inner s) = Inr (Some x, q)" "rwq_rep q xs'"
    using try_dequeue_cons [OF rep] by blast
  obtain q' where q': "rwq_pop (bq_inner s) = Inr (True, q')" "rwq_rep q' xs'"
    using rwq_pop_rep [OF rep] by auto
  show ?thesis
  proof (cases "c = PopFront")
    case True
    then have "take_out c s = s\<lparr>bq_inner := q', bq_consumer := Consuming, bq_taken := bq_taken s @ [None]\<rparr>"
      using q'(1) by (simp add: take_out_def)
    then show ?thesis
      using taken_inv [OF inv' pc q'(2), of None] xs True by simp
  next
    case False
    then have "take_out c s = s\<lparr>bq_inner := q, bq_consumer := Consuming, bq_taken := bq_taken s @ [Some x]\<rparr>"
      using q(1) by (simp add: take_out_def)
    then show ?thesis
      using taken_inv [OF inv' pc q(2), of "Some x"] xs False by simp
  qed
qed

lemma peek_rep: "rwq_rep q xs \<Longrightarrow> \<exists>r q'. rwq_peek q = Inr (r, q') \<and> rwq_rep q' xs"
  using rwq_peek_nil [of q] rwq_peek_cons [of q] by (cases xs) (simp_all, blast+)

lemma consumer_inv:
  assumes "consumer_step s s'" and inv: "bq_inv ys xs s"
  shows "\<exists>ys' xs'. bq_inv ys' xs' s'"
proof -
  note keep = exI [where P = "\<lambda>ys. \<exists>xs. bq_inv ys xs s'", OF exI [where P = "\<lambda>xs. bq_inv ys xs s'"]]
  from assms(1) show ?thesis
  proof (cases rule: consumer_step.cases)
    case (Call c)
    then show ?thesis
      using inv by (intro keep [of xs]) (auto simp: inv_simps split: if_splits)
  next
    case (Peek r q)
    then have "rwq_rep q xs"
      using peek_rep [of "bq_inner s" xs] inv by (auto simp: bq_inv_def)
    then show ?thesis
      using inv Peek by (intro keep [of xs]) (simp add: inv_simps)
  next
    case (PeekFault e)
    then show ?thesis
      using peek_rep [of "bq_inner s" xs] inv by (auto simp: bq_inv_def)
  next
    case (Try c)
    then show ?thesis
      using inv by (intro keep [of xs]) (auto simp: tryWait_def inv_simps split: if_splits)
  next
    case (Take c)
    then show ?thesis
      using inv by (intro keep [of xs]) (auto simp: inv_simps split: if_splits)
  next
    case (Spin n c)
    then show ?thesis
      using inv by (intro keep [of xs], cases n) (auto simp: spin_def inv_simps split: if_splits)
  next
    case (Woken c n)
    then show ?thesis
      using inv by (intro keep [of xs]) (auto simp: inv_simps split: if_splits)
  next
    case (Timeout c)
    then show ?thesis
      using inv by (intro keep [of xs]) (auto simp: inv_simps split: if_splits)
  next
    case (Restore c)
    then show ?thesis
      using inv by (intro keep [of xs], cases "c = WaitDequeue") (auto simp: restore_count_def wait_failed_def inv_simps split: if_splits)
  next
    case (Retake c)
    then show ?thesis
      using inv by (intro keep [of xs]) (auto simp: retake_def inv_simps split: if_splits)
  next
    case (Late c n)
    then show ?thesis
      using inv by (intro keep [of xs]) (auto simp: inv_simps split: if_splits)
  next
    case (TooEarly c)
    then show ?thesis
      using inv by (intro keep [of xs]) (auto simp: inv_simps split: if_splits)
  next
    case (Dequeue c)
    obtain x xs' where "bq_inv (ys @ [x]) xs' (take_out c s)"
      using take_out_inv [OF inv Dequeue(2)] by (elim exE conjE) (rule that)
    then show ?thesis
      unfolding Dequeue(1) by (intro exI)
  qed
qed

lemma bq_step_inv:
  assumes "bq_step s s'" and "bq_inv ys xs s"
  shows "\<exists>ys' xs'. bq_inv ys' xs' s'"
proof -
  consider "producer_step s s'" | "consumer_step s s'"
    using assms(1) by (auto simp: bq_step_def)
  then show ?thesis
  proof cases
    case 1
    obtain xs' where "bq_inv ys xs' s'"
      using producer_inv [OF 1 assms(2)] ..
    then show ?thesis
      by (intro exI)
  next
    case 2
    then show ?thesis
      by (rule consumer_inv [OF _ assms(2)])
  qed
qed

lemma blocking_new_inv:
  assumes "1 \<le> unat sz" and "unat sz < 2 ^ 62"
  shows "\<exists>s :: 'a blocking_queue. blocking_new (\<lambda>_. True) sz = Inr s \<and> bq_inv [] [] s"
proof -
  obtain q :: "'a rwq" where "rwq_new (\<lambda>_. True) sz = Inr q" "rwq_rep q []"
    using rwq_new_rep [OF assms] by (elim exE conjE) (rule that)
  then show ?thesis
    by (simp add: blocking_new_def inv_simps took_def)
qed

lemma bq_steps_inv:
  assumes "bq_step\<^sup>*\<^sup>* s s'" and "bq_inv ys xs s"
  shows "\<exists>ys' xs'. bq_inv ys' xs' s'"
  using assms
proof (induction rule: rtranclp_induct)
  case base
  then show ?case
    by (intro exI)
next
  case (step y z)
  obtain ys' xs' where "bq_inv ys' xs' y"
    using step.IH [OF step.prems] by (elim exE) (rule that)
  then show ?case
    by (rule bq_step_inv [OF step.hyps(2)])
qed

lemma blocking_reachable:
  assumes "1 \<le> unat sz" and "unat sz < 2 ^ 62" and "blocking_new (\<lambda>_. True) sz = Inr s0" and "bq_step\<^sup>*\<^sup>* s0 s"
  obtains ys xs where "bq_inv ys xs s"
proof -
  have "bq_inv [] [] s0"
    using blocking_new_inv [OF assms(1,2), where ?'a = 'a] assms(3) by auto
  from bq_steps_inv [OF assms(4) this] show thesis
    by (elim exE) (rule that)
qed

section \<open>Properties\<close>

text \<open>C20: The blocking queue is safe under every interleaving of its producer and its consumer, with timeouts at any moment. In every
  reachable state no assertion of the queue or its semaphore has failed, so in particular a wait that succeeds is followed by a
  dequeue that finds an element; what was put in is what came out followed by what the ring holds, in this order; the semaphore of the
  operating system holds at most one token; and the counter is between -1 and the number of elements, and their number when both
  threads are between two calls.\<close>

theorem blocking_queue_safe:
  assumes "1 \<le> unat sz" and "unat sz < 2 ^ 62" and "blocking_new (\<lambda>_. True) sz = Inr s0" and "bq_step\<^sup>*\<^sup>* s0 s"
  shows "\<exists>ys xs. bq_fault s = None \<and> rwq_rep (bq_inner s) xs \<and> bq_sent s = ys @ xs \<and> took (bq_taken s) ys \<and>
     bq_sema s \<le> 1 \<and> - 1 \<le> bq_count s \<and> bq_count s \<le> int (length xs) \<and>
     (bq_producer s = Producing \<and> bq_consumer s = Consuming \<longrightarrow> availableApprox s = length xs)"
proof -
  obtain ys xs where inv: "bq_inv ys xs s"
    using blocking_reachable [OF assms] .
  then have "- 1 \<le> bq_count s" "bq_count s \<le> int (length xs)" "bq_sema s \<le> 1"
    by (cases "bq_consumer s"; cases "bq_producer s"; simp add: inv_simps split: if_splits)+
  moreover have "availableApprox s = length xs" if "bq_producer s = Producing" "bq_consumer s = Consuming"
    using inv that by (simp add: availableApprox_def inv_simps)
  ultimately show ?thesis
    using inv by (intro exI [of _ ys] exI [of _ xs]) (simp add: bq_inv_def)
qed

text \<open>C21: No wake-up is lost. When the consumer waits on the semaphore of the operating system and the producer is between two calls, the
  semaphore has a token exactly when the queue has an element; and then a wait without limit goes on and takes the first
  element out of the queue.\<close>

theorem no_lost_wakeup:
  assumes "1 \<le> unat sz" and "unat sz < 2 ^ 62" and "blocking_new (\<lambda>_. True) sz = Inr s0" and "bq_step\<^sup>*\<^sup>* s0 s"
    and "bq_consumer s = KernelWait WaitDequeue" and "bq_producer s = Producing"
  shows "\<exists>ys xs. rwq_rep (bq_inner s) xs \<and> bq_sent s = ys @ xs \<and> took (bq_taken s) ys \<and> bq_sema s = (if xs = [] then 0 else 1) \<and>
     (xs \<noteq> [] \<longrightarrow> (\<exists>s1 s2. bq_step s s1 \<and> bq_step s1 s2 \<and> bq_taken s2 = bq_taken s @ [Some (xs ! 0)]))"
proof -
  obtain ys xs where inv: "bq_inv ys xs s"
    using blocking_reachable [OF assms(1-4)] .
  then have sema: "bq_sema s = (if xs = [] then 0 else 1)"
    using assms(5,6) by (simp add: inv_simps split: if_splits)
  have "\<exists>s1 s2. bq_step s s1 \<and> bq_step s1 s2 \<and> bq_taken s2 = bq_taken s @ [Some (xs ! 0)]" if "xs \<noteq> []"
  proof -
    let ?s = "s\<lparr>bq_sema := 0, bq_consumer := Dequeuing WaitDequeue\<rparr>"
    have tok: "bq_sema s = Suc 0"
      using sema that by simp
    from Woken [OF assms(5) _ this] have one: "bq_step s ?s"
      using inv by (simp add: bq_step_def bq_inv_def)
    have inv': "bq_inv ys xs ?s"
      using inv assms(5,6) tok by (auto simp: inv_simps split: if_splits)
    then have two: "bq_step ?s (take_out WaitDequeue ?s)"
      using Dequeue [of ?s WaitDequeue] by (simp add: bq_step_def bq_inv_def)
    have "bq_consumer ?s = Dequeuing WaitDequeue"
      by simp
    from take_out_inv [OF inv' this] have "bq_taken (take_out WaitDequeue ?s) = bq_taken s @ [Some (xs ! 0)]"
      by auto
    then show ?thesis
      using one two by (intro exI conjI)
  qed
  then show ?thesis
    using inv sema by (intro exI [of _ ys] exI [of _ xs]) (simp add: bq_inv_def)
qed


text \<open>Runs of the two threads for the examples.\<close>

lemma demo_put:
  assumes "bq_fault s = None" and "bq_producer s = Producing" and "rwq_rep (bq_inner s) []"
  shows "\<exists>q. bq_step s (s\<lparr>bq_inner := q, bq_producer := Signalling, bq_sent := bq_sent s @ [x]\<rparr>)"
proof -
  obtain q where "enqueue True x (bq_inner s) = Inr (True, q)"
    using enqueue_rep [OF assms(3)] by blast
  then have "put_inner x (enqueue True x (bq_inner s)) s = s\<lparr>bq_inner := q, bq_producer := Signalling, bq_sent := bq_sent s @ [x]\<rparr>"
    by (simp add: put_inner_def)
  then show ?thesis
    using Enqueue [OF assms(2), of x True] assms(1) by (intro exI [of _ q]) (simp add: bq_step_def)
qed

lemma demo_spin:
  assumes "bq_fault s = None" and "bq_count s = 0"
  shows "bq_step\<^sup>*\<^sup>* (s\<lparr>bq_consumer := Spinning n c\<rparr>) (s\<lparr>bq_count := - 1, bq_consumer := KernelWait c\<rparr>)"
proof (induction n)
  case 0
  have "bq_step (s\<lparr>bq_consumer := Spinning 0 c\<rparr>) (spin 0 c (s\<lparr>bq_consumer := Spinning 0 c\<rparr>))"
    using Spin [of "s\<lparr>bq_consumer := Spinning 0 c\<rparr>" 0 c] assms(1) by (simp add: bq_step_def)
  then show ?case
    using assms(2) by (simp add: spin_def r_into_rtranclp)
next
  case (Suc n)
  have "bq_step (s\<lparr>bq_consumer := Spinning (Suc n) c\<rparr>) (spin (Suc n) c (s\<lparr>bq_consumer := Spinning (Suc n) c\<rparr>))"
    using Spin [of "s\<lparr>bq_consumer := Spinning (Suc n) c\<rparr>" "Suc n" c] assms(1) by (simp add: bq_step_def)
  then show ?case
    using Suc assms(2) by (simp add: spin_def converse_rtranclp_into_rtranclp)
qed

lemma demo_wait:
  assumes "bq_fault s = None" and "bq_count s = 0" and "bq_consumer s = Consuming"
  shows "bq_step\<^sup>*\<^sup>* s (s\<lparr>bq_count := - 1, bq_consumer := KernelWait WaitDequeue\<rparr>)"
proof -
  have "bq_step s (s\<lparr>bq_consumer := TryWait WaitDequeue\<rparr>)"
    using Call [OF assms(3)] assms(1) by (simp add: bq_step_def)
  moreover have "bq_step (s\<lparr>bq_consumer := TryWait WaitDequeue\<rparr>) (s\<lparr>bq_consumer := Spinning 1024 WaitDequeue\<rparr>)"
    using Try [of "s\<lparr>bq_consumer := TryWait WaitDequeue\<rparr>" WaitDequeue] assms by (simp add: bq_step_def tryWait_def)
  ultimately show ?thesis
    using demo_spin [OF assms(1,2), of 1024 WaitDequeue] by (meson converse_rtranclp_into_rtranclp)
qed

lemma demo_signal:
  assumes "bq_fault s = None" and "bq_producer s = Signalling" and "bq_count s = - 1"
  shows "bq_step\<^sup>*\<^sup>* s (s\<lparr>bq_count := 0, bq_sema := bq_sema s + 1, bq_producer := Producing\<rparr>)"
proof -
  have "bq_step s (s\<lparr>bq_count := 0, bq_producer := Posting\<rparr>)"
    using Signal [OF assms(2)] assms by (simp add: bq_step_def sema_signal_def Let_def)
  moreover have "bq_step (s\<lparr>bq_count := 0, bq_producer := Posting\<rparr>) (s\<lparr>bq_count := 0, bq_sema := bq_sema s + 1, bq_producer := Producing\<rparr>)"
    using Post [of "s\<lparr>bq_count := 0, bq_producer := Posting\<rparr>"] assms(1) by (simp add: bq_step_def)
  ultimately show ?thesis
    by (meson converse_rtranclp_into_rtranclp r_into_rtranclp)
qed

theorem blocking_queue_safe_witness:
  "\<exists>(s0 :: nat blocking_queue) s. blocking_new (\<lambda>_. True) 15 = Inr s0 \<and> bq_step\<^sup>*\<^sup>* s0 s \<and> bq_sent s = [7] \<and> bq_fault s = None \<and>
     rwq_rep (bq_inner s) [7]"
proof -
  have sz: "1 \<le> unat (15 :: u64)" "unat (15 :: u64) < 2 ^ 62"
    by simp_all
  obtain s0 :: "nat blocking_queue" where s0: "blocking_new (\<lambda>_. True) 15 = Inr s0" "bq_inv [] [] s0"
    using blocking_new_inv [OF sz] by (elim exE conjE) (rule that)
  then have st: "bq_fault s0 = None" "bq_producer s0 = Producing" "rwq_rep (bq_inner s0) []" "bq_sent s0 = []" "bq_taken s0 = []"
    by (auto simp: blocking_new_def bq_inv_def bindR_eq_Inr)
  obtain q where run: "bq_step\<^sup>*\<^sup>* s0 (s0\<lparr>bq_inner := q, bq_producer := Signalling, bq_sent := [7]\<rparr>)"
    using demo_put [OF st(1-3), of 7] st(4) by auto
  from blocking_queue_safe [OF sz s0(1) run] st(5) have "rwq_rep q [7]"
    by (auto simp: took_def)
  then show ?thesis
    using s0(1) run st(1) by (intro exI [of _ s0] exI [of _ "s0\<lparr>bq_inner := q, bq_producer := Signalling, bq_sent := [7]\<rparr>"]) simp
qed

theorem no_lost_wakeup_witness:
  "\<exists>(s0 :: nat blocking_queue) s. blocking_new (\<lambda>_. True) 15 = Inr s0 \<and> bq_step\<^sup>*\<^sup>* s0 s \<and> bq_taken s = [Some 7]"
proof -
  have sz: "1 \<le> unat (15 :: u64)" "unat (15 :: u64) < 2 ^ 62"
    by simp_all
  obtain s0 :: "nat blocking_queue" where s0: "blocking_new (\<lambda>_. True) 15 = Inr s0" "bq_inv [] [] s0"
    using blocking_new_inv [OF sz] by (elim exE conjE) (rule that)
  then have st: "bq_fault s0 = None" "bq_producer s0 = Producing" "rwq_rep (bq_inner s0) []" "bq_count s0 = 0" "bq_consumer s0 = Consuming"
      "bq_sent s0 = []" "bq_taken s0 = []"
    by (auto simp: blocking_new_def bq_inv_def bindR_eq_Inr)
  let ?s1 = "s0\<lparr>bq_count := - 1, bq_consumer := KernelWait WaitDequeue\<rparr>"
  obtain q where put: "bq_step ?s1 (?s1\<lparr>bq_inner := q, bq_producer := Signalling, bq_sent := [7]\<rparr>)"
    using demo_put [of ?s1 7] st by auto
  let ?s2 = "?s1\<lparr>bq_inner := q, bq_producer := Signalling, bq_sent := [7]\<rparr>"
  define s3 where "s3 = ?s2\<lparr>bq_count := 0, bq_sema := bq_sema ?s2 + 1, bq_producer := Producing\<rparr>"
  have "bq_step\<^sup>*\<^sup>* s0 ?s1"
    by (rule demo_wait [OF st(1,4,5)])
  also have "bq_step\<^sup>*\<^sup>* ?s1 ?s2"
    using put by (rule r_into_rtranclp)
  also have "bq_step\<^sup>*\<^sup>* ?s2 s3"
    using st(1) unfolding s3_def by (intro demo_signal) simp_all
  finally have run: "bq_step\<^sup>*\<^sup>* s0 s3" .
  have s3: "bq_consumer s3 = KernelWait WaitDequeue" "bq_producer s3 = Producing" "bq_sent s3 = [7]" "bq_taken s3 = []"
    using st(7) by (simp_all add: s3_def)
  obtain ys xs where wake: "bq_sent s3 = ys @ xs" "took (bq_taken s3) ys"
      "xs \<noteq> [] \<longrightarrow> (\<exists>s1 s2. bq_step s3 s1 \<and> bq_step s1 s2 \<and> bq_taken s2 = bq_taken s3 @ [Some (xs ! 0)])"
    using no_lost_wakeup [OF sz s0(1) run s3(1,2)] by (elim exE conjE) (rule that)
  then have "xs = [7]"
    using s3(3,4) by (simp add: took_def)
  then obtain s4 s5 where "bq_step s3 s4" "bq_step s4 s5" "bq_taken s5 = [Some 7]"
    using wake(3) s3(4) by auto
  then show ?thesis
    using s0(1) run by (meson rtranclp.rtrancl_into_rtrancl)
qed

end
