(* ===== verification/Compress_Gen.thy ===== *)
theory Compress_Gen
  imports Complex_Main Chunk_Structure
begin

text \<open>
  \<open>CompressGen\<close> (\<open>include/compressGen.h\<close>, \<open>src/Util/compressGen.cc\<close>), the generator of compressible test data. Its random
  numbers come from a permuted congruential generator; its lengths and literals follow power distributions in
  floating point. The values of floating-point operations are left to the implementation by the language, so the
  operations on \<open>double\<close> are a parameter. The lemmas show that the generator runs through all its states, so that the
  rejection loop for bounded numbers always ends and is fair, and that the generator fills exactly the buffer it is given.
\<close>

section \<open>The random numbers\<close>

record pcg32_random_t =
  pcg_state :: u64
  pcg_inc :: u64

definition PCG32_INITIALIZER :: pcg32_random_t where
  "PCG32_INITIALIZER = \<lparr>pcg_state = 0x853c49e6748fea9b, pcg_inc = 0xda3e39cb94b95bdb\<rparr>"

definition pcg32_random_r :: "pcg32_random_t \<Rightarrow> u32 \<times> pcg32_random_t" where
  "pcg32_random_r rng =
     (let oldstate = pcg_state rng;
          rng' = rng\<lparr>pcg_state := oldstate * 6364136223846793005 + pcg_inc rng\<rparr>;
          xorshifted = ucast (drop_bit 27 (drop_bit 18 oldstate XOR oldstate)) :: u32;
          rot = ucast (drop_bit 59 oldstate) :: u32 in
      (drop_bit (unat rot) xorshifted OR push_bit (unat (- rot AND 31)) xorshifted, rng'))"

definition pcg32_srandom_r :: "u64 \<Rightarrow> u64 \<Rightarrow> pcg32_random_t" where
  "pcg32_srandom_r initstate initseq =
     (let rng = \<lparr>pcg_state = 0, pcg_inc = push_bit 1 initseq OR 1\<rparr>;
          rng = snd (pcg32_random_r rng);
          rng = rng\<lparr>pcg_state := pcg_state rng + initstate\<rparr> in
      snd (pcg32_random_r rng))"

text \<open>A bound of 0 divides by zero.\<close>

partial_function (option) bounded_loop :: "u32 \<Rightarrow> u32 \<Rightarrow> pcg32_random_t \<Rightarrow> (u32 \<times> pcg32_random_t) option" where
  "bounded_loop threshold bound rng =
     (let (r, rng') = pcg32_random_r rng in
      if threshold \<le> r then Some (r mod bound, rng') else bounded_loop threshold bound rng')"

definition pcg32_boundedrand_r :: "u32 \<Rightarrow> pcg32_random_t \<Rightarrow> (u32 \<times> pcg32_random_t) run" where
  "pcg32_boundedrand_r bound rng =
     (if bound = 0 then Some (Inl Undefined) else map_option Inr (bounded_loop (- bound mod bound) bound rng))"

section \<open>Literals, lengths and data\<close>

text \<open>\<open>fp_lit m e\<close> is the literal \<open>m\<close> divided by \<open>10 ^ e\<close>; \<open>fp_trunc\<close> is the integral part, which a conversion to an unsigned type needs to
  be in the range of that type.\<close>

record 'f double_api =
  fp_lit :: "nat \<Rightarrow> nat \<Rightarrow> 'f"
  fp_add :: "'f \<Rightarrow> 'f \<Rightarrow> 'f"
  fp_mul :: "'f \<Rightarrow> 'f \<Rightarrow> 'f"
  fp_div :: "'f \<Rightarrow> 'f \<Rightarrow> 'f"
  fp_less :: "'f \<Rightarrow> 'f \<Rightarrow> bool"
  fp_pow :: "'f \<Rightarrow> 'f \<Rightarrow> 'f"
  fp_trunc :: "'f \<Rightarrow> int"

definition MIN_LEN :: nat where "MIN_LEN = 3"
definition MAX_LEN :: nat where "MAX_LEN = 160"
definition NUM_LEN :: nat where "NUM_LEN = MAX_LEN - MIN_LEN + 1"
definition LEN_PER_CHUNK :: nat where "LEN_PER_CHUNK = 512"
definition COMPRESSION_SET_SIZE :: nat where "COMPRESSION_SET_SIZE = 21"

lemmas gen_consts = MIN_LEN_def MAX_LEN_def NUM_LEN_def LEN_PER_CHUNK_def COMPRESSION_SET_SIZE_def

record 'f CompressGen =
  cg_pcg32_global :: pcg32_random_t
  cg_len_exp :: 'f
  cg_lit_exp :: 'f
  cg_compressBlockSet :: "u32 \<rightharpoonup> buf"

definition pcg32_random :: "'f CompressGen \<Rightarrow> u32 \<times> 'f CompressGen" where
  "pcg32_random g = (let (r, rng) = pcg32_random_r (cg_pcg32_global g) in (r, g\<lparr>cg_pcg32_global := rng\<rparr>))"

definition pcg32_boundedrand :: "u32 \<Rightarrow> 'f CompressGen \<Rightarrow> (u32 \<times> 'f CompressGen) run" where
  "pcg32_boundedrand bound g =
     bindO (pcg32_boundedrand_r bound (cg_pcg32_global g)) (\<lambda>(r, rng). Some (Inr (r, g\<lparr>cg_pcg32_global := rng\<rparr>)))"

definition RandDouble :: "'f double_api \<Rightarrow> 'f CompressGen \<Rightarrow> 'f \<times> 'f CompressGen" where
  "RandDouble fp g =
     (let (r, g') = pcg32_random g in
      (fp_div fp (fp_lit fp (unat r) 0) (fp_add fp (fp_lit fp 4294967295 0) (fp_lit fp 1 0)), g'))"

fun GenerateLiterals :: "'f double_api \<Rightarrow> 'f CompressGen \<Rightarrow> nat \<Rightarrow> (bytes \<times> 'f CompressGen) result" where
  "GenerateLiterals fp g 0 = Inr ([], g)"
| "GenerateLiterals fp g (Suc n) =
     (let (x, g1) = RandDouble fp g;
          v = fp_trunc fp (fp_mul fp (fp_lit fp 256 0) (fp_pow fp x (cg_lit_exp g))) in
      bindR (guardR (0 \<le> v \<and> v < 256) Undefined) (\<lambda>_.
      bindR (GenerateLiterals fp g1 n) (\<lambda>(bs, g2). Inr (of_int v # bs, g2))))"

fun lengths_loop :: "'f double_api \<Rightarrow> 'f CompressGen \<Rightarrow> nat \<Rightarrow> u32 list \<Rightarrow> (u32 list \<times> 'f CompressGen) result" where
  "lengths_loop fp g 0 len_freq = Inr (len_freq, g)"
| "lengths_loop fp g (Suc n) len_freq =
     (let (x, g1) = RandDouble fp g;
          v = fp_trunc fp (fp_mul fp (fp_lit fp NUM_LEN 0) (fp_pow fp x (cg_len_exp g))) in
      bindR (guardR (0 \<le> v \<and> v < 2 ^ 64) Undefined) (\<lambda>_.
        let len = nat v in
        bindR (guardR (len < NUM_LEN) ExitFailure) (\<lambda>_.
          lengths_loop fp g1 n (len_freq[len := len_freq ! len + 1]))))"

definition GenerateLengths :: "'f double_api \<Rightarrow> 'f CompressGen \<Rightarrow> nat \<Rightarrow> (u32 list \<times> 'f CompressGen) result" where
  "GenerateLengths fp g num = lengths_loop fp g num (replicate NUM_LEN 0)"

text \<open>The loop that finds the next length; the two local arrays are lists of \<open>MAX_LEN\<close> and \<open>NUM_LEN\<close> entries.\<close>

partial_function (option) next_length :: "'f double_api \<Rightarrow> 'f CompressGen \<Rightarrow> bytes \<Rightarrow> u32 list \<Rightarrow> nat
    \<Rightarrow> ('f CompressGen \<times> bytes \<times> u32 list \<times> nat) run" where
  "next_length fp g buffer len_freq cur_len =
     bindO (guardO (cur_len < length len_freq) OutOfBounds) (\<lambda>_.
       if len_freq ! cur_len \<noteq> 0 then Some (Inr (g, buffer, len_freq, cur_len))
       else if cur_len = 0
       then bindO (liftO (GenerateLiterals fp g MAX_LEN)) (\<lambda>(buffer', g1).
            bindO (liftO (GenerateLengths fp g1 LEN_PER_CHUNK)) (\<lambda>(len_freq', g2).
              next_length fp g2 buffer' len_freq' (NUM_LEN - 1)))
       else next_length fp g buffer len_freq (cur_len - 1))"

text \<open>\<open>cap\<close> is the size of the memory behind \<open>ptr\<close>.\<close>

definition put_bytes :: "nat \<Rightarrow> buf \<Rightarrow> nat \<Rightarrow> bytes \<Rightarrow> buf result" where
  "put_bytes cap m i bs = bindR (guardR (i + length bs \<le> cap) OutOfBounds) (\<lambda>_. Inr (mem_write m i bs))"

definition break_match :: "'f double_api \<Rightarrow> bool \<Rightarrow> 'f CompressGen \<Rightarrow> nat \<Rightarrow> buf \<Rightarrow> nat \<Rightarrow> nat \<Rightarrow> nat
    \<Rightarrow> ('f CompressGen \<times> buf \<times> nat \<times> nat) result" where
  "break_match fp last_was_match g cap m sz i len =
     (if last_was_match
      then bindR (GenerateLiterals fp g 1) (\<lambda>(bs, g1). bindR (put_bytes cap m i bs) (\<lambda>m1.
        let i = i + 1 in Inr (g1, m1, i, if sz - i < len then sz - i else len)))
      else Inr (g, m, i, len))"

partial_function (option) lz_loop :: "'f double_api \<Rightarrow> 'f \<Rightarrow> nat \<Rightarrow> nat \<Rightarrow> 'f CompressGen \<Rightarrow> bytes \<Rightarrow> u32 list \<Rightarrow> nat \<Rightarrow> nat \<Rightarrow> bool \<Rightarrow> buf
    \<Rightarrow> ('f CompressGen \<times> buf) run" where
  "lz_loop fp ratio cap sz g buffer len_freq cur_len i last_was_match m =
     (if sz \<le> i then Some (Inr (g, m))
      else bindO (next_length fp g buffer len_freq cur_len) (\<lambda>(g1, buffer1, len_freq1, cur_len1).
        let len_freq2 = len_freq1[cur_len1 := len_freq1 ! cur_len1 - 1];
            len = (if sz - i < MIN_LEN + cur_len1 then sz - i else MIN_LEN + cur_len1);
            (x, g2) = RandDouble fp g1 in
        if fp_less fp x (fp_div fp (fp_lit fp 1 0) ratio)
        then bindO (liftO (GenerateLiterals fp g2 len)) (\<lambda>(bs, g3).
             bindO (liftO (put_bytes cap m i bs)) (\<lambda>m1.
               lz_loop fp ratio cap sz g3 buffer1 len_freq2 cur_len1 (i + len) False m1))
        else bindO (liftO (break_match fp last_was_match g2 cap m sz i len)) (\<lambda>(g3, m1, i1, len1).
             bindO (guardO (len1 \<le> length buffer1) OutOfBounds) (\<lambda>_.
             bindO (liftO (put_bytes cap m1 i1 (take len1 buffer1))) (\<lambda>m2.
               lz_loop fp ratio cap sz g3 buffer1 len_freq2 cur_len1 (i1 + len1) True m2)))))"

text \<open>\<open>buffer\<close> and \<open>len_freq\<close> are what the local arrays hold before the call.\<close>

definition LZGenerateData :: "'f double_api \<Rightarrow> 'f CompressGen \<Rightarrow> bytes \<Rightarrow> u32 list \<Rightarrow> nat \<Rightarrow> buf \<Rightarrow> nat \<Rightarrow> 'f \<Rightarrow> ('f CompressGen \<times> buf) run" where
  "LZGenerateData fp g buffer len_freq cap m sz ratio =
     lz_loop fp (fp_add fp ratio (fp_lit fp 15 2)) cap sz g buffer (len_freq[0 := 0]) 0 0 False m"

definition GenerateCompressibleData :: "'f double_api \<Rightarrow> 'f CompressGen \<Rightarrow> bytes \<Rightarrow> u32 list \<Rightarrow> nat \<Rightarrow> buf \<Rightarrow> 'f \<Rightarrow> nat \<Rightarrow> ('f CompressGen \<times> buf) run" where
  "GenerateCompressibleData fp g buffer len_freq cap m compressionRatio sz =
     LZGenerateData fp g buffer len_freq cap m sz compressionRatio"

text \<open>The constructor: 21 blocks. \<open>stack\<close> and \<open>heap\<close> are the contents of local arrays and of fresh memory at each turn.\<close>

fun fill_blocks :: "'f double_api \<Rightarrow> (nat \<Rightarrow> bytes \<times> u32 list) \<Rightarrow> (nat \<Rightarrow> buf) \<Rightarrow> nat \<Rightarrow> u32 \<Rightarrow> 'f \<Rightarrow> 'f CompressGen \<Rightarrow> 'f CompressGen run" where
  "fill_blocks fp stack heap 0 initVal currentRatio g = Some (Inr g)"
| "fill_blocks fp stack heap (Suc n) initVal currentRatio g =
     bindO (GenerateCompressibleData fp g (fst (stack n)) (snd (stack n)) MAX_CHUNK_SIZE (heap n)
        (fp_add fp currentRatio (fp_lit fp 1 1)) MAX_CHUNK_SIZE) (\<lambda>(g1, chunkBuffer).
       fill_blocks fp stack heap n (initVal + 1) (fp_add fp currentRatio (fp_lit fp 1 1))
         (g1\<lparr>cg_compressBlockSet := (cg_compressBlockSet g1)(initVal \<mapsto> chunkBuffer)\<rparr>))"

definition CompressGen_new :: "'f double_api \<Rightarrow> (nat \<Rightarrow> bytes \<times> u32 list) \<Rightarrow> (nat \<Rightarrow> buf) \<Rightarrow> 'f \<Rightarrow> 'f \<Rightarrow> u32 \<Rightarrow> 'f CompressGen run" where
  "CompressGen_new fp stack heap len_exp lit_exp seed =
     fill_blocks fp stack heap COMPRESSION_SET_SIZE 10 (fp_lit fp 1 0)
       \<lparr>cg_pcg32_global = pcg32_srandom_r (scast seed) 0xC0FFEE, cg_len_exp = len_exp, cg_lit_exp = lit_exp,
        cg_compressBlockSet = Map.empty\<rparr>"

text \<open>A missing entry would be a null pointer.\<close>

definition GenerateChunkFromCanditdateSet :: "'f CompressGen \<Rightarrow> nat \<Rightarrow> buf \<Rightarrow> u32 \<Rightarrow> nat \<Rightarrow> buf result" where
  "GenerateChunkFromCanditdateSet g cap chunkBuffer compressionInt chunkSize =
     (let compressionInt = (if compressionInt > 30 then 30 else compressionInt);
          compressionInt = (if compressionInt < 10 then 10 else compressionInt) in
      case cg_compressBlockSet g compressionInt of
        None \<Rightarrow> Inl Undefined
      | Some compressedChunkBuffer \<Rightarrow>
          bindR (guardR (chunkSize \<le> MAX_CHUNK_SIZE) OutOfBounds) (\<lambda>_.
            put_bytes cap chunkBuffer 0 (mem_read compressedChunkBuffer 0 chunkSize)))"

section \<open>The period of the generator\<close>

definition pcg_next :: "pcg32_random_t \<Rightarrow> pcg32_random_t" where
  "pcg_next rng = snd (pcg32_random_r rng)"

lemma pcg_next_simps [simp]:
  "pcg_state (pcg_next rng) = pcg_state rng * 6364136223846793005 + pcg_inc rng" "pcg_inc (pcg_next rng) = pcg_inc rng"
  by (simp_all add: pcg_next_def pcg32_random_r_def Let_def)

text \<open>A linear congruence over the integers; \<open>2 ^ k\<close> steps in closed form.\<close>

definition lcg :: "int \<Rightarrow> int \<Rightarrow> int \<Rightarrow> int" where
  "lcg a c x = a * x + c"

lemma lcg_doubling:
  fixes a :: int
  assumes a: "a mod 4 = 1" and c: "odd c"
  shows "\<exists>p q. (\<forall>x. (lcg a c ^^ (2 ^ k)) x = (1 + 2 ^ (k + 2) * p) * x + 2 ^ k * q) \<and> odd q"
proof (induction k)
  case 0
  have "a = 1 + 4 * (a div 4)"
    using a by presburger
  then have "(lcg a c ^^ (2 ^ 0)) x = (1 + 2 ^ (0 + 2) * (a div 4)) * x + 2 ^ 0 * c" for x
    by (simp add: lcg_def)
  then show ?case
    using c by blast
next
  case (Suc k)
  then obtain p q where pq: "\<forall>x. (lcg a c ^^ (2 ^ k)) x = (1 + 2 ^ (k + 2) * p) * x + 2 ^ k * q" "odd q"
    by blast
  let ?p = "p + 2 ^ (k + 1) * p * p" and ?q = "q * (1 + 2 ^ (k + 1) * p)"
  have "(lcg a c ^^ (2 ^ Suc k)) x = (lcg a c ^^ (2 ^ k)) ((lcg a c ^^ (2 ^ k)) x)" for x
    by (simp add: mult_2 funpow_add)
  also have "\<dots> x = (1 + 2 ^ (Suc k + 2) * ?p) * x + 2 ^ Suc k * ?q" for x
    using pq(1) by (simp add: algebra_simps power_add)
  finally have "\<forall>x. (lcg a c ^^ (2 ^ Suc k)) x = (1 + 2 ^ (Suc k + 2) * ?p) * x + 2 ^ Suc k * ?q"
    by blast
  moreover have "odd ?q"
    using pq(2) by simp
  ultimately show ?case
    by blast
qed

lemma lcg_reaches:
  fixes a :: int
  assumes a: "a mod 4 = 1" and c: "odd c"
  shows "\<exists>n. 2 ^ k dvd (lcg a c ^^ n) x - y"
proof (induction k)
  case (Suc k)
  then obtain n d where n: "(lcg a c ^^ n) x - y = 2 ^ k * d"
    by (metis dvdE)
  show ?case
  proof (cases "even d")
    case True
    then have "2 ^ Suc k dvd (lcg a c ^^ n) x - y"
      unfolding n power_Suc2 by (intro mult_dvd_mono) simp_all
    then show ?thesis ..
  next
    case False
    obtain p q where pq: "(lcg a c ^^ (2 ^ k)) z = (1 + 2 ^ (k + 2) * p) * z + 2 ^ k * q" "odd q" for z
      using lcg_doubling [OF a c, of k] by blast
    let ?z = "(lcg a c ^^ n) x"
    have "even (d + q)"
      using False pq(2) by simp
    then obtain e where e: "d + q = 2 * e" ..
    have "(lcg a c ^^ (2 ^ k + n)) x = (1 + 2 ^ (k + 2) * p) * ?z + 2 ^ k * q"
      by (simp add: funpow_add pq(1))
    then have "(lcg a c ^^ (2 ^ k + n)) x - y = 2 ^ (k + 2) * p * ?z + 2 ^ k * q + (?z - y)"
      by (simp add: algebra_simps)
    also have "\<dots> = 2 ^ (k + 2) * p * ?z + 2 ^ k * (d + q)"
      by (simp add: n algebra_simps)
    also have "\<dots> = 2 ^ Suc k * (2 * p * ?z + e)"
      unfolding e by (simp add: algebra_simps)
    finally show ?thesis
      by (metis dvd_triv_left)
  qed
qed simp

lemma pcg_lcg:
  "pcg_state ((pcg_next ^^ n) rng) = of_int ((lcg 6364136223846793005 (uint (pcg_inc rng)) ^^ n) (uint (pcg_state rng)))"
  "pcg_inc ((pcg_next ^^ n) rng) = pcg_inc rng"
  by (induction n) (simp_all add: lcg_def mult.commute)

lemma odd_uint: "odd w \<Longrightarrow> odd (uint w)"
  by transfer (simp add: even_take_bit_eq)

lemma pcg_full_period:
  assumes "odd (pcg_inc rng)"
  shows "\<exists>n. (pcg_next ^^ n) rng = rng\<lparr>pcg_state := s\<rparr>"
proof -
  let ?f = "lcg 6364136223846793005 (uint (pcg_inc rng))"
  have "odd (uint (pcg_inc rng))"
    using assms by (rule odd_uint)
  then obtain n where "2 ^ 64 dvd (?f ^^ n) (uint (pcg_state rng)) - uint s"
    using lcg_reaches [of 6364136223846793005 "uint (pcg_inc rng)" 64] by auto
  then have "(?f ^^ n) (uint (pcg_state rng)) mod 2 ^ 64 = uint s mod 2 ^ 64"
    by (simp add: mod_eq_dvd_iff)
  then have "word_of_int ((?f ^^ n) (uint (pcg_state rng))) = (word_of_int (uint s) :: u64)"
    by (simp only: word_of_int_eq_iff take_bit_eq_mod) simp
  then have "(pcg_next ^^ n) rng = rng\<lparr>pcg_state := s\<rparr>"
    using pcg_lcg [of n rng] by simp
  then show ?thesis ..
qed


section \<open>Bounded random numbers\<close>

lemma bounded_loop_next:
  "bounded_loop t b rng = (let r = fst (pcg32_random_r rng) in if t \<le> r then Some (r mod b, pcg_next rng) else bounded_loop t b (pcg_next rng))"
  by (subst bounded_loop.simps) (simp add: pcg_next_def split_beta Let_def)

lemma bounded_loop_returns:
  "t \<le> fst (pcg32_random_r ((pcg_next ^^ n) rng)) \<Longrightarrow>
   \<exists>k. bounded_loop t b rng = Some (fst (pcg32_random_r ((pcg_next ^^ k) rng)) mod b, (pcg_next ^^ Suc k) rng) \<and>
     t \<le> fst (pcg32_random_r ((pcg_next ^^ k) rng)) \<and> (\<forall>j < k. fst (pcg32_random_r ((pcg_next ^^ j) rng)) < t)"
proof (induction n arbitrary: rng)
  case 0
  then show ?case
    by (intro exI [of _ 0]) (simp add: bounded_loop_next)
next
  case (Suc n)
  show ?case
  proof (cases "t \<le> fst (pcg32_random_r rng)")
    case True
    then show ?thesis
      by (intro exI [of _ 0]) (simp add: bounded_loop_next)
  next
    case False
    obtain k where k: "bounded_loop t b (pcg_next rng) =
          Some (fst (pcg32_random_r ((pcg_next ^^ k) (pcg_next rng))) mod b, (pcg_next ^^ Suc k) (pcg_next rng))"
        "t \<le> fst (pcg32_random_r ((pcg_next ^^ k) (pcg_next rng)))"
        "\<forall>j < k. fst (pcg32_random_r ((pcg_next ^^ j) (pcg_next rng))) < t"
      using Suc.IH [of "pcg_next rng"] Suc.prems by (auto simp: funpow_swap1)
    have "fst (pcg32_random_r ((pcg_next ^^ j) rng)) < t" if "j < Suc k" for j
      using that k(3) False by (cases j) (simp_all add: funpow_swap1)
    then show ?thesis
      using k(1,2) False by (intro exI [of _ "Suc k"]) (simp add: bounded_loop_next funpow_swap1)
  qed
qed

text \<open>A state whose output is above every threshold.\<close>

lemma pcg_high_output: "fst (pcg32_random_r \<lparr>pcg_state = 2 ^ 58, pcg_inc = i\<rparr>) = 0x80002000"
  by (simp add: pcg32_random_r_def Let_def)

lemma threshold_bound:
  fixes b :: u32
  assumes "b \<noteq> 0"
  shows "unat (- b mod b) \<le> 2 ^ 31"
proof -
  have b: "0 < unat b" "unat b < 2 ^ 32"
    using assms unat_u32_bound [of b] by (simp_all add: unat_gt_0)
  have m: "unat (- b) = 2 ^ 32 - unat b"
    using assms unat_sub_if' [of 0 b] b(1) by simp
  have "unat (- b mod b) = (2 ^ 32 - unat b) mod unat b"
    by (simp add: unat_mod_distrib m)
  moreover have "(2 ^ 32 - unat b) mod unat b \<le> 2 ^ 31"
  proof (cases "unat b \<le> 2 ^ 31")
    case True
    then show ?thesis
      using mod_less_divisor [OF b(1), of "2 ^ 32 - unat b"] by simp
  next
    case False
    have "(2 ^ 32 - unat b) mod unat b \<le> 2 ^ 32 - unat b"
      by (rule mod_less_eq_dividend)
    then show ?thesis
      using False by simp
  qed
  ultimately show ?thesis
    by simp
qed


lemma residue_block:
  fixes b :: nat
  assumes "v < b"
  shows "card {x \<in> {s..<s + b}. x mod b = v} = 1"
proof -
  let ?w = "s + (v + (b - s mod b)) mod b"
  have "x = ?w" if "x \<in> {s..<s + b}" "x mod b = v" for x
  proof -
    define d where "d = x - s"
    have d: "x = s + d" "d < b"
      using that(1) by (auto simp: d_def)
    have "(v + (b - s mod b)) mod b = (x + (b - s mod b)) mod b"
      using that(2) by (metis mod_add_left_eq)
    also have "x + (b - s mod b) = d + (s - s mod b + b)"
      using d assms mod_less_eq_dividend [of s b] mod_less_divisor [of b s] by linarith
    also have "\<dots> mod b = d"
      using d(2) by (simp add: minus_mod_eq_mult_div mod_add_right_eq [symmetric])
    finally show ?thesis
      using d(1) by simp
  qed
  moreover have "?w mod b = v"
  proof -
    have "?w mod b = (s mod b + (v + (b - s mod b))) mod b"
      by (simp add: mod_add_left_eq mod_add_right_eq)
    also have "s mod b + (v + (b - s mod b)) = v + b"
      using assms mod_less_divisor [of b s] by linarith
    finally show ?thesis
      using assms by simp
  qed
  moreover have "?w \<in> {s..<s + b}"
    using assms by simp
  ultimately have "{x \<in> {s..<s + b}. x mod b = v} = {?w}"
    by blast
  then show ?thesis
    by simp
qed

lemma residue_count:
  fixes b :: nat
  assumes "v < b"
  shows "card {x \<in> {s..<s + k * b}. x mod b = v} = k"
proof (induction k)
  case (Suc k)
  have "{x \<in> {s..<s + Suc k * b}. x mod b = v} =
      {x \<in> {s..<s + k * b}. x mod b = v} \<union> {x \<in> {s + k * b..<s + k * b + b}. x mod b = v}"
    by auto
  moreover have "card \<dots> = card {x \<in> {s..<s + k * b}. x mod b = v} + card {x \<in> {s + k * b..<s + k * b + b}. x mod b = v}"
    by (rule card_Un_disjoint) auto
  ultimately show ?case
    using Suc residue_block [OF assms, of "s + k * b"] by simp
qed simp

lemma card_u32: "card {x :: u32. P (unat x)} = card {n. n < 2 ^ 32 \<and> P n}"
proof -
  have "unat ` {x :: u32. P (unat x)} = {n. n < 2 ^ 32 \<and> P n}"
  proof
    show "unat ` {x :: u32. P (unat x)} \<subseteq> {n. n < 2 ^ 32 \<and> P n}"
      using unat_u32_bound by auto
    show "{n. n < 2 ^ 32 \<and> P n} \<subseteq> unat ` {x :: u32. P (unat x)}"
    proof
      fix n assume "n \<in> {n. n < 2 ^ 32 \<and> P n}"
      then show "n \<in> unat ` {x :: u32. P (unat x)}"
        by (intro image_eqI [of _ _ "of_nat n"]) (simp_all add: unat_of_nat_u32)
    qed
  qed
  moreover have "inj_on unat {x :: u32. P (unat x)}"
    by (rule inj_onI) (simp add: word_unat_eq_iff)
  ultimately show ?thesis
    by (metis card_image)
qed

lemma accepted_fair:
  fixes b :: u32
  assumes v: "v < b"
  shows "card {x. - b mod b \<le> x \<and> x mod b = v} = 2 ^ 32 div unat b"
proof -
  let ?b = "unat b" and ?t = "2 ^ 32 mod unat b"
  have b: "b \<noteq> 0" "unat v < ?b"
    using v by (auto simp: word_less_nat_alt)
  have "unat (- b) = 2 ^ 32 - ?b"
    using b(1) unat_sub_if' [of 0 b] by (simp add: unat_eq_0)
  moreover have "(2 ^ 32 - ?b) mod ?b = ?t"
    using unat_u32_bound [of b] by (metis le_mod_geq less_imp_le)
  ultimately have t: "unat (- b mod b) = ?t"
    by (simp add: unat_mod_distrib)
  have "{x. - b mod b \<le> x \<and> x mod b = v} = {x. ?t \<le> unat x \<and> unat x mod ?b = unat v}"
    using t by (simp add: word_le_nat_alt word_unat_eq_iff unat_mod_distrib)
  then have "card {x. - b mod b \<le> x \<and> x mod b = v} = card {n. n < 2 ^ 32 \<and> ?t \<le> n \<and> n mod ?b = unat v}"
    using card_u32 [of "\<lambda>n. ?t \<le> n \<and> n mod ?b = unat v"] by simp
  also have "{n. n < 2 ^ 32 \<and> ?t \<le> n \<and> n mod ?b = unat v} = {n \<in> {?t..<?t + (2 ^ 32 div ?b) * ?b}. n mod ?b = unat v}"
    using mod_div_mult_eq [of "2 ^ 32 :: nat" ?b] by auto
  also have "card \<dots> = 2 ^ 32 div ?b"
    by (rule residue_count [OF b(2)])
  finally show ?thesis .
qed

section \<open>Filling a buffer\<close>

definition rand_value :: "'f double_api \<Rightarrow> u32 \<Rightarrow> 'f" where
  "rand_value fp r = fp_div fp (fp_lit fp (unat r) 0) (fp_add fp (fp_lit fp 4294967295 0) (fp_lit fp 1 0))"

lemma RandDouble_eq:
  "RandDouble fp g = (rand_value fp (fst (pcg32_random_r (cg_pcg32_global g))), g\<lparr>cg_pcg32_global := pcg_next (cg_pcg32_global g)\<rparr>)"
  by (simp add: RandDouble_def pcg32_random_def rand_value_def pcg_next_def split_beta Let_def)

text \<open>\<open>n\<close> times a power of a random number below 1 is in the range from 0 to \<open>n - 1\<close>, after rounding.\<close>

definition power_in_range :: "'f double_api \<Rightarrow> 'f \<Rightarrow> nat \<Rightarrow> bool" where
  "power_in_range fp e n \<longleftrightarrow> (\<forall>r. 0 \<le> fp_trunc fp (fp_mul fp (fp_lit fp n 0) (fp_pow fp (rand_value fp r) e)) \<and>
     fp_trunc fp (fp_mul fp (fp_lit fp n 0) (fp_pow fp (rand_value fp r) e)) < int n)"

definition exps_ok :: "'f double_api \<Rightarrow> 'f CompressGen \<Rightarrow> bool" where
  "exps_ok fp g \<longleftrightarrow> power_in_range fp (cg_lit_exp g) 256 \<and> power_in_range fp (cg_len_exp g) NUM_LEN"

lemma exps_ok_upd [simp]: "exps_ok fp (g\<lparr>cg_pcg32_global := rng\<rparr>) = exps_ok fp g" "exps_ok fp (g\<lparr>cg_compressBlockSet := s\<rparr>) = exps_ok fp g"
  by (simp_all add: exps_ok_def)

lemma GenerateLiterals_total:
  "exps_ok fp g \<Longrightarrow> \<exists>bs rng. GenerateLiterals fp g n = Inr (bs, g\<lparr>cg_pcg32_global := rng\<rparr>) \<and> length bs = n"
proof (induction n arbitrary: g)
  case 0
  then show ?case
    by (intro exI [of _ "[]"] exI [of _ "cg_pcg32_global g"]) simp
next
  case (Suc n)
  let ?g = "g\<lparr>cg_pcg32_global := pcg_next (cg_pcg32_global g)\<rparr>"
  let ?v = "fp_trunc fp (fp_mul fp (fp_lit fp 256 0) (fp_pow fp (rand_value fp (fst (pcg32_random_r (cg_pcg32_global g)))) (cg_lit_exp g)))"
  have v: "0 \<le> ?v" "?v < 256"
    using Suc.prems by (auto simp: exps_ok_def power_in_range_def)
  obtain bs rng where "GenerateLiterals fp ?g n = Inr (bs, ?g\<lparr>cg_pcg32_global := rng\<rparr>)" "length bs = n"
    using Suc.IH [of ?g] Suc.prems by auto
  then show ?case
    using v by (intro exI [of _ "of_int ?v # bs"] exI [of _ rng]) (simp add: RandDouble_eq Let_def)
qed

lemma sum_list_unat_incr:
  assumes "k < length xs" and "sum_list (map unat xs) + 1 < 2 ^ 32"
  shows "sum_list (map unat (xs[k := xs ! k + 1])) = sum_list (map unat (xs :: u32 list)) + 1"
proof -
  have "unat (xs ! k) \<le> sum_list (map unat xs)"
    using assms(1) elem_le_sum_list [of k "map unat xs"] by simp
  then have "unat (xs ! k + 1) = unat (xs ! k) + 1"
    using assms(2) by (subst unat_plus_simple [THEN iffD1]) (simp_all add: no_olen_add_nat)
  then have "map unat (xs[k := xs ! k + 1]) = (map unat xs)[k := map unat xs ! k + 1]"
    using assms(1) by (simp add: map_update)
  then show ?thesis
    using assms(1) elem_le_sum_list [of k "map unat xs"] by (simp add: sum_list_update)
qed

lemma lengths_loop_total:
  "exps_ok fp g \<Longrightarrow> length f = NUM_LEN \<Longrightarrow> sum_list (map unat f) + n < 2 ^ 32 \<Longrightarrow>
   \<exists>f' rng. lengths_loop fp g n f = Inr (f', g\<lparr>cg_pcg32_global := rng\<rparr>) \<and> length f' = NUM_LEN \<and>
     sum_list (map unat f') = sum_list (map unat f) + n"
proof (induction n arbitrary: g f)
  case 0
  then show ?case
    by (intro exI [of _ f] exI [of _ "cg_pcg32_global g"]) simp
next
  case (Suc n)
  let ?g = "g\<lparr>cg_pcg32_global := pcg_next (cg_pcg32_global g)\<rparr>"
  let ?v = "fp_trunc fp (fp_mul fp (fp_lit fp NUM_LEN 0) (fp_pow fp (rand_value fp (fst (pcg32_random_r (cg_pcg32_global g)))) (cg_len_exp g)))"
  have v: "0 \<le> ?v" "?v < int NUM_LEN"
    using Suc.prems by (auto simp: exps_ok_def power_in_range_def)
  then have v': "nat ?v < NUM_LEN" "?v < 2 ^ 64"
    by (simp_all add: gen_consts)
  let ?f = "f[nat ?v := f ! nat ?v + 1]"
  have sum: "sum_list (map unat ?f) = sum_list (map unat f) + 1"
    using Suc.prems v' by (intro sum_list_unat_incr) simp_all
  then obtain f' rng where "lengths_loop fp ?g n ?f = Inr (f', ?g\<lparr>cg_pcg32_global := rng\<rparr>)" "length f' = NUM_LEN"
      "sum_list (map unat f') = sum_list (map unat ?f) + n"
    using Suc.IH [of ?g ?f] Suc.prems by auto
  then show ?case
    using v v' sum by (intro exI [of _ f'] exI [of _ rng]) (simp add: RandDouble_eq Let_def)
qed

lemma GenerateLengths_total:
  assumes "exps_ok fp g"
  shows "\<exists>f rng. GenerateLengths fp g LEN_PER_CHUNK = Inr (f, g\<lparr>cg_pcg32_global := rng\<rparr>) \<and> length f = NUM_LEN \<and>
     (\<exists>j < NUM_LEN. f ! j \<noteq> 0)"
proof -
  have "sum_list (map unat (replicate NUM_LEN (0 :: u32))) = 0"
    by (simp add: sum_list_replicate)
  then obtain f rng where f: "GenerateLengths fp g LEN_PER_CHUNK = Inr (f, g\<lparr>cg_pcg32_global := rng\<rparr>)" "length f = NUM_LEN"
      "sum_list (map unat f) = LEN_PER_CHUNK"
    using lengths_loop_total [OF assms, of "replicate NUM_LEN 0" LEN_PER_CHUNK] by (auto simp: GenerateLengths_def LEN_PER_CHUNK_def sum_list_replicate)
  have "\<exists>j < NUM_LEN. f ! j \<noteq> 0"
  proof (rule ccontr)
    assume "\<not> (\<exists>j < NUM_LEN. f ! j \<noteq> 0)"
    then have "\<forall>x \<in> set f. x = 0"
      using f(2) by (metis in_set_conv_nth)
    then have "sum_list (map unat f) = 0"
      by auto
    then show False
      using f(3) by (simp add: LEN_PER_CHUNK_def)
  qed
  then show ?thesis
    using f by blast
qed

lemma next_length_down:
  "cur < length f \<Longrightarrow> \<exists>j \<le> cur. f ! j \<noteq> 0 \<Longrightarrow> \<exists>j \<le> cur. next_length fp g b f cur = Some (Inr (g, b, f, j))"
proof (induction cur)
  case 0
  then show ?case
    by (subst next_length.simps) simp
next
  case (Suc c)
  show ?case
  proof (cases "f ! Suc c = 0")
    case True
    then have "\<exists>j \<le> c. f ! j \<noteq> 0"
      using Suc.prems(2) le_Suc_eq by metis
    then obtain j where "j \<le> c" "next_length fp g b f c = Some (Inr (g, b, f, j))"
      using Suc by auto
    then show ?thesis
      using True Suc.prems(1) by (intro exI [of _ j]) (subst next_length.simps, simp)
  next
    case False
    then show ?thesis
      using Suc.prems(1) by (intro exI [of _ "Suc c"]) (subst next_length.simps, simp)
  qed
qed

lemma next_length_total:
  assumes "exps_ok fp g" and "length b = MAX_LEN" and "length f = NUM_LEN" and "cur < NUM_LEN"
  shows "\<exists>rng b' f' j. next_length fp g b f cur = Some (Inr (g\<lparr>cg_pcg32_global := rng\<rparr>, b', f', j)) \<and> length b' = MAX_LEN \<and>
     length f' = NUM_LEN \<and> j < NUM_LEN"
  using assms(4)
proof (induction cur)
  case 0
  show ?case
  proof (cases "f ! 0 = 0")
    case True
    obtain b' r1 where b: "GenerateLiterals fp g MAX_LEN = Inr (b', g\<lparr>cg_pcg32_global := r1\<rparr>)" "length b' = MAX_LEN"
      using GenerateLiterals_total [OF assms(1)] by blast
    let ?g = "g\<lparr>cg_pcg32_global := r1\<rparr>"
    obtain f' r2 where f: "GenerateLengths fp ?g LEN_PER_CHUNK = Inr (f', ?g\<lparr>cg_pcg32_global := r2\<rparr>)" "length f' = NUM_LEN"
        "\<exists>j < NUM_LEN. f' ! j \<noteq> 0"
      using GenerateLengths_total [of fp ?g] assms(1) by auto
    have "\<exists>j \<le> NUM_LEN - 1. f' ! j \<noteq> 0"
      using f(3) by (metis One_nat_def Suc_pred less_Suc_eq_le less_nat_zero_code neq0_conv)
    then obtain j where "j \<le> NUM_LEN - 1" "next_length fp (g\<lparr>cg_pcg32_global := r2\<rparr>) b' f' (NUM_LEN - 1) = Some (Inr (g\<lparr>cg_pcg32_global := r2\<rparr>, b', f', j))"
      using next_length_down [of "NUM_LEN - 1" f' fp "g\<lparr>cg_pcg32_global := r2\<rparr>" b'] f(2) by (auto simp: gen_consts)
    moreover have "next_length fp g b f 0 = next_length fp (g\<lparr>cg_pcg32_global := r2\<rparr>) b' f' (NUM_LEN - 1)"
      using True b(1) f(1) assms(3) by (subst next_length.simps) (simp add: gen_consts)
    ultimately show ?thesis
      using b(2) f(2) by (auto simp: gen_consts)
  next
    case False
    then show ?thesis
      using assms(2,3) 0 by (intro exI [of _ "cg_pcg32_global g"] exI [of _ b] exI [of _ f] exI [of _ 0]) (subst next_length.simps, simp)
  qed
next
  case (Suc c)
  show ?case
  proof (cases "f ! Suc c = 0")
    case True
    then have "next_length fp g b f (Suc c) = next_length fp g b f c"
      using assms(3) Suc.prems by (subst next_length.simps) simp
    then show ?thesis
      using Suc by simp
  next
    case False
    then show ?thesis
      using assms(2,3) Suc.prems
      by (intro exI [of _ "cg_pcg32_global g"] exI [of _ b] exI [of _ f] exI [of _ "Suc c"]) (subst next_length.simps, simp)
  qed
qed


lemma break_match_total:
  assumes "exps_ok fp g" and "i < sz" and "sz \<le> cap" and "len \<le> sz - i"
  shows "\<exists>rng bs len'. (\<forall>m. break_match fp lm g cap m sz i len = Inr (g\<lparr>cg_pcg32_global := rng\<rparr>, mem_write m i bs, i + length bs, len')) \<and>
     len' \<le> len \<and> i + length bs + len' \<le> sz \<and> (len' = 0 \<longrightarrow> len = 0 \<or> bs \<noteq> [])"
proof (cases lm)
  case True
  obtain bs rng where "GenerateLiterals fp g 1 = Inr (bs, g\<lparr>cg_pcg32_global := rng\<rparr>)" "length bs = 1"
    using GenerateLiterals_total [OF assms(1)] by blast
  then show ?thesis
    using True assms by (intro exI [of _ rng] exI [of _ bs] exI [of _ "if sz - (i + 1) < len then sz - (i + 1) else len"])
      (auto simp: break_match_def put_bytes_def)
next
  case False
  then show ?thesis
    using assms by (intro exI [of _ "cg_pcg32_global g"] exI [of _ "[]"] exI [of _ len]) (auto simp: break_match_def)
qed

lemma lz_loop_total:
  assumes "exps_ok fp g" and "length b = MAX_LEN" and "length f = NUM_LEN" and "cur < NUM_LEN" and "sz \<le> cap" and "i \<le> sz"
  shows "\<exists>rng bs. length bs = sz - i \<and>
     (\<forall>m. lz_loop fp ratio cap sz g b f cur i lm m = Some (Inr (g\<lparr>cg_pcg32_global := rng\<rparr>, mem_write m i bs)))"
  using assms
proof (induction "sz - i" arbitrary: g b f cur i lm rule: less_induct)
  case less
  show ?case
  proof (cases "sz \<le> i")
    case True
    then show ?thesis
      by (intro exI [of _ "cg_pcg32_global g"] exI [of _ "[]"]) (auto simp: lz_loop.simps)
  next
    case False
    obtain r1 b1 f1 cur1 where n: "next_length fp g b f cur = Some (Inr (g\<lparr>cg_pcg32_global := r1\<rparr>, b1, f1, cur1))"
        "length b1 = MAX_LEN" "length f1 = NUM_LEN" "cur1 < NUM_LEN"
      using next_length_total less.prems by blast
    define f2 where "f2 = f1[cur1 := f1 ! cur1 - 1]"
    define len where "len = (if sz - i < MIN_LEN + cur1 then sz - i else MIN_LEN + cur1)"
    have len: "0 < len" "len \<le> sz - i" "len \<le> MAX_LEN"
      using False n(4) by (auto simp: len_def gen_consts)
    define g2 where "g2 = g\<lparr>cg_pcg32_global := pcg_next r1\<rparr>"
    have g2: "exps_ok fp g2" "length f2 = NUM_LEN"
      using less.prems(1) n(3) by (simp_all add: g2_def f2_def)
    define lit where "lit \<longleftrightarrow> fp_less fp (rand_value fp (fst (pcg32_random_r r1))) (fp_div fp (fp_lit fp 1 0) ratio)"
    note unfold = lz_loop.simps [of fp ratio cap sz g b f cur i lm] n(1) RandDouble_eq
    show ?thesis
    proof (cases lit)
      case True
      obtain bs r3 where bs: "GenerateLiterals fp g2 len = Inr (bs, g2\<lparr>cg_pcg32_global := r3\<rparr>)" "length bs = len"
        using GenerateLiterals_total [OF g2(1)] by blast
      have dec: "sz - (i + len) < sz - i" and fit: "i + len \<le> sz"
        using len False by simp_all
      obtain r4 cs where cs: "length cs = sz - (i + len)" "\<And>m. lz_loop fp ratio cap sz (g2\<lparr>cg_pcg32_global := r3\<rparr>) b1 f2 cur1 (i + len) False m =
          Some (Inr (g2\<lparr>cg_pcg32_global := r3, cg_pcg32_global := r4\<rparr>, mem_write m (i + len) cs))"
        using less.hyps [OF dec, of "g2\<lparr>cg_pcg32_global := r3\<rparr>" b1 f2 cur1 False] g2 n(2,4) less.prems(5) fit by auto
      have "lz_loop fp ratio cap sz g b f cur i lm m = Some (Inr (g\<lparr>cg_pcg32_global := r4\<rparr>, mem_write m i (bs @ cs)))" for m
        using True False bs cs(2) fit less.prems(5)
        by (simp add: unfold Let_def lit_def put_bytes_def mem_write_append flip: f2_def len_def g2_def) (simp add: g2_def)
      moreover have "length (bs @ cs) = sz - i"
        using bs(2) cs(1) len by simp
      ultimately show ?thesis
        by blast
    next
      case notlit: False
      obtain r3 bs len1 where bs: "\<And>m. break_match fp lm g2 cap m sz i len = Inr (g2\<lparr>cg_pcg32_global := r3\<rparr>, mem_write m i bs, i + length bs, len1)"
          "len1 \<le> len" "i + length bs + len1 \<le> sz" "len1 = 0 \<longrightarrow> len = 0 \<or> bs \<noteq> []"
        using break_match_total [OF g2(1), of i sz cap len lm] False less.prems(5) len(2) by auto
      let ?i = "i + length bs + len1"
      have dec: "sz - ?i < sz - i"
        using bs(4) len(1) False by (cases len1; cases bs) auto
      obtain r4 cs where cs: "length cs = sz - ?i" "\<And>m. lz_loop fp ratio cap sz (g2\<lparr>cg_pcg32_global := r3\<rparr>) b1 f2 cur1 ?i True m =
          Some (Inr (g2\<lparr>cg_pcg32_global := r3, cg_pcg32_global := r4\<rparr>, mem_write m ?i cs))"
        using less.hyps [OF dec, of "g2\<lparr>cg_pcg32_global := r3\<rparr>" b1 f2 cur1 True] g2 n(2,4) less.prems(5) bs(3) by auto
      have l1: "len1 \<le> length b1"
        using bs(2) len(3) n(2) by simp
      have "lz_loop fp ratio cap sz g b f cur i lm m = Some (Inr (g\<lparr>cg_pcg32_global := r4\<rparr>, mem_write m i (bs @ take len1 b1 @ cs)))" for m
        using notlit False bs(1,3) cs(2) l1 less.prems(5)
        by (simp add: unfold Let_def lit_def put_bytes_def mem_write_append min_absorb2 flip: f2_def len_def g2_def) (simp add: g2_def)
      moreover have "length (bs @ take len1 b1 @ cs) = sz - i"
        using l1 bs(3) cs(1) by simp
      ultimately show ?thesis
        by blast
    qed
  qed
qed


lemma LZGenerateData_fills:
  assumes "exps_ok fp g" and "sz \<le> cap"
  shows "\<exists>rng bs. length bs = sz \<and> (\<forall>m b f. length b = MAX_LEN \<longrightarrow> length f = NUM_LEN \<longrightarrow>
     LZGenerateData fp g b f cap m sz ratio = Some (Inr (g\<lparr>cg_pcg32_global := rng\<rparr>, mem_write m 0 bs)))"
proof -
  let ?r = "fp_add fp ratio (fp_lit fp 15 2)"
  let ?f0 = "replicate NUM_LEN 0" and ?b0 = "replicate MAX_LEN 0"
  have first: "next_length fp g b (f[0 := 0]) 0 = next_length fp g ?b0 ?f0 0" if "length f = NUM_LEN" for b f
    using that by (subst (1 2) next_length.simps) (simp add: gen_consts)
  have same: "lz_loop fp ?r cap sz g b (f[0 := 0]) 0 0 False m = lz_loop fp ?r cap sz g ?b0 ?f0 0 0 False m"
    if "length f = NUM_LEN" for b f m
    using first [OF that] by (subst (1 2) lz_loop.simps) simp
  obtain rng bs where "length bs = sz"
      "\<forall>m. lz_loop fp ?r cap sz g ?b0 ?f0 0 0 False m = Some (Inr (g\<lparr>cg_pcg32_global := rng\<rparr>, mem_write m 0 bs))"
    using lz_loop_total [OF assms(1), of ?b0 ?f0 0 sz cap 0 ?r False] assms(2) by (auto simp: gen_consts)
  then show ?thesis
    using same by (intro exI [of _ rng] exI [of _ bs]) (simp add: LZGenerateData_def)
qed


lemma fill_blocks_total:
  assumes "\<forall>k. length (fst (stack k)) = MAX_LEN \<and> length (snd (stack k)) = NUM_LEN" and "exps_ok fp g" and "unat v + n < 2 ^ 32"
  shows "\<exists>rng S. fill_blocks fp stack heap n v ratio g = Some (Inr (g\<lparr>cg_pcg32_global := rng, cg_compressBlockSet := S\<rparr>)) \<and>
     dom S = dom (cg_compressBlockSet g) \<union> {w. unat v \<le> unat w \<and> unat w < unat v + n}"
  using assms(2,3)
proof (induction n arbitrary: v ratio g)
  case 0
  then show ?case
    by (intro exI [of _ "cg_pcg32_global g"] exI [of _ "cg_compressBlockSet g"]) auto
next
  case (Suc n)
  let ?ratio = "fp_add fp ratio (fp_lit fp 1 1)"
  obtain rng bs where "\<forall>m b f. length b = MAX_LEN \<longrightarrow> length f = NUM_LEN \<longrightarrow>
      LZGenerateData fp g b f MAX_CHUNK_SIZE m MAX_CHUNK_SIZE ?ratio = Some (Inr (g\<lparr>cg_pcg32_global := rng\<rparr>, mem_write m 0 bs))"
    using LZGenerateData_fills [OF Suc.prems(1) order_refl] by blast
  then have gen: "GenerateCompressibleData fp g (fst (stack n)) (snd (stack n)) MAX_CHUNK_SIZE (heap n) ?ratio MAX_CHUNK_SIZE =
      Some (Inr (g\<lparr>cg_pcg32_global := rng\<rparr>, mem_write (heap n) 0 bs))"
    using assms(1) by (simp add: GenerateCompressibleData_def)
  let ?g = "g\<lparr>cg_pcg32_global := rng, cg_compressBlockSet := (cg_compressBlockSet g)(v \<mapsto> mem_write (heap n) 0 bs)\<rparr>"
  have v1: "unat (v + 1) = unat v + 1"
    using Suc.prems(2) by (subst unat_plus_simple [THEN iffD1]) (simp_all add: no_olen_add_nat)
  have pre: "exps_ok fp ?g" "unat (v + 1) + n < 2 ^ 32"
    using Suc.prems v1 by (simp_all add: exps_ok_def)
  obtain r2 S where S: "fill_blocks fp stack heap n (v + 1) ?ratio ?g = Some (Inr (?g\<lparr>cg_pcg32_global := r2, cg_compressBlockSet := S\<rparr>))"
      "dom S = dom (cg_compressBlockSet ?g) \<union> {w. unat (v + 1) \<le> unat w \<and> unat w < unat (v + 1) + n}"
    using Suc.IH [OF pre] by blast
  have "dom S = dom (cg_compressBlockSet g) \<union> {w. unat v \<le> unat w \<and> unat w < unat v + Suc n}"
    unfolding S(2) v1 by (auto simp: word_unat_eq_iff)
  then show ?case
    using gen S(1) by (intro exI [of _ r2] exI [of _ S]) simp
qed

section \<open>Properties\<close>

text \<open>C34: Bounded random numbers are fair and always come. For every bound other than 0 and every generator with an odd increment,
  which seeding always gives, the rejection loop ends: it returns the first output that is not below the threshold, reduced modulo
  the bound. Of all outputs that it accepts, exactly the same number lead to each result. The loop ends because the
  generator passes through all \<open>2 ^ 64\<close> states.\<close>

theorem boundedrand_fair:
  assumes odd: "odd (pcg_inc rng)" and bound: "bound \<noteq> 0"
  shows "(\<exists>k. (\<forall>j < k. fst (pcg32_random_r ((pcg_next ^^ j) rng)) < - bound mod bound) \<and>
       - bound mod bound \<le> fst (pcg32_random_r ((pcg_next ^^ k) rng)) \<and>
       pcg32_boundedrand_r bound rng = Some (Inr (fst (pcg32_random_r ((pcg_next ^^ k) rng)) mod bound, (pcg_next ^^ Suc k) rng))) \<and>
     (\<forall>r < bound. card {x. - bound mod bound \<le> x \<and> x mod bound = r} = 2 ^ 32 div unat bound)"
proof -
  let ?t = "- bound mod bound"
  obtain n where "(pcg_next ^^ n) rng = rng\<lparr>pcg_state := 2 ^ 58\<rparr>"
    using pcg_full_period [OF odd] by blast
  then have "fst (pcg32_random_r ((pcg_next ^^ n) rng)) = 0x80002000"
    using pcg_high_output [of "pcg_inc rng"] by (cases rng) simp
  moreover have "?t \<le> 0x80002000"
    using threshold_bound [OF bound] by (simp add: word_le_nat_alt)
  ultimately have "?t \<le> fst (pcg32_random_r ((pcg_next ^^ n) rng))"
    by simp
  from bounded_loop_returns [OF this, of bound] show ?thesis
    using bound accepted_fair by (auto simp: pcg32_boundedrand_r_def)
qed

lemma seeded_odd: "odd (pcg_inc (pcg32_srandom_r s q))"
  by (simp add: pcg32_srandom_r_def Let_def pcg32_random_r_def even_or_iff)

theorem boundedrand_fair_witness:
  "\<exists>r rng'. pcg32_boundedrand_r 6 (pcg32_srandom_r 42 54) = Some (Inr (r, rng')) \<and>
     card {x :: u32. - 6 mod 6 \<le> x \<and> x mod 6 = 5} = 715827882"
proof -
  have "(6 :: u32) \<noteq> 0" "(5 :: u32) < 6"
    by simp_all
  then show ?thesis
    using boundedrand_fair [OF seeded_odd, of 6 42 54] by force
qed

text \<open>C35: The generator of compressible data fills exactly the buffer it is given. When the powers it draws stay in range, which for literals the
  conversion to a byte and for lengths the code itself demands, it returns after finitely many turns, it has written every byte of
  the requested size and nothing behind it, no access leaves the local arrays, and what it writes depends neither on the old
  contents of the buffer nor on the uninitialised local arrays.\<close>

theorem lz_fills_buffer:
  assumes "power_in_range fp (cg_lit_exp g) 256" and "power_in_range fp (cg_len_exp g) NUM_LEN" and "sz \<le> cap"
  shows "\<exists>rng bs. length bs = sz \<and> (\<forall>m b f. length b = MAX_LEN \<longrightarrow> length f = NUM_LEN \<longrightarrow>
     LZGenerateData fp g b f cap m sz ratio = Some (Inr (g\<lparr>cg_pcg32_global := rng\<rparr>, mem_write m 0 bs)))"
  using assms by (intro LZGenerateData_fills) (simp_all add: exps_ok_def)

definition rat_double :: "rat double_api" where
  "rat_double = \<lparr>fp_lit = (\<lambda>m e. of_nat m / 10 ^ e), fp_add = (+), fp_mul = (*), fp_div = (/), fp_less = (<),
     fp_pow = (\<lambda>x e. x ^ nat \<lfloor>e\<rfloor>), fp_trunc = floor\<rparr>"

lemma rat_in_range: "0 < n \<Longrightarrow> power_in_range rat_double 1 n"
proof -
  assume n: "0 < n"
  have "0 \<le> \<lfloor>of_nat n * (of_nat (unat r) / 4294967296 :: rat)\<rfloor> \<and> \<lfloor>of_nat n * (of_nat (unat r) / 4294967296 :: rat)\<rfloor> < int n" for r :: u32
  proof -
    have "of_nat (unat r) / (4294967296 :: rat) < 1"
    proof -
      have "of_nat (unat r) < (of_nat (2 ^ 32) :: rat)"
        by (simp only: of_nat_less_iff unat_u32_bound)
      then show ?thesis
        by simp
    qed
    then have "of_nat n * (of_nat (unat r) / 4294967296 :: rat) < of_nat n * 1"
      using n by (intro mult_strict_left_mono) simp_all
    moreover have "0 \<le> of_nat n * (of_nat (unat r) / 4294967296 :: rat)"
      by (intro mult_nonneg_nonneg divide_nonneg_nonneg of_nat_0_le_iff) simp
    ultimately show ?thesis
      by (simp only: zero_le_floor floor_less_iff of_int_of_nat_eq mult_1_right simp_thms)
  qed
  then show ?thesis
    by (simp add: power_in_range_def rat_double_def rand_value_def)
qed

definition demo_gen :: "rat CompressGen" where
  "demo_gen = \<lparr>cg_pcg32_global = PCG32_INITIALIZER, cg_len_exp = 1, cg_lit_exp = 1, cg_compressBlockSet = Map.empty\<rparr>"

theorem lz_fills_buffer_witness:
  "\<exists>g bs. length bs = 100 \<and> LZGenerateData rat_double demo_gen (replicate MAX_LEN 0) (replicate NUM_LEN 7) 128 (\<lambda>_. 1) 100 2 =
     Some (Inr (g, mem_write (\<lambda>_. 1) 0 bs))"
proof -
  have "power_in_range rat_double (cg_lit_exp demo_gen) 256" "power_in_range rat_double (cg_len_exp demo_gen) NUM_LEN" "(100 :: nat) \<le> 128"
    by (simp_all add: demo_gen_def rat_in_range gen_consts)
  from lz_fills_buffer [OF this, of 2] show ?thesis
    by fastforce
qed

text \<open>Every compression level has a candidate chunk. The constructor returns with exactly the 21 blocks for the levels 10 to 30, and after it a
  request for any level, clamped to that range, copies the first bytes of the block of that level to the buffer, for every size up
  to \<open>MAX_CHUNK_SIZE\<close> that fits; no request meets a missing block.\<close>

theorem candidate_chunks:
  assumes "power_in_range fp lit_exp 256" and "power_in_range fp len_exp NUM_LEN"
    and "\<forall>k. length (fst (stack k)) = MAX_LEN \<and> length (snd (stack k)) = NUM_LEN"
  shows "\<exists>g. CompressGen_new fp stack heap len_exp lit_exp seed = Some (Inr g) \<and> dom (cg_compressBlockSet g) = {10..30} \<and>
     (\<forall>level m cap n. n \<le> MAX_CHUNK_SIZE \<longrightarrow> n \<le> cap \<longrightarrow> GenerateChunkFromCanditdateSet g cap m level n =
        Inr (mem_write m 0 (mem_read (the (cg_compressBlockSet g (max 10 (min 30 level)))) 0 n)))"
proof -
  let ?g = "\<lparr>cg_pcg32_global = pcg32_srandom_r (scast seed) 0xC0FFEE, cg_len_exp = len_exp, cg_lit_exp = lit_exp, cg_compressBlockSet = Map.empty\<rparr>"
  have "exps_ok fp ?g"
    using assms(1,2) by (simp add: exps_ok_def)
  then obtain rng S where S: "CompressGen_new fp stack heap len_exp lit_exp seed = Some (Inr (?g\<lparr>cg_pcg32_global := rng, cg_compressBlockSet := S\<rparr>))"
      "dom S = {w. 10 \<le> unat w \<and> unat w < 31}"
    using fill_blocks_total [OF assms(3), of fp ?g 10 21 heap "fp_lit fp 1 0"] by (auto simp: CompressGen_new_def COMPRESSION_SET_SIZE_def)
  have dom: "dom S = {10..30}"
    unfolding S(2) by (auto simp: word_le_nat_alt)
  have lev: "max 10 (min 30 level) \<in> dom S" for level
    unfolding dom by (auto simp: min_def max_def not_le intro: less_imp_le)
  have "GenerateChunkFromCanditdateSet (?g\<lparr>cg_pcg32_global := rng, cg_compressBlockSet := S\<rparr>) cap m level n =
      Inr (mem_write m 0 (mem_read (the (S (max 10 (min 30 level)))) 0 n))" if "n \<le> MAX_CHUNK_SIZE" "n \<le> cap" for level m cap n
  proof -
    have "(let c = if level > 30 then 30 else level in if c < 10 then 10 else c) = max 10 (min 30 level)"
      by (auto simp: Let_def min_def max_def)
    then show ?thesis
      using that lev [of level] by (auto simp: GenerateChunkFromCanditdateSet_def Let_def put_bytes_def)
  qed
  then show ?thesis
    using S(1) dom by (intro exI [of _ "?g\<lparr>cg_pcg32_global := rng, cg_compressBlockSet := S\<rparr>"]) simp
qed

theorem candidate_chunks_witness:
  "\<exists>g m. CompressGen_new rat_double (\<lambda>_. (replicate MAX_LEN 0, replicate NUM_LEN 7)) (\<lambda>_ _. 0) 1 1 5 = Some (Inr g) \<and>
     GenerateChunkFromCanditdateSet g 8192 (\<lambda>_. 0) 77 4096 = Inr m"
proof -
  have "power_in_range rat_double 1 256" "power_in_range rat_double 1 NUM_LEN"
    "\<forall>k :: nat. length (fst ((\<lambda>_. (replicate MAX_LEN (0 :: u8), replicate NUM_LEN (7 :: u32))) k)) = MAX_LEN \<and>
       length (snd ((\<lambda>_. (replicate MAX_LEN (0 :: u8), replicate NUM_LEN (7 :: u32))) k)) = NUM_LEN"
    by (simp_all add: rat_in_range gen_consts)
  from candidate_chunks [OF this, of "\<lambda>_ _. 0" 5]
  obtain g where g: "CompressGen_new rat_double (\<lambda>_. (replicate MAX_LEN 0, replicate NUM_LEN 7)) (\<lambda>_ _. 0) 1 1 5 = Some (Inr g)"
      "\<forall>level m cap n. n \<le> MAX_CHUNK_SIZE \<longrightarrow> n \<le> cap \<longrightarrow> GenerateChunkFromCanditdateSet g cap m level n =
        Inr (mem_write m 0 (mem_read (the (cg_compressBlockSet g (max 10 (min 30 level)))) 0 n))"
    by (elim exE conjE) (rule that)
  have "(4096 :: nat) \<le> MAX_CHUNK_SIZE" "(4096 :: nat) \<le> 8192"
    by (simp_all add: MAX_CHUNK_SIZE_def)
  then show ?thesis
    using g(1) g(2) [rule_format, of 4096 8192 "\<lambda>_. 0" 77] by (intro exI conjI)
qed

end
