(* ===== verification/Spec2Isabelle.thy ===== *)
theory Spec2Isabelle
  imports Tool_Lib Config Read_Cache Message_Queue File_Stream Databases Crypto_Primitive Client_Var
    Storage_Core Plain_Index Ssl_Connection Data_Writer Recv_Decoder Restore_Session Data_Receiver Upload_Session Container_Names Archive
    Recipe_Sender Login_Locks
    Server_Opt Server_Session Dae_Server Murmur_Hash Concurrent_Uploads Pending_Restore
    Blocking_Queue Compress_Gen
begin

text \<open>
  A model of the CloudServer, the cloud side of a deduplicating backup system, and the theorems that make it correct. All paths
  below are under \<open>src/\<close> of the repository.

  \<^bold>\<open>The program.\<close> Edge clients connect over TLS. A connection starts with a login message that says what it wants. An
  upload sends batches of chunks, recipe entries and a few control messages; the server hashes each chunk, looks the
  hash up in an index, and appends chunks with a new hash to the container of the connection. A full container goes
  through a bounded queue to a writer thread, which saves it under a random name. Recipes, the lists of hashes that
  make up a file, go to three files per uploaded file. A restore sends batches of hashes and gets the chunks back; the
  server finds the containers in the index, reads them through a cache and rebuilds an index of each. A recipe
  download sends the three recipe files in acknowledged batches. At the end the index and its statistics are written
  to files, which the next start loads.

  \<^bold>\<open>Theories, in the order of their imports.\<close>
  \<^item> \<open>Cloud_Prelude\<close>: machine words, byte buffers, byte encodings, the result type with the faults of the process, shared lemmas.
  \<^item> \<open>Chunk_Structure\<close> (\<open>include/constVar.h\<close>, \<open>include/chunkStructure.h\<close>): constants, message codes, records, message buffers.
  \<^item> \<open>Tool_Lib\<close> (\<open>include/define.h\<close>), \<open>Config\<close> (\<open>include/configure.h\<close>, \<open>src/Util/configure.cc\<close>): helpers and configuration.
  \<^item> \<open>Lru_Cache\<close> (\<open>include/lruCache.h\<close>), \<open>Read_Cache\<close> (\<open>src/Util/readCache.cc\<close>): the container cache; the LRU cache
    refines a list in order of recency.
  \<^item> \<open>Rw_Queue\<close> (\<open>include/messageQueue/readerwriterqueue.h\<close>), \<open>Message_Queue\<close> (\<open>include/messageQueue.h\<close>): the ring of blocks
    as a heap, refinement of a bounded list, when \<open>Push\<close> returns.
  \<^item> \<open>Blocking_Queue\<close> (\<open>include/messageQueue/readerwriterqueue.h\<close>, \<open>include/messageQueue/atomicops.h\<close>): the blocking variant of the queue over a
    semaphore that spins before it waits, as a transition system of its two threads; safety, order, no lost wake-up.
  \<^item> \<open>File_Stream\<close>: files and C++ streams as the sources use them. \<open>Databases\<close> (\<open>src/Database\<close>): the store interface as a
    table of functions with a locale for its laws, the in-memory store and its file format, LevelDB behind its wrapper.
  \<^item> \<open>Crypto_Primitive\<close> (\<open>src/Util/cryptoPrimitive.cc\<close>) over OpenSSL as a parameter; \<open>Client_Var\<close> (\<open>src/Util/clientVar.cc\<close>),
    the state of a connection; \<open>Storage_Core\<close> (\<open>src/Server/storageCore.cc\<close>, \<open>storeOCall.cc\<close>), containers in memory;
    \<open>Plain_Index\<close> (\<open>src/Index\<close>), deduplication and the statistics file.
  \<^item> \<open>Ssl_Connection\<close> (\<open>src/Comm/sslConnect.cc\<close>): set-up and the framing of messages, over sockets and TLS as parameters with
    the laws of a reliable stream of records.
  \<^item> \<open>Data_Writer\<close> (\<open>src/Server/dataWriter.cc\<close>): the two threads of an upload as a transition system, one step for each access to
    the shared queue; invariant, nothing lost, the writer can always finish.
  \<^item> \<open>Recv_Decoder\<close> (\<open>src/Server/recvDecoder.cc\<close>, \<open>absRecvDecoder.cc\<close>), \<open>Restore_Session\<close>: parsing of containers, restore of batches,
    a whole restore session.
  \<^item> \<open>Data_Receiver\<close> (\<open>src/Server/dataReceiver.cc\<close>), \<open>Upload_Session\<close>: the message loop of an upload, the abstract upload it refines.
  \<^item> \<open>Container_Names\<close>: whatever a client sends, the containers of its upload carry drawn names of eight characters.
  \<^item> \<open>Archive\<close>: what it means that containers on disk and index agree, and that uploads keep it.
  \<^item> \<open>Recipe_Sender\<close> (\<open>src/Server/recipeSender.cc\<close>): the recipe download.
  \<^item> \<open>Login_Locks\<close> (\<open>src/Server/serverOptThread.cc\<close>): the two levels of locks for any number of connections as a transition system.
  \<^item> \<open>Server_Opt\<close>, \<open>Server_Session\<close> (\<open>src/Server/serverOptThread.cc\<close>): the objects of the server and each kind of connection from
    its login to its end; \<open>Dae_Server\<close> (\<open>src/App/daeServer.cc\<close>): start, end and restart of the program.
  \<^item> \<open>Concurrent_Uploads\<close> (\<open>src/Index/plainIndex.cc\<close>): the batch loops of any number of connections over the shared index, interleaved
    chunk by chunk as its lock allows. \<open>Pending_Restore\<close>: what a restore does with a chunk that is indexed but not yet on disk.
  \<^item> \<open>Murmur_Hash\<close> (\<open>src/Util/murmurHash.cc\<close>): the hash functions of the repository. \<open>Compress_Gen\<close> (\<open>include/compressGen.h\<close>,
    \<open>src/Util/compressGen.cc\<close>): the generator of test data, its random numbers with their full period, fair bounded numbers, and
    data that fill exactly their buffer. Floating-point operations are a parameter.

  A class of the sources is a record whose fields carry the member names behind a prefix; a member function is a function that
  returns the new record. Functions keep the names of the sources. State that the C++ code shares by pointers is passed
  explicitly: the world (files, random numbers, contents of fresh memory), the connection, the index with its store.

  \<^bold>\<open>Faults.\<close> A function that can stop the process returns \<open>fault + 'a\<close>: \<open>ExitFailure\<close> for \<open>exit\<close>, \<open>AssertFailed\<close>,
  \<open>Uncaught\<close> for an exception, \<open>OutOfBounds\<close> where the code would access memory outside a buffer, \<open>Undefined\<close> for other
  undefined behaviour. Uninitialised memory is a parameter, so that what the code reads from it is arbitrary.

  \<^bold>\<open>Loops.\<close> Counted loops are structural recursion. Loops that may run forever (receiving and sending, the message loops, \<open>Push\<close>) are
  partial functions into \<open>option\<close>, where \<open>None\<close> means that the loop does not return; the theorems about them state that
  they return. The one fuel parameter is the number of blocks in the sums around the ring of the queue, which visit each block once. The only
  bounds are those of the program: 63 containers in the queue, 256 chunks in
  a batch, the sizes of buffers, and message lengths below \<open>2 ^ 31\<close> as the \<open>int\<close> arguments of the TLS library require.

  \<^bold>\<open>Interfaces.\<close> The store (\<open>key_value_store\<close>), the bounded queue, the LRU cache and the hash steps are locales, interpreted on
  the model's own definitions; upload, restore and archive lemmas are proved for every store with its laws.

  \<^bold>\<open>Not modelled.\<close> Memory fences and torn accesses of the queue: its operations are atomic steps. Of sessions
  that run at the same time, the login locks and the chunk loops over the shared index are interleaved; everything else in a session is
  a function of the server, and the counters of the index that the code updates outside its lock are atomic. Log messages, timing and
  memory statistics. Freeing of memory, except where the code frees what it does not own. Of \<open>include/messageQueue/atomicops.h\<close>, the fences,
  the macros for compilers, the computation of a time for \<open>sem_timedwait\<close> and the variants for other systems.
  \<open>include/messageQueue/concurrentqueue.h\<close> is a queue for many producers that no file includes. OpenSSL, LevelDB, Boost and the operating system are parameters.
\<close>

section \<open>Uploads and restores\<close>

text \<open>C3: Storing is durable across components. Take a consistent archive: the containers on disk are well formed, the index
  names for each hash exactly the container that has it, and each chunk is stored under its own hash. After an upload
  session of well-formed messages, in which the names drawn for containers are fresh, and after the writer thread has
  stopped, under every interleaving of the two threads, the archive is consistent again, holds all old
  containers, and indexes exactly the old hashes and those of the uploaded chunks.\<close>

theorem upload_keeps_archive:
  fixes r :: "(InMemoryDatabase, 's) receiver"
  assumes laws: "ssl_laws api inc out" and ready: "upload_ready cfg inmem_inv out evp H 0 name r"
    and ok: "list_all (upload_ok cfg (openable (w_fs (rv_w r)))) ms" and msgs: "carries (map (upload_bytes k) ms) (inc (rv_conn r))"
    and archive: "archive_ok cfg H fs C (inmem_abs (ix_indexStore (rv_ix r)))" and size: "\<forall>c \<in> uploaded ms. length c \<le> MAX_CHUNK_SIZE"
    and run: "DataReceiver_Run cfg api inmem_vtable evp r = Some (Inr (r', info))" and fresh: "fresh_names cfg C (cv_pushed (rv_cv r'))"
    and writer: "MessageQueue_new (\<lambda>_. True) (of_nat CONTAINER_QUEUE_SIZE) = Inr mq"
      "step\<^sup>*\<^sup>* (upload_start mq (cv_pushed (rv_cv r')) cfg fs) s" "up_pc s = Stopped"
  shows "\<exists>C'. archive_ok cfg H (up_fs s) C' (inmem_abs (ix_indexStore (rv_ix r'))) \<and> C \<subseteq>\<^sub>m C' \<and>
     dom (inmem_abs (ix_indexStore (rv_ix r'))) = dom (inmem_abs (ix_indexStore (rv_ix r))) \<union> H ` uploaded ms"
proof -
  have "files (up_fs s) = write_all cfg (cv_pushed (rv_cv r')) (files fs)"
    using writer_stopped_state [OF writer] by (simp add: upload_rep_def)
  then show ?thesis
    using inmem.upload_archive [OF laws ready ok msgs archive _ run fresh] size by blast
qed

text \<open>C2: What was uploaded comes back. Over a consistent archive, after an upload session and the end of the writer, a client
  that opens a restore connection and asks, in batches of at most 256, for the hashes of chunks of that
  upload gets back exactly these chunks, in the order of its requests, whether a chunk was stored by this upload or was
  a duplicate of an earlier one, as long as no two chunks in play have the same hash.\<close>

theorem upload_then_restore:
  fixes r :: "(InMemoryDatabase, 's) receiver"
  assumes laws: "ssl_laws api inc out" and ready: "upload_ready cfg inmem_inv out evp H 0 name r"
    and ok: "list_all (upload_ok cfg (openable (w_fs (rv_w r)))) ms" and msgs: "carries (map (upload_bytes k) ms) (inc (rv_conn r))"
    and archive: "archive_ok cfg H fs C (inmem_abs (ix_indexStore (rv_ix r)))" and size: "\<forall>c \<in> uploaded ms. length c \<le> MAX_CHUNK_SIZE"
    and run: "DataReceiver_Run cfg api inmem_vtable evp r = Some (Inr (r', info))" and fresh: "fresh_names cfg C (cv_pushed (rv_cv r'))"
    and writer: "MessageQueue_new (\<lambda>_. True) (of_nat CONTAINER_QUEUE_SIZE) = Inr mq"
      "step\<^sup>*\<^sup>* (upload_start mq (cv_pushed (rv_cv r')) cfg fs) s" "up_pc s = Stopped"
    and decoder: "decoder_fresh cfg rd cv" and p: "length p \<le> MAX_CHUNK_SIZE"
    and requests: "carries (ready_msg j p # map (batch_msg j) (map (map H) css)) (inc c)"
      "\<forall>cs \<in> set css. length cs \<le> 256 \<and> set cs \<subseteq> uploaded ms"
    and collision_free: "inj_on H (archived C \<union> uploaded ms)"
  shows "\<exists>rd' cv' c'. RecvDecoder_Run api inmem_vtable (rv_ix r') (up_fs s) rd cv c = Some (Inr (rd', cv', c')) \<and>
     out c' = out c @ concat (map (batch_answer j) css)"
proof -
  have "files (up_fs s) = write_all cfg (cv_pushed (rv_cv r')) (files fs)"
    using writer_stopped_state [OF writer] by (simp add: upload_rep_def)
  then obtain C' where C': "archive_ok cfg H (up_fs s) C' (inmem_abs (ix_indexStore (rv_ix r')))" "inmem_inv (ix_indexStore (rv_ix r'))"
      "dom (inmem_abs (ix_indexStore (rv_ix r'))) = dom (inmem_abs (ix_indexStore (rv_ix r))) \<union> H ` uploaded ms"
      "archived C' \<subseteq> archived C \<union> uploaded ms"
    using inmem.upload_archive [OF laws ready ok msgs archive _ run fresh] size by blast
  have len: "length (H x) = CHUNK_HASH_SIZE" for x
    using ready by (simp add: upload_ready_def receiver_ok_def hashes_with_def)
  have req: "length cs \<le> 256 \<and> H ` set cs \<subseteq> dom (inmem_abs (ix_indexStore (rv_ix r')))" if "cs \<in> set css" for cs
    using requests(2) that C'(3) by blast
  have "archived C' \<union> \<Union> (set ` set css) \<subseteq> archived C \<union> uploaded ms"
    using C'(4) requests(2) by blast
  then have inj: "inj_on H (archived C' \<union> \<Union> (set ` set css))"
    by (rule inj_on_subset [OF collision_free])
  show ?thesis
    by (rule inmem.archive_restore [OF laws C'(2,1) decoder_fresh_idle [OF decoder] requests(1) p len req inj])
qed

theorem upload_keeps_archive_witness:
  "\<exists>r' info x (s :: upload) C'. DataReceiver_Run demo_cfg queue_api inmem_vtable demo_evp small_upload = Some (Inr (r', info)) \<and>
     cv_pushed (rv_cv r') = [x] \<and> ct_bytes x = file_enc 1 [(demo_hash [1], [1])] \<and>
     archive_ok demo_cfg demo_hash (up_fs s) C' (inmem_abs (ix_indexStore (rv_ix r'))) \<and> small_archive \<subseteq>\<^sub>m C' \<and>
     dom (inmem_abs (ix_indexStore (rv_ix r'))) = {demo_hash [5, 6], demo_hash [1]}"
proof -
  obtain r' info x mq s where run: "DataReceiver_Run demo_cfg queue_api inmem_vtable demo_evp small_upload = Some (Inr (r', info))"
      and x: "cv_pushed (rv_cv r') = [x]" "ct_bytes x = file_enc 1 [(demo_hash [1], [1])]" "fresh_names demo_cfg small_archive [x]"
      and writer: "MessageQueue_new (\<lambda>_. True) (of_nat CONTAINER_QUEUE_SIZE) = Inr mq"
      "step\<^sup>*\<^sup>* (upload_start mq [x] demo_cfg small_disk) s" "up_pc s = Stopped"
    using small_run by blast
  have size: "\<forall>c \<in> uploaded small_messages. length c \<le> MAX_CHUNK_SIZE"
    by (simp add: small_messages_ok(3) MAX_CHUNK_SIZE_def)
  have dom: "dom (inmem_abs (ix_indexStore (rv_ix small_upload))) \<union> demo_hash ` uploaded small_messages = {demo_hash [5, 6], demo_hash [1]}"
    by (auto simp: small_index small_messages_ok(3))
  show ?thesis
    using upload_keeps_archive [OF queue_api_laws small_ready small_messages_ok(1,2) small_archive_ok size run, of mq s] x writer run
    unfolding dom by auto
qed

theorem upload_then_restore_witness:
  "\<exists>r' info x (s :: upload) rd' cv' c'. DataReceiver_Run demo_cfg queue_api inmem_vtable demo_evp small_upload = Some (Inr (r', info)) \<and>
     cv_pushed (rv_cv r') = [x] \<and>
     RecvDecoder_Run queue_api inmem_vtable (rv_ix r') (up_fs s) (AbsRecvDecoder_new demo_cfg) small_decoder
       (concat (map sent_frame [ready_msg 7 [], batch_msg 7 [demo_hash [1], demo_hash [5, 6]]]), []) = Some (Inr (rd', cv', c')) \<and>
     snd c' = batch_answer 7 [[1], [5, 6]]"
proof -
  obtain r' info x mq s where run: "DataReceiver_Run demo_cfg queue_api inmem_vtable demo_evp small_upload = Some (Inr (r', info))"
      and x: "cv_pushed (rv_cv r') = [x]" "fresh_names demo_cfg small_archive (cv_pushed (rv_cv r'))"
      and writer: "MessageQueue_new (\<lambda>_. True) (of_nat CONTAINER_QUEUE_SIZE) = Inr mq"
      "step\<^sup>*\<^sup>* (upload_start mq (cv_pushed (rv_cv r')) demo_cfg small_disk) s" "up_pc s = Stopped"
    using small_run by metis
  let ?css = "[[[1], [5, 6]]] :: bytes list list"
  let ?c = "(concat (map sent_frame [ready_msg 7 [], batch_msg 7 [demo_hash [1], demo_hash [5, 6]]]), []) :: bytes list \<times> bytes list"
  have size: "\<forall>c \<in> uploaded small_messages. length c \<le> MAX_CHUNK_SIZE"
    by (simp add: small_messages_ok(3) MAX_CHUNK_SIZE_def)
  have car: "carries (ready_msg 7 [] # map (batch_msg 7) (map (map demo_hash) ?css)) (fst ?c)"
    using carries_sent [of "[ready_msg 7 [], batch_msg 7 [demo_hash [1], demo_hash [5, 6]]]"] by simp
  have req: "\<forall>cs \<in> set ?css. length cs \<le> 256 \<and> set cs \<subseteq> uploaded small_messages" "length ([] :: bytes) \<le> MAX_CHUNK_SIZE"
    by (simp_all add: small_messages_ok(3))
  show ?thesis
    using upload_then_restore [OF queue_api_laws small_ready small_messages_ok(1,2) small_archive_ok size run x(2) writer small_decoder_fresh
        req(2) car req(1) small_hash_inj] run x(1) by auto
qed

section \<open>Connections of the server\<close>

text \<open>C1: The server gives back what it was given. Take a server between two connections over a consistent archive. A client logs in
  to upload and sends well-formed messages; the upload ends normally. A client that then logs in to restore and
  asks, in batches of at most 256, for hashes of chunks of that upload gets the answer to its login and exactly
  these chunks in the order of its requests, as long as no two chunks in play have the same hash, the names drawn for
  containers are fresh and the counter of the first container happens to start at zero.\<close>

theorem server_restores_upload:
  fixes sv :: "InMemoryDatabase server"
  assumes laws: "ssl_laws api inc out" and server: "server_ok cfg inmem_inv evp H sv" and roots: "roots_apart cfg"
    and cache: "0 < unat (GetReadCacheSize cfg)" "unat (GetReadCacheSize cfg) \<le> 2 ^ 32"
    and archive: "archive_ok cfg H (w_fs w) C (inmem_abs (ix_indexStore (sv_ix sv)))"
    and name: "name_ok cfg (openable (w_fs w)) name" "length name = CHUNK_HASH_SIZE * 2"
    and upload: "carries (login_msg EDGE_MIGRATE_LOGIN k (name @ frh_enc fh) # map (upload_bytes k) ms) (inc c)"
      "list_all (upload_ok cfg (openable (w_fs w))) ms" "\<forall>ch \<in> uploaded ms. length ch \<le> MAX_CHUNK_SIZE"
    and disk: "\<forall>n. openable (w_fs w) (container_file cfg n)" and fresh: "fresh_names cfg C (session_containers cfg api inmem_vtable evp pool raw sv c w)"
    and counter: "ic_chunkNum (cv_curContainer raw) = 0"
    and restore: "carries (login_msg EDGE_DOWNLOAD_CHUNK_LOGIN j q # ready_msg i p # map (batch_msg i) (map (map H) css)) (inc c2)"
      "length q \<le> 80" "length p \<le> MAX_CHUNK_SIZE" "\<forall>cs \<in> set css. length cs \<le> 256 \<and> set cs \<subseteq> uploaded ms"
    and collision_free: "inj_on H (archived C \<union> uploaded ms)"
  shows "\<exists>sv' c' w'. ServerOptThread_Run cfg api inmem_vtable evp pool raw sv c w = Some (Inr (sv', c', w')) \<and>
     (\<exists>sv'' c'' w''. ServerOptThread_Run cfg api inmem_vtable evp pool' raw' sv' c2 w' = Some (Inr (sv'', c'', w'')) \<and>
        out c'' = out c2 @ sent_frame (login_answer j q) @ concat (map (batch_answer i) css))"
proof -
  let ?ks = "session_containers cfg api inmem_vtable evp pool raw sv c w"
  let ?a = "fold (upload_step cfg H k) ms (login_begin cfg inmem_abs out k name fh sv c (w_fs w))"
  obtain r0 r' info sv' c' w' where u: "upload_ready cfg inmem_inv out evp H 0 name r0"
     "list_all (upload_ok cfg (openable (w_fs (rv_w r0)))) ms" "carries (map (upload_bytes k) ms) (inc (rv_conn r0))"
     "DataReceiver_Run cfg api inmem_vtable evp r0 = Some (Inr (r', info))" "?ks = cv_pushed (rv_cv r')" "rv_ix r0 = sv_ix sv"
     "files (w_fs (rv_w r')) = ua_disk ?a"
     "ServerOptThread_Run cfg api inmem_vtable evp pool raw sv c w = Some (Inr (sv', c', w'))" "server_ok cfg inmem_inv evp H sv'" "sv_ix sv' = rv_ix r'"
     "files (w_fs w') = write_all cfg ?ks (ua_disk ?a)"
    using inmem.upload_login [OF laws server name upload(2,1) disk, of raw pool] unfolding counter by blast
  have old: "archive_ok cfg H (w_fs (rv_w r')) C (inmem_abs (ix_indexStore (rv_ix r0)))"
    unfolding u(6) using roots
    by (intro archive_same_containers [OF archive]) (simp add: u(7) upload_fold_container login_begin_def new_upload_def roots_apart_def)
  obtain C' where C': "archive_ok cfg H (w_fs w') C' (inmem_abs (ix_indexStore (sv_ix sv')))"
      "dom (inmem_abs (ix_indexStore (sv_ix sv'))) = dom (inmem_abs (ix_indexStore (rv_ix r0))) \<union> H ` uploaded ms"
      "archived C' \<subseteq> archived C \<union> uploaded ms"
    using inmem.upload_archive [OF laws u(1-3) old _ u(4) fresh [unfolded u(5)], of "w_fs w'"] upload(3) u(5,7,11) unfolding u(10) by auto
  have req: "length cs \<le> 256 \<and> H ` set cs \<subseteq> dom (inmem_abs (ix_indexStore (sv_ix sv')))" if "cs \<in> set css" for cs
    using restore(4) that C'(2) by blast
  have "archived C' \<union> \<Union> (set ` set css) \<subseteq> archived C \<union> uploaded ms"
    using C'(3) restore(4) by blast
  then have inj: "inj_on H (archived C' \<union> \<Union> (set ` set css))"
    by (rule inj_on_subset [OF collision_free])
  show ?thesis
    using u(8) inmem.restore_login [OF laws u(9) cache C'(1) restore(2,3,1) req inj] by blast
qed

text \<open>C4: The recipes of a file come back. After an upload of one file, a client that logs in to download the recipes of that name
  and acknowledges each batch gets the head that the upload announced, and the plain, secure and key entries that
  the messages of the upload carried, in order, followed by the end message.\<close>

theorem server_returns_recipes:
  fixes sv :: "InMemoryDatabase server"
  assumes laws: "ssl_laws api inc out" and server: "server_ok cfg inmem_inv evp H sv" and roots: "roots_apart cfg"
    and name: "name_ok cfg (openable (w_fs w)) name" "length name = CHUNK_HASH_SIZE * 2"
    and upload: "carries (login_msg EDGE_MIGRATE_LOGIN k (name @ frh_enc fh) # map (upload_bytes k) ms) (inc c)"
      "list_all (upload_ok cfg (openable (w_fs w))) ms" "list_all same_file ms"
    and disk: "\<forall>n. openable (w_fs w) (container_file cfg n)"
    and contents: "plain = concat (map plain_entries ms)" "sec = concat (map sec_entries ms)" "key = concat (map key_entries ms)"
    and download: "carries (login_msg EDGE_DOWNLOAD_RECIPE_LOGIN j (name @ q) # map (ready_msg j) (p0 # ps)) (inc c2)" "length q \<le> 16"
      "list_all (ready_fits (RecipeSender_new cfg)) (p0 # ps)" "length ps = length (download_frames cfg j plain sec key)"
  shows "\<exists>sv' c' w'. ServerOptThread_Run cfg api inmem_vtable evp pool raw sv c w = Some (Inr (sv', c', w')) \<and>
     (\<exists>sv'' c'' w''. ServerOptThread_Run cfg api inmem_vtable evp pool' raw' sv' c2 w' = Some (Inr (sv'', c'', w'')) \<and>
        out c'' = out c2 @ sent_frame (recipe_answer j (name @ q) fh) @
          concat (map sent_frame (download_frames cfg j plain sec key @ [end_frame j])))"
proof -
  let ?ks = "session_containers cfg api inmem_vtable evp pool raw sv c w"
  let ?a0 = "login_begin cfg inmem_abs out k name fh sv c (w_fs w)"
  obtain sv' c' w' where u: "ServerOptThread_Run cfg api inmem_vtable evp pool raw sv c w = Some (Inr (sv', c', w'))" "server_ok cfg inmem_inv evp H sv'"
     "files (w_fs w') = write_all cfg ?ks (ua_disk (fold (upload_step cfg H k) ms ?a0))"
    using inmem.upload_login [OF laws server name upload(2,1) disk, of raw pool] by blast
  have "recipe_files cfg name fh [] [] [] (ua_disk ?a0)" "ua_name ?a0 = name"
    using name(1) by (auto simp: login_begin_def new_upload_def recipe_files_def name_ok_def)
  then have "recipe_files cfg name fh plain sec key (files (w_fs w'))"
    unfolding u(3) contents using recipe_files_fold [OF name(1) _ _ upload(3)] by (intro recipe_files_write_all [OF roots]) fastforce
  moreover have "sv_rs sv' = RecipeSender_new cfg"
    using u(2) by (simp add: server_ok_def)
  ultimately show ?thesis
    using u(1) recipe_login [OF laws _ _ name(2) download(2,3,4,1)] by blast
qed

theorem server_restores_upload_witness:
  "\<exists>x sv' c' w' sv'' c'' w''. session_containers demo_cfg queue_api inmem_vtable demo_evp (\<lambda>_ _. 0) small_decoder small_server
       (small_session small_messages) small_world = [x] \<and> ct_bytes x = file_enc 1 [(demo_hash [1], [1])] \<and>
     ServerOptThread_Run demo_cfg queue_api inmem_vtable demo_evp (\<lambda>_ _. 0) small_decoder small_server
       (small_session small_messages) small_world = Some (Inr (sv', c', w')) \<and>
     ServerOptThread_Run demo_cfg queue_api inmem_vtable demo_evp (\<lambda>_ _. 0) small_decoder sv'
       (concat (map sent_frame [login_msg EDGE_DOWNLOAD_CHUNK_LOGIN 2 [], ready_msg 2 [], batch_msg 2 [demo_hash [1], demo_hash [5, 6]]]), []) w' =
       Some (Inr (sv'', c'', w'')) \<and> snd c'' = sent_frame (login_answer 2 []) @ batch_answer 2 [[1], [5, 6]]"
proof -
  let ?css = "[[[1], [5, 6]]] :: bytes list list"
  let ?c = "(concat (map sent_frame [login_msg EDGE_DOWNLOAD_CHUNK_LOGIN 2 [], ready_msg 2 [], batch_msg 2 [demo_hash [1], demo_hash [5, 6]]]), []) :: bytes list \<times> bytes list"
  have car: "carries (login_msg EDGE_DOWNLOAD_CHUNK_LOGIN 2 [] # ready_msg 2 [] # map (batch_msg 2) (map (map demo_hash) ?css)) (fst ?c)"
    using carries_sent [of "[login_msg EDGE_DOWNLOAD_CHUNK_LOGIN 2 [], ready_msg 2 [], batch_msg 2 [demo_hash [1], demo_hash [5, 6]]]"] by simp
  have cache: "0 < unat (GetReadCacheSize demo_cfg)" "unat (GetReadCacheSize demo_cfg) \<le> 2 ^ 32"
    by (simp_all add: GetReadCacheSize_def demo_cfg_def)
  have archive: "archive_ok demo_cfg demo_hash (w_fs small_world) small_archive (inmem_abs (ix_indexStore (sv_ix small_server)))"
    using small_archive_ok by (simp add: small_server_def)
  have ok: "list_all (upload_ok demo_cfg (openable (w_fs small_world))) small_messages" "name_ok demo_cfg (openable (w_fs small_world)) demo_name"
      "\<forall>n. openable (w_fs small_world) (container_file demo_cfg n)" "\<forall>ch \<in> uploaded small_messages. length ch \<le> MAX_CHUNK_SIZE"
    using small_messages_ok demo_name_ok by (simp_all add: small_upload_def demo_upload_def MAX_CHUNK_SIZE_def)
  have raw: "ic_chunkNum (cv_curContainer small_decoder) = 0"
    by (simp add: demo_client_def)
  obtain x where x: "session_containers demo_cfg queue_api inmem_vtable demo_evp (\<lambda>_ _. 0) small_decoder small_server
      (small_session small_messages) small_world = [x]" "ct_bytes x = file_enc 1 [(demo_hash [1], [1])]" "uuid_name (ct_containerID x)"
    using small_session_containers [OF raw] by blast
  have fresh: "fresh_names demo_cfg small_archive (session_containers demo_cfg queue_api inmem_vtable demo_evp (\<lambda>_ _. 0) small_decoder
      small_server (small_session small_messages) small_world)"
    using x(1) small_fresh [OF x(3)] by simp
  have req: "length ([] :: bytes) \<le> 80" "length ([] :: bytes) \<le> MAX_CHUNK_SIZE" "\<forall>cs \<in> set ?css. length cs \<le> 256 \<and> set cs \<subseteq> uploaded small_messages"
    by (simp_all add: small_messages_ok(3))
  show ?thesis
    using server_restores_upload [OF queue_api_laws small_server_ok small_roots cache archive ok(2) demo_name_length small_session_carries ok(1,4,3)
        fresh raw car req small_hash_inj] x(1,2) by fastforce
qed

definition recipe_session :: "upload_msg list" where
  "recipe_session = [PlainEntries [replicate 32 7], KeyEntries [replicate 32 9], RecipeEnd small_head]"

theorem server_returns_recipes_witness:
  "\<exists>sv' c' w' sv'' c'' w''. ServerOptThread_Run demo_cfg queue_api inmem_vtable demo_evp (\<lambda>_ _. 0) small_decoder small_server
       (small_session recipe_session) small_world = Some (Inr (sv', c', w')) \<and>
     ServerOptThread_Run demo_cfg queue_api inmem_vtable demo_evp (\<lambda>_ _. 0) small_decoder sv'
       (concat (map sent_frame (login_msg EDGE_DOWNLOAD_RECIPE_LOGIN 5 (demo_name @ []) # map (ready_msg 5) [[], [], []])), []) w' =
       Some (Inr (sv'', c'', w'')) \<and>
     snd c'' = sent_frame (recipe_answer 5 demo_name small_head) @
       concat (map sent_frame (download_frames demo_cfg 5 (replicate 32 7) [] (replicate 32 9) @ [end_frame 5]))"
proof -
  let ?c = "(concat (map sent_frame (login_msg EDGE_DOWNLOAD_RECIPE_LOGIN 5 (demo_name @ []) # map (ready_msg 5) [[], [], []])), []) :: bytes list \<times> bytes list"
  have car: "carries (login_msg EDGE_DOWNLOAD_RECIPE_LOGIN 5 (demo_name @ []) # map (ready_msg 5) ([] # [[], []])) (fst ?c)"
    using carries_sent [of "login_msg EDGE_DOWNLOAD_RECIPE_LOGIN 5 (demo_name @ []) # map (ready_msg 5) ([] # [[], []])"] by simp
  have ok: "list_all (upload_ok demo_cfg (openable (w_fs small_world))) recipe_session" "name_ok demo_cfg (openable (w_fs small_world)) demo_name"
      "\<forall>n. openable (w_fs small_world) (container_file demo_cfg n)" "list_all same_file recipe_session"
    using demo_name_ok by (simp_all add: recipe_session_def const_simps)
  have bodies: "replicate 32 7 = concat (map plain_entries recipe_session)" "[] = concat (map sec_entries recipe_session)"
      "replicate 32 9 = concat (map key_entries recipe_session)"
    by (simp_all add: recipe_session_def)
  have n: "sizeof_RecipeEntry * unat (rs_sendRecipeBatchSize (RecipeSender_new demo_cfg)) = 16384"
    by (simp add: RecipeSender_new_def GetSendRecipeBatchSize_def demo_cfg_def const_simps)
  have one: "length (batches 16384 (replicate 32 (x :: u8))) = 1" for x
    by (simp add: batches.simps)
  then have len: "length [[], [] :: bytes] = length (download_frames demo_cfg 5 (replicate 32 7) [] (replicate 32 9))"
    unfolding download_frames_def recipe_frames_def n by simp
  have fits: "list_all (ready_fits (RecipeSender_new demo_cfg)) ([] # [[], []])"
    by (simp add: ready_fits_def)
  have q: "length ([] :: bytes) \<le> 16"
    by simp
  show ?thesis
    using server_returns_recipes [OF queue_api_laws small_server_ok small_roots ok(2) demo_name_length small_session_carries ok(1,4,3) bodies car q fits len]
    by fastforce
qed

end
